(* ===== verification/Prelude.thy ===== *)
theory Prelude
  imports Main "HOL-Library.Word" "HOL-Library.AList" "HOL-Library.Sublist"
begin

text \<open>
  Shared vocabulary of the development: the integer types of the C++ sources and their
  wrap-around, bytes against characters, the library operations the sources use
  (\<open>std::string::find\<close>, \<open>std::to_string\<close>, \<open>std::unordered_map\<close>), and the
  list and word lemmas the components share. The collections declared here
  (\<open>arith_width\<close> for machine integers, \<open>pool_simps\<close> for the session table,
  \<open>text_simps\<close> for strings) carry the proofs of the component theories.
\<close>

unbundle bit_operations_syntax

named_theorems arith_width \<open>wrap-around operations on values that fit their width\<close>
named_theorems pool_simps \<open>lookups and updates of association lists\<close>
named_theorems text_simps \<open>searching, escaping and parsing of strings\<close>

type_synonym byte = "8 word"
type_synonym u32 = "32 word"
type_synonym u64 = "64 word"

section \<open>Machine integers\<close>

text \<open>
  \<open>uint32_t\<close> and \<open>uint64_t\<close> are words. \<open>int\<close> and \<open>int32_t\<close> are HOL
  integers; wherever the sources add to a value that can grow, the result is brought back
  into the 32-bit range by \<open>i32\<close> (two's complement). \<open>size_t\<close> is a natural number,
  with the modular subtraction and addition of a 64-bit type written out where an operand can
  be larger than the other.
\<close>

definition INT_MAX :: int where
  "INT_MAX = 2147483647"

definition i32 :: "int \<Rightarrow> int" where
  "i32 x = (x + 2147483648) mod 4294967296 - 2147483648"

definition size_sub :: "nat \<Rightarrow> nat \<Rightarrow> nat" where
  "size_sub a b = (if b \<le> a then a - b else a + 2 ^ 64 - b)"

definition size_add :: "nat \<Rightarrow> nat \<Rightarrow> nat" where
  "size_add a b = (a + b) mod 2 ^ 64"

lemma i32_id [arith_width]: "- 2147483648 \<le> x \<Longrightarrow> x \<le> INT_MAX \<Longrightarrow> i32 x = x"
  by (simp add: i32_def INT_MAX_def)

lemma size_sub_le [arith_width]: "b \<le> a \<Longrightarrow> size_sub a b = a - b"
  by (simp add: size_sub_def)

lemma size_add_small [arith_width]: "a + b < 2 ^ 64 \<Longrightarrow> size_add a b = a + b"
  by (simp add: size_add_def)

text \<open>Conversion of a signed 32-bit value to \<open>uint64_t\<close>: sign extension.\<close>

definition u64_of_int :: "int \<Rightarrow> u64" where
  "u64_of_int x = word_of_int x"

lemma unat_u64_of_int [arith_width]:
  "0 \<le> x \<Longrightarrow> x < 2 ^ 64 \<Longrightarrow> unat (u64_of_int x) = nat x"
  by (simp add: u64_of_int_def unat_eq_nat_uint uint_word_of_int)

section \<open>Bytes and characters\<close>

text \<open>
  \<open>std::string\<close> is a \<open>string\<close> (its \<open>char\<close>s are bytes), \<open>std::vector<uint8_t>\<close>
  a list of 8-bit words. The sources move between the two with \<open>reinterpret_cast\<close>
  or by copying element by element; both keep the bit pattern.
\<close>

definition byte_of_char :: "char \<Rightarrow> byte" where
  "byte_of_char c = of_char c"

definition char_of_byte :: "byte \<Rightarrow> char" where
  "char_of_byte b = char_of (unat b)"

lemma unat_byte_of_char: "unat (byte_of_char c) = of_char c"
proof -
  have "byte_of_char c = word_of_nat (of_char c)"
    by (simp add: byte_of_char_def of_nat_of_char)
  moreover have "(of_char c :: nat) < 256"
    by (rule nat_of_char_less_256)
  ultimately show ?thesis by (simp add: unat_of_nat)
qed

lemma char_of_byte_of_char [simp]: "char_of_byte (byte_of_char c) = c"
  by (simp add: char_of_byte_def unat_byte_of_char)

lemma byte_of_char_of_byte [simp]: "byte_of_char (char_of_byte b) = b"
proof -
  have "unat b < 256" using unsigned_less [of b, where ?'a = nat] by simp
  then have "unat (byte_of_char (char_of_byte b)) = unat b"
    by (simp add: unat_byte_of_char char_of_byte_def)
  then show ?thesis by (rule word_unat_eq_iff [THEN iffD2])
qed

lemma char_of_byte_comp [simp]: "char_of_byte \<circ> byte_of_char = id"
  by (simp add: fun_eq_iff)

lemma byte_of_char_comp [simp]: "byte_of_char \<circ> char_of_byte = id"
  by (simp add: fun_eq_iff)

lemma map_char_of_byte_of_char [simp]: "map char_of_byte (map byte_of_char s) = s"
  by (induction s) simp_all

section \<open>std::string::find\<close>

lemma prefix_iff_take: "prefix pat s \<longleftrightarrow> take (length pat) s = pat"
  by (metis append_eq_conv_conj append_take_drop_id prefix_def)

lemma prefix_drop_inside:
  "k + length pat \<le> length w \<Longrightarrow> prefix pat (drop k (w @ z)) \<longleftrightarrow> prefix pat (drop k w)"
  by (simp add: prefix_iff_take)

text \<open>
  \<open>s.find(pat, from)\<close>: the least index at or after \<open>from\<close> at which \<open>pat\<close>
  occurs, \<open>npos\<close> modelled as \<open>None\<close>.
\<close>

fun find_sub :: "'a list \<Rightarrow> 'a list \<Rightarrow> nat option" where
  "find_sub pat [] = (if pat = [] then Some 0 else None)"
| "find_sub pat (x # xs) =
     (if prefix pat (x # xs) then Some 0 else map_option Suc (find_sub pat xs))"

definition str_find :: "'a list \<Rightarrow> 'a list \<Rightarrow> nat \<Rightarrow> nat option" where
  "str_find s pat from =
     (if length s < from then None else map_option ((+) from) (find_sub pat (drop from s)))"

lemma find_sub_Some_iff:
  "find_sub pat s = Some i \<longleftrightarrow>
     i \<le> length s \<and> prefix pat (drop i s) \<and> (\<forall>k < i. \<not> prefix pat (drop k s))"
proof (induction s arbitrary: i)
  case Nil
  show ?case by (auto simp: prefix_def)
next
  case (Cons x xs)
  show ?case
  proof (cases i)
    case 0
    then show ?thesis by auto
  next
    case (Suc j)
    have "(\<forall>k < Suc j. \<not> prefix pat (drop k (x # xs))) \<longleftrightarrow>
       \<not> prefix pat (x # xs) \<and> (\<forall>k < j. \<not> prefix pat (drop k xs))"
      by (simp add: All_less_Suc2)
    then show ?thesis using Suc Cons.IH [of j] by auto
  qed
qed

lemma find_sub_None_iff:
  "find_sub pat s = None \<longleftrightarrow> (\<forall>k \<le> length s. \<not> prefix pat (drop k s))"
proof (induction s)
  case Nil
  show ?case by (auto simp: prefix_def)
next
  case (Cons x xs)
  have "(\<forall>k \<le> length (x # xs). \<not> prefix pat (drop k (x # xs))) \<longleftrightarrow>
     \<not> prefix pat (x # xs) \<and> (\<forall>k \<le> length xs. \<not> prefix pat (drop k xs))"
    by (simp only: list.size add_Suc_right add_0_right less_Suc_eq_le [symmetric] All_less_Suc2)
       simp
  then show ?case using Cons.IH by auto
qed

text \<open>The first occurrence of a single character, the form \<open>s.find(c, from)\<close>.\<close>

lemma find_sub_char_skip [text_simps]:
  "c \<notin> set xs \<Longrightarrow> find_sub [c] (xs @ c # ys) = Some (length xs)"
  by (induction xs) (auto simp: prefix_Cons)

lemma find_sub_here [text_simps]: "prefix pat s \<Longrightarrow> find_sub pat s = Some 0"
  by (cases s) auto

section \<open>std::to_string on integers\<close>

definition digit_char :: "nat \<Rightarrow> char" where
  "digit_char d = ''0123456789'' ! (d mod 10)"

fun string_of_nat :: "nat \<Rightarrow> string" where
  "string_of_nat n =
     (if n < 10 then [digit_char n] else string_of_nat (n div 10) @ [digit_char (n mod 10)])"

declare string_of_nat.simps [simp del]

definition string_of_int :: "int \<Rightarrow> string" where
  "string_of_int x = (if x < 0 then CHR ''-'' # string_of_nat (nat (- x)) else string_of_nat (nat x))"

lemma digit_char_digit: "digit_char d \<in> set ''0123456789''"
  unfolding digit_char_def by (rule nth_mem) simp

lemma string_of_nat_digits: "set (string_of_nat n) \<subseteq> set ''0123456789''"
proof (induction n rule: string_of_nat.induct)
  case (1 n)
  show ?case
  proof (cases "n < 10")
    case True
    then show ?thesis using digit_char_digit by (simp add: string_of_nat.simps)
  next
    case False
    have "digit_char (n mod 10) \<in> set ''0123456789''"
      by (rule digit_char_digit)
    then show ?thesis using False 1 by (simp add: string_of_nat.simps [of n])
  qed
qed

section \<open>Association lists as unordered maps\<close>

text \<open>
  \<open>std::unordered_map\<close> iterates in an order the standard leaves open. A map is an
  association list with distinct keys whose list order is the iteration order; assigning to
  an existing key keeps the order (\<open>AList.update\<close>), erasing keeps the order of the rest
  (\<open>AList.delete\<close>).
\<close>

lemma map_of_update_same [pool_simps]: "map_of (AList.update k v al) k = Some v"
  by (simp add: update_conv')

lemma map_of_update_other [pool_simps]:
  "k' \<noteq> k \<Longrightarrow> map_of (AList.update k v al) k' = map_of al k'"
  by (simp add: update_conv')

lemma keys_update_present [pool_simps]:
  "map_of al k \<noteq> None \<Longrightarrow> map fst (AList.update k v al) = map fst al"
  by (induction al) auto

lemma length_update_present [pool_simps]:
  "map_of al k \<noteq> None \<Longrightarrow> length (AList.update k v al) = length al"
  by (induction al) auto

lemma map_of_delete_same [pool_simps]: "map_of (AList.delete k al) k = None"
  by (simp add: delete_conv')

lemma map_of_delete_other [pool_simps]:
  "k' \<noteq> k \<Longrightarrow> map_of (AList.delete k al) k' = map_of al k'"
  by (simp add: delete_conv')

lemma set_update_subset:
  "set (AList.update k v al) \<subseteq> insert (k, v) (set al)"
  by (induction al) auto

lemma update_elem_cases:
  "distinct (map fst al) \<Longrightarrow> (k', v') \<in> set (AList.update k v al) \<Longrightarrow>
     (k' = k \<and> v' = v) \<or> (k' \<noteq> k \<and> (k', v') \<in> set al)"
  by (induction al) (auto split: if_splits simp: image_iff)

lemma set_delete_subset: "set (AList.delete k al) \<subseteq> set al"
  by (induction al) auto

section \<open>Computations that can fail\<close>

text \<open>A failing computation is a sum with the error on the left; a loop whose body can fail
  is \<open>foldE\<close>.\<close>

fun bindE :: "'e + 'a \<Rightarrow> ('a \<Rightarrow> 'e + 'b) \<Rightarrow> 'e + 'b" where
  "bindE (Inl e) f = Inl e"
| "bindE (Inr x) f = f x"

fun foldE :: "('x \<Rightarrow> 's \<Rightarrow> 'e + 's) \<Rightarrow> 'x list \<Rightarrow> 's \<Rightarrow> 'e + 's" where
  "foldE f [] s = Inr s"
| "foldE f (x # xs) s = bindE (f x s) (foldE f xs)"

lemma bindE_Inr_iff: "bindE m f = Inr y \<longleftrightarrow> (\<exists>x. m = Inr x \<and> f x = Inr y)"
  by (cases m) auto

lemma foldE_append: "foldE f (xs @ ys) s = bindE (foldE f xs s) (foldE f ys)"
proof (induction xs arbitrary: s)
  case (Cons x xs)
  then show ?case by (cases "f x s") simp_all
qed simp

section \<open>Loops that touch distinct keys\<close>

text \<open>
  A loop whose steps each change the entry of one key, with all keys distinct, changes every
  entry exactly once and from its value at the start.
\<close>

lemma fold_distinct_keys_inv:
  assumes other: "\<And>x st k. I st \<Longrightarrow> x \<in> set xs \<Longrightarrow> k \<noteq> key x \<Longrightarrow> look (g x st) k = look st k"
    and inv: "\<And>x st. I st \<Longrightarrow> x \<in> set xs \<Longrightarrow> I (g x st)"
    and this: "\<And>x st v. I st \<Longrightarrow> x \<in> set xs \<Longrightarrow> look st (key x) = Some v \<Longrightarrow> \<exists>v'. look (g x st) (key x) = Some v' \<and> R x v v'"
    and "distinct (map key xs)" and "I st"
  shows "(\<forall>k. k \<notin> key ` set xs \<longrightarrow> look (fold g xs st) k = look st k) \<and>
    (\<forall>x \<in> set xs. \<forall>v. look st (key x) = Some v \<longrightarrow> (\<exists>v'. look (fold g xs st) (key x) = Some v' \<and> R x v v'))"
  using assms
proof (induction xs arbitrary: st)
  case (Cons y ys)
  have ky: "key y \<notin> key ` set ys" and d: "distinct (map key ys)" using Cons.prems(4) by auto
  have I: "I (g y st)" using Cons.prems(2,5) by simp
  have IH: "(\<forall>k. k \<notin> key ` set ys \<longrightarrow> look (fold g ys (g y st)) k = look (g y st) k) \<and>
    (\<forall>x \<in> set ys. \<forall>v. look (g y st) (key x) = Some v \<longrightarrow> (\<exists>v'. look (fold g ys (g y st)) (key x) = Some v' \<and> R x v v'))"
    using Cons.prems(1-3) d I by (intro Cons.IH) auto
  have "\<exists>v'. look (fold g (y # ys) st) (key x) = Some v' \<and> R x v v'"
    if x: "x \<in> set (y # ys)" and v: "look st (key x) = Some v" for x v
  proof (cases "x = y")
    case True
    then show ?thesis using Cons.prems(3) [OF Cons.prems(5), of y v] v IH ky by simp
  next
    case False
    then have "key x \<noteq> key y" using x ky by (auto simp: image_iff)
    then show ?thesis using IH Cons.prems(1) [OF Cons.prems(5), of y "key x"] v x False by simp
  qed
  moreover have "look (fold g (y # ys) st) k = look st k" if "k \<notin> key ` set (y # ys)" for k
    using IH Cons.prems(1) [OF Cons.prems(5), of y k] that by simp
  ultimately show ?case by blast
qed simp

lemma fold_distinct_keys:
  assumes "\<And>x st k. k \<noteq> key x \<Longrightarrow> look (g x st) k = look st k"
    and "\<And>x st v. x \<in> set xs \<Longrightarrow> look st (key x) = Some v \<Longrightarrow> \<exists>v'. look (g x st) (key x) = Some v' \<and> R x v v'"
    and "distinct (map key xs)"
  shows "(\<forall>k. k \<notin> key ` set xs \<longrightarrow> look (fold g xs st) k = look st k) \<and>
    (\<forall>x \<in> set xs. \<forall>v. look st (key x) = Some v \<longrightarrow> (\<exists>v'. look (fold g xs st) (key x) = Some v' \<and> R x v v'))"
  by (rule fold_distinct_keys_inv [where I = "\<lambda>_. True"]) (use assms in auto)

section \<open>Lists\<close>

lemma list_all2_in_set2: "list_all2 R xs ys \<Longrightarrow> y \<in> set ys \<Longrightarrow> \<exists>x \<in> set xs. R x y"
  by (metis in_set_conv_nth list_all2_conv_all_nth)

end
