(* ===== verification/Protocol.thy ===== *)
theory Protocol
  imports Prelude
begin

text \<open>
  The framed JSON protocol of \<open>src/src/ipc/protocol.{h,cpp}\<close>: a frame is a little-endian
  \<open>uint32\<close> length followed by that many bytes. The theory models the frame reader and
  writer, the string escaping and the three event encoders, states the stream interface of
  the codec as a locale, interprets it on the two functions, and proves the round trips:
  frames written are read back in order, a partial frame consumes nothing, every malformed
  header is reported.
\<close>

section \<open>Frames\<close>

definition kDefaultMaxFrameBytes :: nat where
  "kDefaultMaxFrameBytes = 1 * 1024 * 1024"

definition read_u32_le :: "byte list \<Rightarrow> u32" where
  "read_u32_le p =
     (ucast (p ! 0) :: u32) OR push_bit 8 (ucast (p ! 1)) OR
     push_bit 16 (ucast (p ! 2)) OR push_bit 24 (ucast (p ! 3))"

text \<open>
  \<open>try_read_frame\<close> returns a flag and writes three out-parameters. The result type has
  one constructor for each way it returns: \<open>NeedMore\<close> is \<open>false\<close> with \<open>err_msg\<close>
  untouched, \<open>FrameErr\<close> is \<open>false\<close> with \<open>err_msg\<close> set, \<open>Frame js rx\<close> is
  \<open>true\<close> with the payload and what is left of the buffer. In the first two cases the
  buffer is not changed.
\<close>

datatype frame_result = NeedMore | FrameErr string | Frame string "byte list"

definition try_read_frame :: "byte list \<Rightarrow> nat \<Rightarrow> frame_result" where
  "try_read_frame rx max_frame_bytes =
     (if length rx < 4 then NeedMore
      else let len = read_u32_le rx in
        if len = 0 then FrameErr ''invalid frame length 0''
        else if unat len > max_frame_bytes then FrameErr ''frame too large''
        else if length rx < 4 + unat len then NeedMore
        else Frame (map char_of_byte (take (unat len) (drop 4 rx))) (drop (4 + unat len) rx))"

definition frame_hdr :: "u32 \<Rightarrow> byte list" where
  "frame_hdr len =
     [ucast (len AND 0xFF), ucast (drop_bit 8 len AND 0xFF),
      ucast (drop_bit 16 len AND 0xFF), ucast (drop_bit 24 len AND 0xFF)]"

definition write_frame :: "byte list \<Rightarrow> string \<Rightarrow> byte list" where
  "write_frame tx json =
     (let len = (word_of_nat (length json) :: u32)
      in tx @ frame_hdr len @ map byte_of_char json)"

section \<open>Escaping and events\<close>

definition hex_char :: "nat \<Rightarrow> char" where
  "hex_char d = ''0123456789abcdef'' ! (d mod 16)"

definition escape_char :: "char \<Rightarrow> string" where
  "escape_char c =
     (if c = CHR 0x22 then [CHR 0x5C, CHR 0x22]
      else if c = CHR 0x5C then [CHR 0x5C, CHR 0x5C]
      else if c = CHR 0x0A then [CHR 0x5C, CHR ''n'']
      else if c = CHR 0x0D then [CHR 0x5C, CHR ''r'']
      else if c = CHR 0x09 then [CHR 0x5C, CHR ''t'']
      else if (of_char c :: nat) < 0x20
        then [CHR 0x5C, CHR ''u'', CHR ''0'', CHR ''0'',
              hex_char (of_char c div 16), hex_char (of_char c mod 16)]
      else [c])"

definition json_escape :: "string \<Rightarrow> string" where
  "json_escape s = concat (map escape_char s)"

definition dquote :: string where
  "dquote = [CHR 0x22]"

definition append_token_event :: "byte list \<Rightarrow> string \<Rightarrow> string \<Rightarrow> int \<Rightarrow> byte list" where
  "append_token_event tx rid txt token_id =
     write_frame tx
       (''{'' @ dquote @ ''id'' @ dquote @ '':'' @ dquote @ json_escape rid @ dquote @ '','' @
        dquote @ ''event'' @ dquote @ '':'' @ dquote @ ''token'' @ dquote @ '','' @
        dquote @ ''text'' @ dquote @ '':'' @ dquote @ json_escape txt @ dquote @ '','' @
        dquote @ ''token_id'' @ dquote @ '':'' @ string_of_int token_id @ ''}'')"

definition append_eos_event :: "byte list \<Rightarrow> string \<Rightarrow> string \<Rightarrow> byte list" where
  "append_eos_event tx rid reason =
     write_frame tx
       (''{'' @ dquote @ ''id'' @ dquote @ '':'' @ dquote @ json_escape rid @ dquote @ '','' @
        dquote @ ''event'' @ dquote @ '':'' @ dquote @ ''eos'' @ dquote @ '','' @
        dquote @ ''reason'' @ dquote @ '':'' @ dquote @ json_escape reason @ dquote @ ''}'')"

definition append_error_event :: "byte list \<Rightarrow> string \<Rightarrow> string \<Rightarrow> string \<Rightarrow> byte list" where
  "append_error_event tx rid code msg =
     write_frame tx
       (''{'' @ dquote @ ''id'' @ dquote @ '':'' @ dquote @ json_escape rid @ dquote @ '','' @
        dquote @ ''event'' @ dquote @ '':'' @ dquote @ ''error'' @ dquote @ '','' @
        dquote @ ''code'' @ dquote @ '':'' @ dquote @ json_escape code @ dquote @ '','' @
        dquote @ ''message'' @ dquote @ '':'' @ dquote @ json_escape msg @ dquote @ ''}'')"

section \<open>The header codec\<close>

lemma length_frame_hdr [simp]: "length (frame_hdr len) = 4"
  by (simp add: frame_hdr_def)

lemma and_0xFF_take_bit: "x AND 0xFF = take_bit 8 x" for x :: u32
  by (simp add: take_bit_eq_mask mask_eq_exp_minus_1)

lemma ucast_low_byte: "(ucast (ucast (x AND 0xFF) :: byte) :: u32) = take_bit 8 x" for x :: u32
  by (simp add: and_0xFF_take_bit unsigned_ucast_eq)

lemma read_u32_le_hdr [simp]: "read_u32_le (frame_hdr len @ rest) = len"
proof (rule bit_word_eqI)
  fix n assume "n < LENGTH(32)"
  then have n: "n < 32" by simp
  have eq: "read_u32_le (frame_hdr len @ rest) =
      take_bit 8 len OR push_bit 8 (take_bit 8 (drop_bit 8 len)) OR
      push_bit 16 (take_bit 8 (drop_bit 16 len)) OR push_bit 24 (take_bit 8 (drop_bit 24 len))"
    by (simp add: read_u32_le_def frame_hdr_def ucast_low_byte)
  consider "n < 8" | "8 \<le> n" "n < 16" | "16 \<le> n" "n < 24" | "24 \<le> n" by linarith
  then show "bit (read_u32_le (frame_hdr len @ rest)) n = bit len n"
    using n by cases (simp_all add: eq bit_or_iff bit_push_bit_iff bit_take_bit_iff bit_drop_bit_eq less_diff_conv2)
qed

lemma read_u32_le_bytes:
  assumes "n < 4" "4 \<le> length p"
  shows "ucast (drop_bit (8 * n) (read_u32_le p) AND 0xFF) = p ! n"
proof (rule bit_word_eqI)
  fix m assume "m < LENGTH(8)"
  then have m: "m < 8" by simp
  have far: "\<not> bit b k" if "8 \<le> k" for b :: byte and k
    using that bit_imp_le_length [of b k] by auto
  consider "n = 0" | "n = 1" | "n = 2" | "n = 3" using assms(1) by linarith
  then show "bit (ucast (drop_bit (8 * n) (read_u32_le p) AND 0xFF) :: byte) m = bit (p ! n) m"
    using m by cases
      (simp_all add: read_u32_le_def and_0xFF_take_bit bit_unsigned_iff bit_take_bit_iff bit_drop_bit_eq
        bit_or_iff bit_push_bit_iff far)
qed

lemma frame_hdr_read_u32_le:
  assumes "4 \<le> length p"
  shows "frame_hdr (read_u32_le p) = take 4 p"
proof (rule nth_equalityI)
  show "length (frame_hdr (read_u32_le p)) = length (take 4 p)" using assms by simp
next
  fix i assume "i < length (frame_hdr (read_u32_le p))"
  then have i: "i < 4" by simp
  then have "frame_hdr (read_u32_le p) ! i = ucast (drop_bit (8 * i) (read_u32_le p) AND 0xFF)"
    unfolding frame_hdr_def by (auto simp: less_Suc_eq numeral_eq_Suc)
  then show "frame_hdr (read_u32_le p) ! i = take 4 p ! i"
    using i assms by (simp only: read_u32_le_bytes nth_take)
qed

lemma write_frame_append: "write_frame tx js = tx @ write_frame [] js"
  by (simp add: write_frame_def Let_def)

lemma length_write_frame: "length (write_frame [] js) = 4 + length js"
  by (simp add: write_frame_def Let_def)

lemma unat_frame_len: "length js < 2 ^ 32 \<Longrightarrow> unat (word_of_nat (length js) :: u32) = length js"
  by (simp add: unat_of_nat)

section \<open>The stream interface\<close>

text \<open>
  What a client of the codec relies on: a message that was encoded is decoded, with what
  follows it untouched; a strict prefix of an encoded message decodes to nothing yet; decoding
  consumes input. \<open>drain\<close> is the reader the protocol prescribes: decode until the buffer
  holds no complete message.
\<close>

fun drain :: "('b list \<Rightarrow> ('m \<times> 'b list) option) \<Rightarrow> nat \<Rightarrow> 'b list \<Rightarrow> 'm list \<times> 'b list" where
  "drain dec 0 buf = ([], buf)"
| "drain dec (Suc n) buf =
     (case dec buf of
        None \<Rightarrow> ([], buf)
      | Some (m, rest) \<Rightarrow> (case drain dec n rest of (ms, left) \<Rightarrow> (m # ms, left)))"

fun feed :: "('b list \<Rightarrow> ('m \<times> 'b list) option) \<Rightarrow> 'b list \<Rightarrow> 'b list list \<Rightarrow> 'm list \<times> 'b list" where
  "feed dec buf [] = ([], buf)"
| "feed dec buf (chunk # chunks) =
     (case drain dec (length (buf @ chunk)) (buf @ chunk) of (ms, left) \<Rightarrow>
        (case feed dec left chunks of (ms', left') \<Rightarrow> (ms @ ms', left')))"

locale frame_codec =
  fixes enc :: "'m \<Rightarrow> 'b list"
    and dec :: "'b list \<Rightarrow> ('m \<times> 'b list) option"
    and ok :: "'m \<Rightarrow> bool"
  assumes dec_enc: "ok m \<Longrightarrow> dec (enc m @ rest) = Some (m, rest)"
    and dec_partial: "ok m \<Longrightarrow> strict_prefix p (enc m) \<Longrightarrow> dec p = None"
    and enc_nonempty: "ok m \<Longrightarrow> enc m \<noteq> []"
    and dec_Nil: "dec [] = None"
begin

lemma drain_frames:
  assumes "\<forall>m \<in> set ms. ok m" and "dec tail = None"
    and "length ms \<le> n"
  shows "drain dec n (concat (map enc ms) @ tail) = (ms, tail)"
  using assms
proof (induction ms arbitrary: n)
  case Nil
  then show ?case by (cases n) simp_all
next
  case (Cons m ms)
  from Cons.prems(3) obtain k where n: "n = Suc k" and "length ms \<le> k" by (cases n) auto
  with Cons have "drain dec k (concat (map enc ms) @ tail) = (ms, tail)" by simp
  then show ?case using Cons.prems by (simp add: n dec_enc)
qed

lemma length_frames_le:
  assumes "\<forall>m \<in> set ms. ok m"
  shows "length ms \<le> length (concat (map enc ms))"
  using assms
proof (induction ms)
  case (Cons m ms)
  then have "0 < length (enc m)" using enc_nonempty by simp
  then have "Suc 0 \<le> length (enc m)" by (simp only: Suc_le_eq)
  then show ?case using add_mono [of "Suc 0" "length (enc m)" "length ms"] Cons by simp
qed simp

lemma split_stream:
  assumes "\<forall>m \<in> set ms. ok m" and "concat (map enc ms) = p @ q"
  shows "\<exists>ms1 ms2 t. ms = ms1 @ ms2 \<and> p = concat (map enc ms1) @ t \<and>
           concat (map enc ms2) = t @ q \<and> dec t = None"
  using assms
proof (induction ms arbitrary: p)
  case Nil
  then show ?case using dec_Nil by auto
next
  case (Cons m ms)
  show ?case
  proof (cases "prefix (enc m) p")
    case True
    then obtain p' where p: "p = enc m @ p'" by (auto simp: prefix_def)
    with Cons.prems have "concat (map enc ms) = p' @ q" "\<forall>m \<in> set ms. ok m" by simp_all
    from Cons.IH [OF this(2,1)] obtain ms1 ms2 t where
      "ms = ms1 @ ms2" "p' = concat (map enc ms1) @ t" "concat (map enc ms2) = t @ q" "dec t = None"
      by blast
    then show ?thesis
      by (intro exI [of _ "m # ms1"] exI [of _ ms2] exI [of _ t]) (simp add: p)
  next
    case False
    have "prefix p (enc m) \<or> prefix (enc m) p"
      using Cons.prems(2) by (metis prefixI prefix_same_cases concat.simps(2) list.map(2))
    with False have "strict_prefix p (enc m)" by (auto simp: strict_prefix_def)
    then have "dec p = None" using Cons.prems(1) by (intro dec_partial [of m]) simp_all
    then show ?thesis using Cons.prems(2)
      by (intro exI [of _ "[]"] exI [of _ "m # ms"] exI [of _ p]) simp
  qed
qed

lemma feed_frames:
  assumes "\<forall>m \<in> set ms. ok m" and "concat (map enc ms) = buf @ concat chunks" and "dec buf = None"
  shows "feed dec buf chunks = (ms, [])"
  using assms
proof (induction chunks arbitrary: buf ms)
  case Nil
  from split_stream [OF Nil.prems(1), of buf "[]"] Nil.prems(2) obtain ms1 ms2 t where
    s: "ms = ms1 @ ms2" "buf = concat (map enc ms1) @ t" "concat (map enc ms2) = t @ []" "dec t = None"
    by auto
  from s(1) Nil.prems(1) have ok: "\<forall>m \<in> set ms1. ok m" "\<forall>m \<in> set ms2. ok m" by simp_all
  have "ms1 = []"
    using s(2) Nil.prems(3) dec_enc ok(1) by (cases ms1) auto
  moreover have "ms2 = []"
  proof (cases ms2)
    case (Cons m ms')
    then have "dec t = Some (m, concat (map enc ms'))" using s(3) ok(2) dec_enc by (metis append_Nil2 concat.simps(2) list.map(2) list.set_intros(1))
    then show ?thesis using s(4) by simp
  qed
  ultimately show ?case using s by simp
next
  case (Cons c cs)
  from split_stream [OF Cons.prems(1), of "buf @ c" "concat cs"] Cons.prems(2) obtain ms1 ms2 t where
    s: "ms = ms1 @ ms2" "buf @ c = concat (map enc ms1) @ t"
       "concat (map enc ms2) = t @ concat cs" "dec t = None"
    by auto
  from s(1) Cons.prems(1) have ok: "\<forall>m \<in> set ms1. ok m" "\<forall>m \<in> set ms2. ok m" by simp_all
  have "length ms1 \<le> length (buf @ c)"
    using length_frames_le [OF ok(1)] by (simp only: s(2) length_append)
  then have "drain dec (length (buf @ c)) (buf @ c) = (ms1, t)"
    unfolding s(2) by (intro drain_frames ok s(4))
  moreover have "feed dec t cs = (ms2, [])" by (rule Cons.IH [OF ok(2) s(3,4)])
  ultimately show ?case using s(1) by simp
qed

text \<open>A reader that has seen only part of the stream has decoded a prefix of its messages.\<close>

lemma feed_prefix:
  assumes "\<forall>m \<in> set ms. ok m" and "concat (map enc ms) = buf @ concat chunks @ q" and "dec buf = None"
  shows "\<exists>ms1 ms2 t. ms = ms1 @ ms2 \<and> feed dec buf chunks = (ms1, t)"
  using assms
proof (induction chunks arbitrary: buf ms)
  case (Cons c cs)
  from split_stream [OF Cons.prems(1), of "buf @ c" "concat cs @ q"] Cons.prems(2) obtain ms1 ms2 t where
    s: "ms = ms1 @ ms2" "buf @ c = concat (map enc ms1) @ t"
       "concat (map enc ms2) = t @ concat cs @ q" "dec t = None"
    by auto
  from s(1) Cons.prems(1) have ok: "\<forall>m \<in> set ms1. ok m" "\<forall>m \<in> set ms2. ok m" by simp_all
  have "length ms1 \<le> length (buf @ c)"
    using length_frames_le [OF ok(1)] by (simp only: s(2) length_append)
  then have "drain dec (length (buf @ c)) (buf @ c) = (ms1, t)"
    unfolding s(2) by (intro drain_frames ok s(4))
  moreover from Cons.IH [OF ok(2) s(3,4)] obtain ms3 ms4 t' where "ms2 = ms3 @ ms4" "feed dec t cs = (ms3, t')"
    by blast
  ultimately show ?case using s(1) by simp
qed simp

end

section \<open>The reader and writer implement the interface\<close>

definition decode_frame :: "nat \<Rightarrow> byte list \<Rightarrow> (string \<times> byte list) option" where
  "decode_frame cap rx = (case try_read_frame rx cap of Frame js rest \<Rightarrow> Some (js, rest) | _ \<Rightarrow> None)"

definition frame_ok :: "nat \<Rightarrow> string \<Rightarrow> bool" where
  "frame_ok cap js \<longleftrightarrow> js \<noteq> [] \<and> length js \<le> cap \<and> length js < 2 ^ 32"

lemma try_read_frame_write_frame:
  assumes "frame_ok cap js"
  shows "try_read_frame (write_frame [] js @ rest) cap = Frame js rest"
proof -
  from assms have len: "length js < 2 ^ 32" "js \<noteq> []" "length js \<le> cap" by (simp_all add: frame_ok_def)
  then have nz: "(word_of_nat (length js) :: u32) \<noteq> 0"
    by (metis length_0_conv unat_0 unat_frame_len)
  show ?thesis using len nz
    by (simp add: try_read_frame_def write_frame_def Let_def unat_frame_len)
qed

lemma try_read_frame_partial:
  assumes "frame_ok cap js" and "strict_prefix p (write_frame [] js)"
  shows "try_read_frame p cap = NeedMore"
proof (cases "length p < 4")
  case True
  then show ?thesis by (simp add: try_read_frame_def)
next
  case False
  obtain q where q: "write_frame [] js = p @ q" "q \<noteq> []"
    using assms(2) by (auto simp: strict_prefix_def prefix_def)
  from assms(1) have len: "length js < 2 ^ 32" "js \<noteq> []" "length js \<le> cap" by (simp_all add: frame_ok_def)
  have "take 4 (p @ q) = frame_hdr (word_of_nat (length js))"
    unfolding q(1) [symmetric] by (simp add: write_frame_def Let_def)
  then have "take 4 p = frame_hdr (word_of_nat (length js))" using False by simp
  then have "p = frame_hdr (word_of_nat (length js)) @ drop 4 p" by (metis append_take_drop_id)
  then have hdr: "read_u32_le p = word_of_nat (length js)" by (metis read_u32_le_hdr)
  have "length p < 4 + length js"
    using arg_cong [OF q(1), of length] q(2) length_write_frame [of js] by (cases q) simp_all
  moreover have "(word_of_nat (length js) :: u32) \<noteq> 0"
    using len by (metis length_0_conv unat_0 unat_frame_len)
  ultimately show ?thesis using len False
    by (simp add: try_read_frame_def hdr unat_frame_len)
qed

interpretation wire: frame_codec "write_frame []" "decode_frame cap" "frame_ok cap" for cap
proof unfold_locales
  show "frame_ok cap m \<Longrightarrow> decode_frame cap (write_frame [] m @ rest) = Some (m, rest)" for m rest
    by (simp add: decode_frame_def try_read_frame_write_frame)
  show "frame_ok cap m \<Longrightarrow> strict_prefix p (write_frame [] m) \<Longrightarrow> decode_frame cap p = None" for m p
    by (simp add: decode_frame_def try_read_frame_partial)
  show "frame_ok cap m \<Longrightarrow> write_frame [] m \<noteq> []" for m
    using length_write_frame [of m] by auto
  show "decode_frame cap [] = None"
    by (simp add: decode_frame_def try_read_frame_def)
qed

section \<open>Correctness of the frame reader\<close>

lemma try_read_frame_sound:
  assumes "try_read_frame rx cap = Frame js rest"
  shows "rx = write_frame [] js @ rest \<and> frame_ok cap js"
proof -
  define len where "len = read_u32_le rx"
  from assms have c: "4 \<le> length rx" "len \<noteq> 0" "unat len \<le> cap" "4 + unat len \<le> length rx"
    and js: "js = map char_of_byte (take (unat len) (drop 4 rx))" and rest: "rest = drop (4 + unat len) rx"
    unfolding try_read_frame_def len_def Let_def by (auto split: if_splits)
  have bound: "unat len < 2 ^ 32" using unsigned_less [of len, where ?'a = nat] by simp
  have ljs: "length js = unat len" using c(4) by (simp add: js)
  then have wl: "(word_of_nat (length js) :: u32) = len" by simp
  have "unat len \<noteq> 0" using c(2) by (simp add: unat_eq_zero)
  then have ok: "frame_ok cap js" using ljs c(3) bound by (auto simp: frame_ok_def)
  have bytes: "map byte_of_char js = take (unat len) (drop 4 rx)" by (simp add: js)
  have "write_frame [] js @ rest = take 4 rx @ take (unat len) (drop 4 rx) @ drop (4 + unat len) rx"
    using frame_hdr_read_u32_le [OF c(1)]
    unfolding write_frame_def Let_def wl bytes rest by (simp add: len_def)
  moreover have "\<dots> = rx" by (metis add.commute append_take_drop_id drop_drop)
  ultimately show ?thesis using ok by simp
qed

section \<open>Queues of frames\<close>

text \<open>\<open>framed b b'\<close>: the queue \<open>b'\<close> is \<open>b\<close> with whole frames appended.\<close>

definition frames :: "string list \<Rightarrow> byte list" where
  "frames ps = concat (map (write_frame []) ps)"

definition framed :: "byte list \<Rightarrow> byte list \<Rightarrow> bool" where
  "framed b b' \<longleftrightarrow> (\<exists>ps. b' = b @ frames ps)"

lemma frames_append: "frames (ps @ qs) = frames ps @ frames qs"
  by (simp add: frames_def)

lemma framed_refl [simp]: "framed b b"
  unfolding framed_def by (rule exI [of _ "[]"]) (simp add: frames_def)

lemma framed_trans: "framed a b \<Longrightarrow> framed b c \<Longrightarrow> framed a c"
  unfolding framed_def by (metis append.assoc frames_append)

lemma framed_write: "framed b (write_frame b js)"
  unfolding framed_def by (rule exI [of _ "[js]"]) (simp add: frames_def write_frame_append [of b])

lemma framed_events [simp]:
  "framed b (append_token_event b i t k)" "framed b (append_eos_event b i r)" "framed b (append_error_event b i c m)"
  by (simp_all add: append_token_event_def append_eos_event_def append_error_event_def framed_write)

lemma framed_extends: "framed b b' \<Longrightarrow> \<exists>fr. b' = b @ fr"
  unfolding framed_def by blast

text \<open>
  C11. Whatever way the bytes of a sequence of frames are cut into reads, even in the middle of a
  header, a reader that decodes after every read obtains exactly the payloads that were written,
  in order, and is left with an empty buffer.
\<close>

theorem frames_survive_chunking:
  assumes "\<forall>js \<in> set msgs. frame_ok cap js"
    and "concat chunks = concat (map (write_frame []) msgs)"
  shows "feed (decode_frame cap) [] chunks = (msgs, [])"
  using wire.feed_frames [of msgs cap "[]" chunks] assms wire.dec_Nil by simp

theorem frames_survive_chunking_witness:
  "feed (decode_frame 100) [] [[2], [0, 0, 0, 104], [105, 1], [0], [0, 0, 33]] = ([''hi'', ''!''], [])"
proof (rule frames_survive_chunking)
  show "\<forall>js \<in> set [''hi'', ''!'']. frame_ok 100 js" by (simp add: frame_ok_def)
  show "concat [[2], [0, 0, 0, 104], [105, 1], [0], [0, 0, 33]] = concat (map (write_frame []) [''hi'', ''!''])"
    by (simp add: write_frame_def frame_hdr_def byte_of_char_def)
qed

text \<open>
  C22. The reader classifies every buffer. It delivers a payload exactly when the buffer starts
  with that payload's frame, of a length from 1 to the limit, and then removes exactly that frame;
  it reports an error exactly when a complete header announces length 0 or more than the limit;
  otherwise it asks for more bytes and the header, if complete, is a legal one not yet followed
  by all of its payload.
\<close>

theorem try_read_frame_classifies:
  "case try_read_frame rx cap of
     Frame js rest \<Rightarrow> rx = write_frame [] js @ rest \<and> frame_ok cap js
   | FrameErr e \<Rightarrow> 4 \<le> length rx \<and>
       (if read_u32_le rx = 0 then e = ''invalid frame length 0''
        else cap < unat (read_u32_le rx) \<and> e = ''frame too large'')
   | NeedMore \<Rightarrow> length rx < 4 \<or>
       (0 < unat (read_u32_le rx) \<and> unat (read_u32_le rx) \<le> cap \<and> length rx < 4 + unat (read_u32_le rx))"
proof (cases "try_read_frame rx cap")
  case (Frame js rest)
  then show ?thesis using try_read_frame_sound by simp
next
  case NeedMore
  then show ?thesis by (auto simp: try_read_frame_def Let_def unat_gt_0 split: if_splits)
next
  case (FrameErr e)
  then show ?thesis by (auto simp: try_read_frame_def Let_def split: if_splits)
qed

end
