(* ===== verification/Json_Fields.thy ===== *)
theory Json_Fields
  imports Protocol
begin

text \<open>
  The field extractors that stand in for a JSON parser: the lambda
  \<open>extract_json_string\<close> of \<open>SessionManager::on_readable\<close>
  (\<open>src/src/ipc/session_manager.cpp\<close>) and \<open>json_get_string\<close> of the command-line
  client (\<open>src/src/cli/main.cpp\<close>). Both search for the quoted key, then the next colon,
  then the next quote, and read a string body from there. The theory proves that the body
  reader inverts \<open>json_escape\<close> and a lookup lemma for objects whose other fields may
  hold the key as text.
\<close>

section \<open>The server's extractor\<close>

definition is_hex :: "char \<Rightarrow> bool" where
  "is_hex c \<longleftrightarrow>
     (let n = (of_char c :: nat) in
        (0x30 \<le> n \<and> n \<le> 0x39) \<or> (0x61 \<le> n \<and> n \<le> 0x66) \<or> (0x41 \<le> n \<and> n \<le> 0x46))"

definition push_char :: "char \<Rightarrow> string \<times> bool \<Rightarrow> string \<times> bool" where
  "push_char c r = (c # fst r, snd r)"

text \<open>
  The loop that reads the string body. It returns what was collected and the
  \<open>invalid_escape\<close> flag; an unterminated string ends the loop with the flag unset.
\<close>

fun json_str_body :: "string \<Rightarrow> string \<times> bool" where
  "json_str_body [] = ([], False)"
| "json_str_body (c # rest) =
     (if c = CHR 0x5C then
        (case rest of
           [] \<Rightarrow> ([], True)
         | e # rest' \<Rightarrow>
             if e = CHR 0x22 then push_char (CHR 0x22) (json_str_body rest')
             else if e = CHR 0x5C then push_char (CHR 0x5C) (json_str_body rest')
             else if e = CHR ''/'' then push_char (CHR ''/'') (json_str_body rest')
             else if e = CHR ''b'' then push_char (CHR 0x08) (json_str_body rest')
             else if e = CHR ''f'' then push_char (CHR 0x0C) (json_str_body rest')
             else if e = CHR ''n'' then push_char (CHR 0x0A) (json_str_body rest')
             else if e = CHR ''r'' then push_char (CHR 0x0D) (json_str_body rest')
             else if e = CHR ''t'' then push_char (CHR 0x09) (json_str_body rest')
             else if e = CHR ''u'' then
               (if length rest' < 4 \<or> \<not> list_all is_hex (take 4 rest') then ([], True)
                else push_char (CHR ''?'') (json_str_body (drop 4 rest')))
             else ([], True))
      else if c = CHR 0x22 then ([], False)
      else if (of_char c :: nat) < 0x20 then ([], True)
      else push_char c (json_str_body rest))"

definition value_text :: "string \<Rightarrow> string \<Rightarrow> string option" where
  "value_text j key =
     (case str_find j (dquote @ key @ dquote) 0 of
        None \<Rightarrow> None
      | Some kpos \<Rightarrow>
          (case str_find j '':'' kpos of
             None \<Rightarrow> None
           | Some colon \<Rightarrow>
               (case str_find j dquote colon of
                  None \<Rightarrow> None
                | Some q1 \<Rightarrow> Some (drop (q1 + 1) j))))"

definition extract_json_string :: "string \<Rightarrow> string \<Rightarrow> string \<times> bool" where
  "extract_json_string j key =
     (case value_text j key of None \<Rightarrow> ([], False) | Some body \<Rightarrow> json_str_body body)"

section \<open>The client's extractor\<close>

fun json_get_body :: "string \<Rightarrow> string" where
  "json_get_body [] = []"
| "json_get_body (c # rest) =
     (if c = CHR 0x5C then
        (case rest of
           [] \<Rightarrow> []
         | e # rest' \<Rightarrow>
             (if e = CHR 0x22 then CHR 0x22
              else if e = CHR 0x5C then CHR 0x5C
              else if e = CHR ''n'' then CHR 0x0A
              else if e = CHR ''r'' then CHR 0x0D
              else if e = CHR ''t'' then CHR 0x09
              else e) # json_get_body rest')
      else if c = CHR 0x22 then []
      else c # json_get_body rest)"

definition json_get_string :: "string \<Rightarrow> string \<Rightarrow> string" where
  "json_get_string j key = (case value_text j key of None \<Rightarrow> [] | Some body \<Rightarrow> json_get_body body)"

section \<open>Bodies invert escaping\<close>

text \<open>
  Control characters other than newline, return and tab are escaped as \<open>\u00XX\<close>, which
  the server replaces by a question mark; every other character survives.
\<close>

definition is_ctrl :: "char \<Rightarrow> bool" where
  "is_ctrl c \<longleftrightarrow> (of_char c :: nat) < 0x20 \<and> c \<notin> {CHR 0x0A, CHR 0x0D, CHR 0x09}"

definition server_view :: "char \<Rightarrow> char" where
  "server_view c = (if is_ctrl c then CHR ''?'' else c)"

lemma is_hex_hex_char: "is_hex (hex_char d)"
proof -
  have "hex_char d \<in> set ''0123456789abcdef''"
    unfolding hex_char_def by (rule nth_mem) simp
  then show ?thesis by (auto simp: is_hex_def)
qed

lemma escape_char_cases:
  "(c = CHR 0x22 \<and> escape_char c = [CHR 0x5C, CHR 0x22]) \<or>
   (c = CHR 0x5C \<and> escape_char c = [CHR 0x5C, CHR 0x5C]) \<or>
   (c = CHR 0x0A \<and> escape_char c = [CHR 0x5C, CHR ''n'']) \<or>
   (c = CHR 0x0D \<and> escape_char c = [CHR 0x5C, CHR ''r'']) \<or>
   (c = CHR 0x09 \<and> escape_char c = [CHR 0x5C, CHR ''t'']) \<or>
   (is_ctrl c \<and> (\<exists>h l. escape_char c =
      [CHR 0x5C, CHR ''u'', CHR ''0'', CHR ''0'', hex_char h, hex_char l])) \<or>
   (\<not> (of_char c :: nat) < 0x20 \<and> c \<noteq> CHR 0x22 \<and> c \<noteq> CHR 0x5C \<and> escape_char c = [c])"
  by (auto simp: escape_char_def is_ctrl_def)

lemma json_str_body_escape_char:
  "json_str_body (escape_char c @ rest) = push_char (server_view c) (json_str_body rest)"
  using escape_char_cases [of c]
  by (elim disjE conjE exE)
    (simp_all add: server_view_def is_ctrl_def is_hex_hex_char is_hex_def [of "CHR ''0''"])

lemma json_str_body_escape [text_simps]:
  "json_str_body (json_escape s @ CHR 0x22 # rest) = (map server_view s, False)"
proof (induction s)
  case Nil
  show ?case by (simp add: json_escape_def)
next
  case (Cons c s)
  then show ?case
    using json_str_body_escape_char [of c "json_escape s @ CHR 0x22 # rest"]
    by (simp add: json_escape_def push_char_def)
qed

lemma server_view_id: "\<not> list_ex is_ctrl s \<Longrightarrow> map server_view s = s"
  by (induction s) (auto simp: server_view_def)

section \<open>Looking a key up\<close>

text \<open>
  The search for \<open>"key"\<close> may hit text of an earlier field. If no occurrence lies wholly
  in \<open>X\<close> and no colon occurs in \<open>Y\<close>, the colon the extractor stops at is the one
  after \<open>X @ Y\<close>, wherever the key was found.
\<close>

lemma drop_colon_free:
  assumes "prefix pat (drop k (X @ Y))" and "length X < k + length pat"
    and "c \<notin> set pat" and "c \<notin> set Y"
  shows "c \<notin> set (drop k (X @ Y))"
proof -
  from assms(1) obtain r where r: "drop k (X @ Y) = pat @ r" by (auto simp: prefix_def)
  then have "r = drop (k + length pat) (X @ Y)"
    by (metis add.commute append_eq_conv_conj drop_drop)
  also have "\<dots> = drop (k + length pat - length X) Y" using assms(2) by simp
  finally have "set r \<subseteq> set Y" by (simp add: set_drop_subset)
  then show ?thesis using assms(3,4) r by auto
qed

lemma find_sub_spanning:
  assumes "\<not> sublist pat X" and "sublist pat (X @ Y)"
  shows "\<exists>k. find_sub pat (X @ Y @ Z) = Some k \<and> k \<le> length (X @ Y) \<and>
           prefix pat (drop k (X @ Y)) \<and> length X < k + length pat"
proof -
  from assms(2) obtain ps ss where ps: "X @ Y = ps @ pat @ ss" by (auto simp: sublist_def)
  have occ: "prefix pat (drop (length ps) (X @ Y @ Z))"
  proof -
    have "X @ Y @ Z = ps @ pat @ ss @ Z" using ps by (metis append.assoc)
    then have "drop (length ps) (X @ Y @ Z) = pat @ ss @ Z" by (metis append_eq_conv_conj)
    then show ?thesis by (simp only: prefix_def) blast
  qed
  obtain k where k: "find_sub pat (X @ Y @ Z) = Some k"
  proof (cases "find_sub pat (X @ Y @ Z)")
    case None
    then have "\<forall>i \<le> length (X @ Y @ Z). \<not> prefix pat (drop i (X @ Y @ Z))"
      by (simp only: find_sub_None_iff simp_thms)
    moreover have "length ps \<le> length (X @ Y @ Z)" using arg_cong [OF ps, of length] by simp
    ultimately show ?thesis using occ by blast
  qed
  from k have here: "prefix pat (drop k (X @ Y @ Z))"
    and "\<forall>i < k. \<not> prefix pat (drop i (X @ Y @ Z))"
    unfolding find_sub_Some_iff by blast+
  then have "k \<le> length ps" using occ not_less by blast
  moreover have "length ps + length pat \<le> length (X @ Y)" using ps by simp
  ultimately have kl: "k + length pat \<le> length (X @ Y)" by linarith
  then have inside: "prefix pat (drop k (X @ Y))"
    using here prefix_drop_inside [of k pat "X @ Y" Z] by simp
  have "length X < k + length pat"
  proof (rule ccontr)
    assume "\<not> length X < k + length pat"
    then have "k + length pat \<le> length X" by simp
    moreover from inside have "take (length pat) (drop k (X @ Y)) = pat" by (simp only: prefix_iff_take)
    ultimately have "take (length pat) (drop k X) = pat" by simp
    then have "X = take k X @ pat @ drop (length pat) (drop k X)" by (metis append_take_drop_id)
    then show False using assms(1) by (metis sublist_def)
  qed
  then show ?thesis using k kl inside by auto
qed

lemma value_text_at_colon:
  assumes "\<not> sublist (dquote @ key @ dquote) X" and "sublist (dquote @ key @ dquote) (X @ Y)"
    and "CHR '':'' \<notin> set key" and "CHR '':'' \<notin> set Y"
  shows "value_text (X @ Y @ '':'' @ Z) key = map_option (\<lambda>q. drop (q + 1) Z) (find_sub dquote Z)"
proof -
  let ?pat = "dquote @ key @ dquote"
  from find_sub_spanning [OF assms(1,2), of "'':'' @ Z"] obtain k where
    k: "find_sub ?pat (X @ Y @ '':'' @ Z) = Some k" "k \<le> length (X @ Y)"
       "prefix ?pat (drop k (X @ Y))" "length X < k + length ?pat" by blast
  have "CHR '':'' \<notin> set ?pat" using assms(3) by (simp add: dquote_def)
  then have free: "CHR '':'' \<notin> set (drop k (X @ Y))"
    using drop_colon_free [OF k(3,4) _ assms(4)] by blast
  have "drop k (X @ Y @ '':'' @ Z) = drop k (X @ Y) @ CHR '':'' # Z" using k(2) by simp
  then have "find_sub '':'' (drop k (X @ Y @ '':'' @ Z)) = Some (length (drop k (X @ Y)))"
    using find_sub_char_skip [OF free] by simp
  then have colon: "str_find (X @ Y @ '':'' @ Z) '':'' k = Some (length (X @ Y))"
    using k(2) by (simp add: str_find_def)
  have "str_find (X @ Y @ '':'' @ Z) dquote (length (X @ Y)) =
      map_option (\<lambda>q. length (X @ Y) + 1 + q) (find_sub dquote Z)"
    by (cases "find_sub dquote Z") (simp_all add: str_find_def dquote_def)
  then show ?thesis
    unfolding value_text_def using k(1) colon
    by (cases "find_sub dquote Z") (simp_all add: str_find_def)
qed

lemma value_text_spanning:
  assumes "\<not> sublist (dquote @ key @ dquote) X" and "sublist (dquote @ key @ dquote) (X @ Y)"
    and "CHR '':'' \<notin> set key" and "CHR '':'' \<notin> set Y"
  shows "value_text (X @ Y @ '':'' @ dquote @ body) key = Some body"
  using value_text_at_colon [OF assms, of "dquote @ body"] by (simp add: dquote_def)

lemma value_text_absent:
  assumes "\<not> sublist (dquote @ key @ dquote) j"
  shows "value_text j key = None"
proof -
  have "find_sub (dquote @ key @ dquote) j = None"
    unfolding find_sub_None_iff using assms by (metis prefix_imp_sublist sublist_order.order_trans sublist_drop)
  then show ?thesis by (simp add: value_text_def str_find_def)
qed

text \<open>Where every quote follows one of the characters \<open>S\<close>, no key can end outside \<open>S\<close>.\<close>

fun quotes_follow :: "char set \<Rightarrow> char \<Rightarrow> string \<Rightarrow> bool" where
  "quotes_follow S prev [] = True"
| "quotes_follow S prev (c # cs) = ((c = CHR 0x22 \<longrightarrow> prev \<in> S) \<and> quotes_follow S c cs)"

lemma quotes_follow_append [text_simps]:
  "quotes_follow S p (xs @ ys) \<longleftrightarrow> quotes_follow S p xs \<and> quotes_follow S (last (p # xs)) ys"
  by (induction xs arbitrary: p) (simp_all split: if_splits)

lemma quotes_follow_escape_char:
  "CHR 0x5C \<in> S \<Longrightarrow> quotes_follow S p (escape_char c)"
proof -
  assume S: "CHR 0x5C \<in> S"
  have hex: "hex_char h \<noteq> CHR 0x22" for h
    using is_hex_hex_char [of h] by (auto simp: is_hex_def)
  show ?thesis using escape_char_cases [of c] S hex by (elim disjE conjE exE) simp_all
qed

lemma quotes_follow_escape [text_simps]:
  "CHR 0x5C \<in> S \<Longrightarrow> quotes_follow S p (json_escape s)"
  by (induction s arbitrary: p)
    (simp_all add: json_escape_def quotes_follow_append quotes_follow_escape_char)

section \<open>Where a key can hide\<close>

text \<open>
  A quoted key can only end at a quote. Growing a text by pieces therefore never creates one
  unless a quote is put right after the key: at the end of a string value that is the key, or
  that ends in an escaped quote followed by the key.
\<close>

lemma no_key_quote:
  assumes "\<not> sublist (dquote @ key @ dquote) X" and "\<not> suffix (dquote @ key) X"
  shows "\<not> sublist (dquote @ key @ dquote) (X @ dquote)"
  using assms snoc_sublist_snoc [of "dquote @ key" "CHR 0x22" X "CHR 0x22"] by (simp add: dquote_def)

lemma no_key_follow:
  assumes "\<not> sublist (dquote @ key @ dquote) X" and "quotes_follow S (last X) Y" and "X \<noteq> []"
    and "key \<noteq> []" and "last key \<notin> S"
  shows "\<not> sublist (dquote @ key @ dquote) (X @ Y)"
  using assms(2)
proof (induction Y rule: rev_induct)
  case (snoc c Y)
  then have IH: "\<not> sublist (dquote @ key @ dquote) (X @ Y)"
    and c: "c = CHR 0x22 \<Longrightarrow> last (X @ Y) \<in> S"
    using assms(3) by (auto simp: quotes_follow_append split: if_splits)
  have "\<not> suffix (dquote @ key) (X @ Y)" if "c = CHR 0x22"
  proof
    assume "suffix (dquote @ key) (X @ Y)"
    then have "last (X @ Y) = last key" using assms(4) by (auto simp: suffix_def)
    then show False using c [OF that] assms(5) by simp
  qed
  then show ?case
    using IH snoc_sublist_snoc [of "dquote @ key" "CHR 0x22" "X @ Y" c] by (auto simp: dquote_def)
qed (use assms(1) in simp)

lemma quotes_follow_plain [text_simps]: "CHR 0x22 \<notin> set Y \<Longrightarrow> quotes_follow S p Y"
  by (induction Y arbitrary: p) auto

lemma escape_quote_split:
  "json_escape s = U @ CHR 0x22 # V \<Longrightarrow> \<exists>r1 r2. s = r1 @ CHR 0x22 # r2 \<and> V = json_escape r2"
proof (induction s arbitrary: U)
  case Nil
  then show ?case by (simp add: json_escape_def)
next
  case (Cons c s)
  have split: "escape_char c @ json_escape s = U @ CHR 0x22 # V"
    using Cons.prems by (simp add: json_escape_def)
  have hex: "hex_char h \<noteq> CHR 0x22" for h using is_hex_hex_char [of h] by (auto simp: is_hex_def)
  have later: ?case if "json_escape s = W @ CHR 0x22 # V" for W
  proof -
    from Cons.IH [OF that] obtain r1 r2 where "s = r1 @ CHR 0x22 # r2" "V = json_escape r2" by blast
    then show ?thesis by (intro exI [of _ "c # r1"] exI [of _ r2]) simp
  qed
  consider W where "json_escape s = W @ CHR 0x22 # V"
    | W where "escape_char c = U @ CHR 0x22 # W" "V = W @ json_escape s"
    using split by (auto simp: append_eq_append_conv2 append_eq_Cons_conv)
  then show ?case
  proof cases
    case 1
    then show ?thesis by (rule later)
  next
    case 2
    then have "c = CHR 0x22 \<and> W = []"
      using escape_char_cases [of c] hex hex [symmetric] by (auto simp: append_eq_Cons_conv Cons_eq_append_conv)
    then show ?thesis using 2(2) by (intro exI [of _ "[]"] exI [of _ s]) simp
  qed
qed

lemma escape_plain: "CHR 0x5C \<notin> set (json_escape s) \<Longrightarrow> json_escape s = s"
proof (induction s)
  case (Cons c s)
  then have "CHR 0x5C \<notin> set (escape_char c)" "json_escape s = s" by (simp_all add: json_escape_def)
  then show ?case using escape_char_cases [of c] by (auto simp: json_escape_def)
qed (simp add: json_escape_def)

lemma suffix_escape:
  assumes "suffix (dquote @ key) (P @ dquote @ json_escape s)"
    and "CHR 0x22 \<notin> set key" and "CHR 0x5C \<notin> set key"
  shows "suffix (dquote @ key) (dquote @ s)"
proof -
  obtain Q where Q: "P @ dquote @ json_escape s = Q @ dquote @ key" using assms(1) by (auto simp: suffix_def)
  consider "json_escape s = key" | W where "json_escape s = W @ CHR 0x22 # key"
    using Q assms(2) by (auto simp: dquote_def append_eq_append_conv2 append_eq_Cons_conv Cons_eq_append_conv)
  then show ?thesis
  proof cases
    case 1
    then have "s = key" using escape_plain [of s] assms(3) by simp
    then show ?thesis by simp
  next
    case 2
    then obtain r1 r2 where r: "s = r1 @ CHR 0x22 # r2" "key = json_escape r2" using escape_quote_split by blast
    then have "r2 = key" using escape_plain [of r2] assms(3) by simp
    then have "dquote @ s = (CHR 0x22 # r1) @ dquote @ key" by (simp add: r(1) dquote_def)
    then show ?thesis by (metis suffixI)
  qed
qed

end
