(* ===== verification/Floats.thy ===== *)
theory Floats
  imports Complex_Main Prelude "HOL-Library.Log_Nat"
begin

text \<open>
  The \<open>float\<close> and \<open>double\<close> arithmetic of the sources: a finite value is a rational
  number, each operation is the exact operation followed by rounding to the format (round to
  nearest, ties to even, gradual underflow, overflow to infinity). Zeros carry no sign: no
  source expression divides by a value that can be a negative zero, and no zero is printed with
  its sign. Each operation is rounded on its own (no fused multiply-add). Conversions to
  integer types truncate; a value out of range is undefined behaviour in C++, and the
  platform's answer is a parameter.
\<close>

datatype fl = NaN | PInf | NInf | Fin rat

record fmt =
  prec :: int
  emin :: int
  emax :: nat

definition f64 :: fmt where
  "f64 = \<lparr>prec = 53, emin = - 1074, emax = 1024\<rparr>"

definition f32 :: fmt where
  "f32 = \<lparr>prec = 24, emin = - 149, emax = 128\<rparr>"

section \<open>Rounding\<close>

definition ilog2 :: "rat \<Rightarrow> int" where
  "ilog2 x =
     (case quotient_of x of (n, d) \<Rightarrow>
        let k = bitlen n - bitlen d in if 2 powi k \<le> x then k else k - 1)"

definition round_half_even :: "rat \<Rightarrow> int" where
  "round_half_even r =
     (let n = \<lfloor>r\<rfloor>; d = r - of_int n in
        if d < 1 / 2 then n else if 1 / 2 < d then n + 1 else if even n then n else n + 1)"

definition quantum :: "fmt \<Rightarrow> rat \<Rightarrow> int" where
  "quantum F x = max (ilog2 \<bar>x\<bar> - (prec F - 1)) (emin F)"

definition to_grid :: "fmt \<Rightarrow> rat \<Rightarrow> rat" where
  "to_grid F x =
     (if x = 0 then 0
      else let e = quantum F x in of_int (round_half_even (x / 2 powi e)) * 2 powi e)"

definition fround :: "fmt \<Rightarrow> rat \<Rightarrow> fl" where
  "fround F x =
     (let y = to_grid F x in
        if 2 ^ emax F \<le> y then PInf else if y \<le> - (2 ^ emax F) then NInf else Fin y)"

section \<open>Operations\<close>

fun fadd :: "fmt \<Rightarrow> fl \<Rightarrow> fl \<Rightarrow> fl" where
  "fadd F (Fin a) (Fin b) = fround F (a + b)"
| "fadd F NaN b = NaN"
| "fadd F a NaN = NaN"
| "fadd F PInf NInf = NaN"
| "fadd F NInf PInf = NaN"
| "fadd F PInf b = PInf"
| "fadd F a PInf = PInf"
| "fadd F NInf b = NInf"
| "fadd F a NInf = NInf"

fun fneg :: "fl \<Rightarrow> fl" where
  "fneg NaN = NaN"
| "fneg PInf = NInf"
| "fneg NInf = PInf"
| "fneg (Fin a) = Fin (- a)"

definition fsub :: "fmt \<Rightarrow> fl \<Rightarrow> fl \<Rightarrow> fl" where
  "fsub F a b = fadd F a (fneg b)"

definition inf_of_sign :: "rat \<Rightarrow> fl" where
  "inf_of_sign s = (if s = 0 then NaN else if 0 < s then PInf else NInf)"

fun fsign :: "fl \<Rightarrow> rat" where
  "fsign NaN = 0"
| "fsign PInf = 1"
| "fsign NInf = - 1"
| "fsign (Fin a) = sgn a"

fun fmul :: "fmt \<Rightarrow> fl \<Rightarrow> fl \<Rightarrow> fl" where
  "fmul F (Fin a) (Fin b) = fround F (a * b)"
| "fmul F a b = (if a = NaN \<or> b = NaN then NaN else inf_of_sign (fsign a * fsign b))"

fun fdiv :: "fmt \<Rightarrow> fl \<Rightarrow> fl \<Rightarrow> fl" where
  "fdiv F (Fin a) (Fin b) = (if b = 0 then inf_of_sign (sgn a) else fround F (a / b))"
| "fdiv F (Fin a) b = (if b = NaN then NaN else Fin 0)"
| "fdiv F a (Fin b) = (if a = NaN then NaN else inf_of_sign (fsign a * (if b = 0 then 1 else sgn b)))"
| "fdiv F a b = NaN"

fun fless :: "fl \<Rightarrow> fl \<Rightarrow> bool" where
  "fless (Fin a) (Fin b) = (a < b)"
| "fless NaN b = False"
| "fless a NaN = False"
| "fless NInf b = (b \<noteq> NInf)"
| "fless a PInf = (a \<noteq> PInf)"
| "fless a b = False"

definition fle :: "fl \<Rightarrow> fl \<Rightarrow> bool" where
  "fle a b \<longleftrightarrow> fless a b \<or> (a = b \<and> a \<noteq> NaN)"

definition is_finite :: "fl \<Rightarrow> bool" where
  "is_finite a \<longleftrightarrow> (case a of Fin _ \<Rightarrow> True | _ \<Rightarrow> False)"

text \<open>\<open>std::max(a, b)\<close> and \<open>std::min(a, b)\<close> on floating-point values.\<close>

definition fmax :: "fl \<Rightarrow> fl \<Rightarrow> fl" where
  "fmax a b = (if fless a b then b else a)"

definition fmin :: "fl \<Rightarrow> fl \<Rightarrow> fl" where
  "fmin a b = (if fless b a then b else a)"

text \<open>Conversion between formats, from integers, from decimal literals.\<close>

definition fcvt :: "fmt \<Rightarrow> fl \<Rightarrow> fl" where
  "fcvt F a = (case a of Fin r \<Rightarrow> fround F r | _ \<Rightarrow> a)"

definition of_integer :: "fmt \<Rightarrow> int \<Rightarrow> fl" where
  "of_integer F n = fround F (of_int n)"

text \<open>
  What the platform supplies: the value of an out-of-range conversion to an integer, and the
  library's single-precision exponential.
\<close>

record platform =
  oob :: "fl \<Rightarrow> int"
  expf :: "fl \<Rightarrow> fl"

definition trunc_rat :: "rat \<Rightarrow> int" where
  "trunc_rat r = (if 0 \<le> r then \<lfloor>r\<rfloor> else - \<lfloor>- r\<rfloor>)"

definition cast_int :: "platform \<Rightarrow> int \<Rightarrow> int \<Rightarrow> fl \<Rightarrow> int" where
  "cast_int P lo hi a =
     (case a of
        Fin r \<Rightarrow> (let t = trunc_rat r in if lo \<le> t \<and> t \<le> hi then t else oob P a)
      | _ \<Rightarrow> oob P a)"

definition cast_i32 :: "platform \<Rightarrow> fl \<Rightarrow> int" where
  "cast_i32 P a = cast_int P (- 2147483648) 2147483647 a"

definition cast_u32 :: "platform \<Rightarrow> fl \<Rightarrow> u32" where
  "cast_u32 P a = word_of_int (cast_int P 0 4294967295 a)"

definition cast_u64 :: "platform \<Rightarrow> fl \<Rightarrow> u64" where
  "cast_u64 P a = word_of_int (cast_int P 0 18446744073709551615 a)"

section \<open>Laws of rounding\<close>

lemma ilog2_bounds:
  assumes "0 < x"
  shows "2 powi ilog2 x \<le> x \<and> x < 2 powi (ilog2 x + 1)"
proof -
  obtain n d where q: "quotient_of x = (n, d)" by fastforce
  then have d: "0 < d" and x: "x = of_int n / of_int d"
    using quotient_of_denom_pos quotient_of_div by auto
  with assms have n: "0 < n" by (simp add: zero_less_divide_iff)
  define k where "k = bitlen n - bitlen d"
  have bn: "1 \<le> bitlen n" and bd: "1 \<le> bitlen d"
    using n d by (simp_all add: bitlen_ge_iff_power)
  have "n < 2 ^ nat (bitlen n)" "2 ^ nat (bitlen n - 1) \<le> n"
    and "d < 2 ^ nat (bitlen d)" "2 ^ nat (bitlen d - 1) \<le> d"
    using bitlen_bounds [OF n] bitlen_bounds [OF d] by auto
  then have "(of_int n :: rat) < of_int (2 ^ nat (bitlen n))" "(of_int (2 ^ nat (bitlen n - 1)) :: rat) \<le> of_int n"
    and "(of_int d :: rat) < of_int (2 ^ nat (bitlen d))" "(of_int (2 ^ nat (bitlen d - 1)) :: rat) \<le> of_int d"
    by (simp_all only: of_int_less_iff of_int_le_iff)
  then have rn: "(of_int n :: rat) < 2 powi bitlen n" "(2 :: rat) powi (bitlen n - 1) \<le> of_int n"
    and rd: "(of_int d :: rat) < 2 powi bitlen d" "(2 :: rat) powi (bitlen d - 1) \<le> of_int d"
    using bn bd by (simp_all add: power_int_nonneg_exp)
  have d0: "(0 :: rat) < of_int d" using d by simp
  have up: "x < 2 powi (k + 1)"
  proof -
    have "(2 :: rat) powi (k + 1) * 2 powi (bitlen d - 1) = 2 powi bitlen n"
      by (simp add: k_def power_int_add [symmetric])
    moreover have "(2 :: rat) powi (k + 1) * 2 powi (bitlen d - 1) \<le> 2 powi (k + 1) * of_int d"
      using rd(2) by simp
    ultimately have "(of_int n :: rat) < 2 powi (k + 1) * of_int d" using rn(1) by simp
    then show ?thesis using d0 by (simp add: x divide_less_eq)
  qed
  have low: "2 powi (k - 1) \<le> x"
  proof -
    have "(2 :: rat) powi (k - 1) * 2 powi bitlen d = 2 powi (bitlen n - 1)"
      by (simp add: k_def power_int_add [symmetric])
    moreover have "(2 :: rat) powi (k - 1) * of_int d \<le> 2 powi (k - 1) * 2 powi bitlen d"
      using rd(1) by simp
    ultimately have "2 powi (k - 1) * of_int d \<le> (of_int n :: rat)" using rn(2) by simp
    then show ?thesis using d0 by (simp add: x le_divide_eq)
  qed
  show ?thesis using up low by (auto simp: ilog2_def q Let_def k_def [symmetric] not_le)
qed

lemma ilog2_mono: "0 < x \<Longrightarrow> x \<le> y \<Longrightarrow> ilog2 x \<le> ilog2 y"
proof -
  assume "0 < x" "x \<le> y"
  then have "2 powi ilog2 x < (2 :: rat) powi (ilog2 y + 1)"
    using ilog2_bounds [of x] ilog2_bounds [of y] by linarith
  then have "\<not> ilog2 y + 1 \<le> ilog2 x"
    using power_int_increasing [of "ilog2 y + 1" "ilog2 x" "2 :: rat"] by auto
  then show ?thesis by simp
qed

lemma round_half_even_of_int [simp]: "round_half_even (of_int n) = n"
  by (simp add: round_half_even_def)

lemma round_half_even_mono: "a \<le> b \<Longrightarrow> round_half_even a \<le> round_half_even b"
proof -
  assume ab: "a \<le> b"
  have fl: "\<lfloor>a\<rfloor> \<le> \<lfloor>b\<rfloor>" by (rule floor_mono [OF ab])
  have ra: "round_half_even a \<le> \<lfloor>a\<rfloor> + 1" by (simp add: round_half_even_def Let_def)
  have rb: "\<lfloor>b\<rfloor> \<le> round_half_even b" by (simp add: round_half_even_def Let_def)
  show ?thesis
  proof (cases "\<lfloor>a\<rfloor> = \<lfloor>b\<rfloor>")
    case True
    then show ?thesis using ab by (auto simp: round_half_even_def Let_def)
  next
    case False
    then show ?thesis using fl ra rb by linarith
  qed
qed

lemma round_half_even_le_int: "r \<le> of_int n \<Longrightarrow> round_half_even r \<le> n"
  using round_half_even_mono [of r "of_int n"] by simp

lemma round_half_even_ge_int: "of_int n \<le> r \<Longrightarrow> n \<le> round_half_even r"
  using round_half_even_mono [of "of_int n" r] by simp

lemma to_grid_nonneg: "0 \<le> x \<Longrightarrow> 0 \<le> to_grid F x"
  using round_half_even_ge_int [of 0 "x / 2 powi quantum F x"] by (simp add: to_grid_def Let_def)

lemma powi_int: "0 \<le> k \<Longrightarrow> (2 :: rat) powi k = of_int (2 ^ nat k)"
  by (simp add: power_int_nonneg_exp)

lemma to_grid_le_pow2:
  assumes "0 < x" and "x \<le> 2 powi k" and "quantum F x \<le> k"
  shows "to_grid F x \<le> 2 powi k"
proof -
  let ?e = "quantum F x"
  have split: "(2 :: rat) powi k = 2 powi (k - ?e) * 2 powi ?e" by (simp add: power_int_add [symmetric])
  have "x / 2 powi ?e \<le> of_int (2 ^ nat (k - ?e))"
    using assms(2,3) by (simp add: split divide_le_eq powi_int [symmetric] del: of_int_power)
  then have "(of_int (round_half_even (x / 2 powi ?e)) :: rat) \<le> 2 powi (k - ?e)"
    using round_half_even_le_int assms(3) by (simp add: powi_int del: of_int_power)
  then show ?thesis using assms(1) by (simp add: to_grid_def Let_def split)
qed

lemma to_grid_ge_pow2:
  assumes "2 powi k \<le> x" and "quantum F x \<le> k"
  shows "2 powi k \<le> to_grid F x"
proof -
  let ?e = "quantum F x"
  have pos: "0 < x" using assms(1) by (meson less_le_trans zero_less_power_int zero_less_numeral)
  have split: "(2 :: rat) powi k = 2 powi (k - ?e) * 2 powi ?e" by (simp add: power_int_add [symmetric])
  have "of_int (2 ^ nat (k - ?e)) \<le> x / 2 powi ?e"
    using assms by (simp add: split le_divide_eq powi_int [symmetric] del: of_int_power)
  then have "(2 :: rat) powi (k - ?e) \<le> of_int (round_half_even (x / 2 powi ?e))"
    using round_half_even_ge_int assms(2) by (simp add: powi_int del: of_int_power)
  then show ?thesis using pos by (simp add: to_grid_def Let_def split)
qed

text \<open>Rounding never reorders values: the fact every bound on a computed value rests on.\<close>

lemma to_grid_mono:
  assumes "1 \<le> prec F" and "0 \<le> x" and "x \<le> y"
  shows "to_grid F x \<le> to_grid F y"
proof (cases "x = 0")
  case True
  then show ?thesis using to_grid_nonneg [of y F] assms by (simp add: to_grid_def)
next
  case False
  with assms have x: "0 < x" and y: "0 < y" by simp_all
  have le: "ilog2 x \<le> ilog2 y" using ilog2_mono x assms(3) by blast
  show ?thesis
  proof (cases "quantum F x = quantum F y")
    case True
    have "x / 2 powi quantum F y \<le> y / 2 powi quantum F y"
      using assms(3) by (simp add: divide_right_mono)
    then have "(of_int (round_half_even (x / 2 powi quantum F y)) :: rat)
        \<le> of_int (round_half_even (y / 2 powi quantum F y))"
      using round_half_even_mono by simp
    then show ?thesis using x y by (simp add: to_grid_def Let_def True mult_right_mono)
  next
    case False
    with le have lt: "ilog2 x < ilog2 y" and qy: "quantum F y = ilog2 y - (prec F - 1)"
      using x y by (auto simp: quantum_def max_def split: if_splits)
    have qx: "quantum F x \<le> ilog2 y" using False lt assms(1) x y
      by (auto simp: quantum_def max_def split: if_splits)
    have "x \<le> 2 powi (ilog2 x + 1)" using ilog2_bounds [OF x] by simp
    also have "\<dots> \<le> 2 powi ilog2 y" using lt by (intro power_int_increasing) simp_all
    finally have "to_grid F x \<le> 2 powi ilog2 y" using to_grid_le_pow2 [OF x _ qx] by blast
    also have "\<dots> \<le> to_grid F y"
      using ilog2_bounds [OF y] qy assms(1) by (intro to_grid_ge_pow2) simp_all
    finally show ?thesis .
  qed
qed

text \<open>Integers below \<open>2 ^ prec\<close> are represented exactly.\<close>

lemma to_grid_int:
  assumes "0 \<le> n" and "n < 2 ^ nat (prec F)" and "emin F \<le> 0" and "1 \<le> prec F"
  shows "to_grid F (of_int n) = of_int n"
proof (cases "n = 0")
  case False
  with assms(1) have pos: "(0 :: rat) < of_int n" by simp
  have "(2 :: rat) powi ilog2 (of_int n) \<le> of_int n" using ilog2_bounds [OF pos] by simp
  also have "(of_int n :: rat) < of_int (2 ^ nat (prec F))" using assms(2) by (simp only: of_int_less_iff)
  also have "\<dots> = 2 powi prec F" using assms(4) by (simp add: power_int_nonneg_exp)
  finally have "\<not> prec F \<le> ilog2 (of_int n)"
    using power_int_increasing [of "prec F" "ilog2 (of_int n)" "2 :: rat"] by auto
  then have q: "quantum F (of_int n) \<le> 0" using assms(3) pos by (simp add: quantum_def)
  let ?e = "quantum F (of_int n)"
  have "(of_int n :: rat) / 2 powi ?e = of_int (n * 2 ^ nat (- ?e))"
    using q by (simp add: power_int_minus_divide [of 2 "- ?e", simplified] power_int_nonneg_exp)
  then have "to_grid F (of_int n) = of_int (n * 2 ^ nat (- ?e)) * 2 powi ?e"
    using False unfolding to_grid_def Let_def by (simp only: round_half_even_of_int of_int_eq_0_iff if_False)
  also have "\<dots> = of_int n"
    using q by (simp add: power_int_minus_divide [of 2 "- ?e", simplified] power_int_nonneg_exp)
  finally show ?thesis .
qed (simp add: to_grid_def)

lemma fround_Fin:
  assumes "0 \<le> to_grid F x" and "to_grid F x < 2 ^ emax F"
  shows "fround F x = Fin (to_grid F x)"
proof -
  have "- (2 ^ emax F) < to_grid F x"
    using assms(1) by (rule less_le_trans [rotated]) simp
  then show ?thesis using assms(2) by (simp add: fround_def Let_def not_le)
qed

text \<open>A value between 0 and a small integer stays between them when rounded to \<open>double\<close>.\<close>

lemma fround_between:
  assumes "0 \<le> x" and "x \<le> of_int n" and "n < 2 ^ 53"
  shows "\<exists>y. fround f64 x = Fin y \<and> 0 \<le> y \<and> y \<le> of_int n"
proof -
  have n: "0 \<le> n" using assms(1,2) by (metis of_int_0_le_iff order_trans)
  have nonneg: "0 \<le> to_grid f64 x" by (rule to_grid_nonneg [OF assms(1)])
  have "to_grid f64 x \<le> to_grid f64 (of_int n)"
    using assms by (intro to_grid_mono) (simp_all add: f64_def)
  also have "\<dots> = of_int n"
    using n assms(3) by (intro to_grid_int) (simp_all add: f64_def)
  finally have le: "to_grid f64 x \<le> of_int n" .
  have "(of_int n :: rat) < of_int (2 ^ 1024)"
    using assms(3) order.strict_trans2 [of n "2 ^ 53" "2 ^ 1024"] by (simp only: of_int_less_iff) simp
  then have "to_grid f64 x < 2 ^ emax f64" using le by (simp add: f64_def)
  then show ?thesis using fround_Fin [OF nonneg] le nonneg by blast
qed

lemma fround_int:
  assumes "0 \<le> n" and "n < 2 ^ 53"
  shows "fround f64 (of_int n) = Fin (of_int n)"
proof -
  have g: "to_grid f64 (of_int n) = of_int n"
    using assms by (intro to_grid_int) (simp_all add: f64_def)
  have "\<exists>y. fround f64 (of_int n) = Fin y" using fround_between [of "of_int n" n] assms by auto
  then show ?thesis by (auto simp: fround_def Let_def g split: if_splits)
qed

end
