(* ===== verification/Session.thy ===== *)
theory Session
  imports Prelude Floats "HOL-Library.Multiset"
begin

text \<open>
  \<open>src/src/ipc/session.h\<close>: the state kept for one client and the table of all clients,
  \<open>SessionPool\<close>, an \<open>std::unordered_map\<close> from descriptors to sessions. The theory
  states the table's interface as a locale, interprets it on association lists, and defines
  the well-formedness invariant of the table that every operation of the server keeps.
\<close>

datatype SessionState = RECV_REQ | PREFILL | DECODE | STREAM | DONE | ERRORED

record UmaSlo =
  target_ttft_ms :: u32
  target_tbt_ms :: u32
  priority :: byte

text \<open>
  \<open>ctx\<close> is the unused per-session context pointer (\<open>None\<close> for \<open>nullptr\<close>); time
  stamps are nanoseconds in 64 bits; \<open>prefill_idx\<close> is a \<open>size_t\<close> index.
\<close>

record ClientSession =
  fd :: int
  rx :: "byte list"
  tx :: "byte list"
  ctx :: "nat option"
  seq :: int
  state :: SessionState
  prompt_tokens :: "int list"
  prefill_idx :: nat
  has_pending_tok :: bool
  pending_tok :: int
  n_past :: int
  generated_count :: u32
  last_activity_ns :: u64
  wants_stream :: bool
  read_closed :: bool
  last_error :: string
  slo :: UmaSlo
  req_start_ns :: u64
  first_emit_ns :: u64
  last_emit_ns :: u64
  temperature :: fl
  top_p :: fl
  top_k :: int
  request_id :: string

definition new_session :: ClientSession where
  "new_session =
     \<lparr>fd = - 1, rx = [], tx = [], ctx = None, seq = - 1, state = RECV_REQ, prompt_tokens = [],
      prefill_idx = 0, has_pending_tok = False, pending_tok = 0, n_past = 0, generated_count = 0,
      last_activity_ns = 0, wants_stream = True, read_closed = False, last_error = '''',
      slo = \<lparr>target_ttft_ms = 150, target_tbt_ms = 80, priority = 5\<rparr>,
      req_start_ns = 0, first_emit_ns = 0, last_emit_ns = 0,
      temperature = fround f64 (8 / 10), top_p = fround f64 (95 / 100), top_k = 0, request_id = ''''\<rparr>"

section \<open>The table of sessions\<close>

type_synonym SessionPool = "(int \<times> ClientSession) list"

text \<open>
  \<open>sessions.find(fd)\<close>, in-place mutation through the found pointer, and erasure. A new
  key lands anywhere in the iteration order: \<open>rehash\<close> is the implementation's choice.
\<close>

definition pool_find :: "SessionPool \<Rightarrow> int \<Rightarrow> ClientSession option" where
  "pool_find pool k = map_of pool k"

definition pool_set :: "SessionPool \<Rightarrow> int \<Rightarrow> ClientSession \<Rightarrow> SessionPool" where
  "pool_set pool k s = AList.update k s pool"

definition pool_erase :: "SessionPool \<Rightarrow> int \<Rightarrow> SessionPool" where
  "pool_erase pool k = AList.delete k pool"

definition pool_insert :: "(SessionPool \<Rightarrow> SessionPool) \<Rightarrow> SessionPool \<Rightarrow> int \<Rightarrow> ClientSession \<Rightarrow> SessionPool" where
  "pool_insert rehash pool k s =
     (case map_of pool k of None \<Rightarrow> rehash ((k, s) # pool) | Some _ \<Rightarrow> AList.update k s pool)"

text \<open>Keys are distinct and every session is filed under its own descriptor.\<close>

definition pool_wf :: "SessionPool \<Rightarrow> bool" where
  "pool_wf pool \<longleftrightarrow> distinct (map fst pool) \<and> (\<forall>(k, s) \<in> set pool. fd s = k)"

locale session_table =
  fixes lookup :: "'t \<Rightarrow> int \<Rightarrow> ClientSession option"
    and store :: "'t \<Rightarrow> int \<Rightarrow> ClientSession \<Rightarrow> 't"
    and remove :: "'t \<Rightarrow> int \<Rightarrow> 't"
    and wf :: "'t \<Rightarrow> bool"
  assumes lookup_store: "lookup (store t k s) k' = (if k' = k then Some s else lookup t k')"
    and lookup_remove: "lookup (remove t k) k' = (if k' = k then None else lookup t k')"
    and wf_store: "wf t \<Longrightarrow> fd s = k \<Longrightarrow> wf (store t k s)"
    and wf_remove: "wf t \<Longrightarrow> wf (remove t k)"
    and wf_lookup: "wf t \<Longrightarrow> lookup t k = Some s \<Longrightarrow> fd s = k"
begin

text \<open>Changing a session in place, as the handlers, the scheduler and the manager do.\<close>

lemma lookup_update:
  "lookup (case lookup t k of None \<Rightarrow> t | Some s \<Rightarrow> store t k (g s)) k' = (if k' = k then map_option g (lookup t k) else lookup t k')"
  by (simp add: lookup_store split: option.split)

lemma wf_change: "wf t \<Longrightarrow> lookup t k = Some s \<Longrightarrow> fd s' = fd s \<Longrightarrow> wf (store t k s')"
  using wf_store wf_lookup by metis

end

lemma pool_find_set: "pool_find (pool_set pool k s) k' = (if k' = k then Some s else pool_find pool k')"
  by (simp add: pool_find_def pool_set_def pool_simps)

lemma pool_find_erase: "pool_find (pool_erase pool k) k' = (if k' = k then None else pool_find pool k')"
  by (simp add: pool_find_def pool_erase_def pool_simps)

lemma pool_wf_set: "pool_wf pool \<Longrightarrow> fd s = k \<Longrightarrow> pool_wf (pool_set pool k s)"
  unfolding pool_wf_def pool_set_def
  by (auto simp: distinct_update dest: update_elem_cases)

lemma pool_wf_erase: "pool_wf pool \<Longrightarrow> pool_wf (pool_erase pool k)"
  unfolding pool_wf_def pool_erase_def
  by (auto simp: distinct_delete dest: set_mp [OF set_delete_subset])

lemma pool_wf_find: "pool_wf pool \<Longrightarrow> pool_find pool k = Some s \<Longrightarrow> fd s = k"
  unfolding pool_wf_def pool_find_def by (auto dest: map_of_SomeD)

interpretation sessions: session_table pool_find pool_set pool_erase pool_wf
  by unfold_locales
    (auto simp: pool_find_set pool_find_erase intro: pool_wf_set pool_wf_erase dest: pool_wf_find)

lemmas pool_laws [pool_simps] = pool_find_set pool_find_erase

lemma pool_find_iff: "pool_wf pool \<Longrightarrow> pool_find pool k = Some s \<longleftrightarrow> (k, s) \<in> set pool"
  unfolding pool_wf_def pool_find_def by (auto dest: map_of_SomeD)

lemma pool_keys_set: "pool_find pool k = Some s' \<Longrightarrow> map fst (pool_set pool k s) = map fst pool"
  unfolding pool_find_def pool_set_def by (rule keys_update_present) simp

lemma pool_wf_insert:
  assumes "pool_wf pool" and "fd s = k" and "\<And>p. mset (rehash p) = mset p"
  shows "pool_wf (pool_insert rehash pool k s)"
proof (cases "map_of pool k")
  case None
  let ?p = "rehash ((k, s) # pool)"
  have "distinct (map fst ((k, s) # pool))"
    using assms(1) None by (auto simp: pool_wf_def map_of_eq_None_iff)
  moreover have "mset (map fst ?p) = mset (map fst ((k, s) # pool))"
    using assms(3) by (metis mset_map)
  ultimately have "distinct (map fst ?p)" by (metis mset_eq_imp_distinct_iff)
  moreover have "set ?p = set ((k, s) # pool)" using assms(3) by (metis set_mset_mset)
  ultimately show ?thesis using assms(1,2) None by (auto simp: pool_insert_def pool_wf_def)
next
  case (Some s')
  then show ?thesis using pool_wf_set [OF assms(1,2)] by (simp add: pool_insert_def pool_set_def)
qed

end
