(* ===== verification/Tokens.thy ===== *)
theory Tokens
  imports Floats
begin

text \<open>
  The interface to llama.cpp (a git submodule, so a parameter of the model) and the wrappers of
  \<open>src/src/runtime/tokens.{h,cpp}\<close>. \<open>llama_vocab\<close> holds the vocabulary functions the
  sources call, \<open>llama\<close> the functions on a context of type \<open>'c\<close>. A function that fills
  a caller's buffer returns its return code together with what it wrote.
\<close>

section \<open>llama.cpp as the sources see it\<close>

record llama_vocab =
  vocab_n_tokens :: int
  vocab_is_eog :: "int \<Rightarrow> bool"
  vocab_tokenize :: "string \<Rightarrow> int \<Rightarrow> int \<Rightarrow> bool \<Rightarrow> bool \<Rightarrow> int \<times> int list"
  vocab_token_to_piece :: "int \<Rightarrow> nat \<Rightarrow> bool \<Rightarrow> int \<times> string"

record llama_batch =
  b_token :: "int list"
  b_pos :: "int list"
  b_n_seq_id :: "int list"
  b_seq_id :: "int list"
  b_logits :: "int list"

record perf_data =
  t_eval_ms :: fl
  t_p_eval_ms :: fl
  n_eval :: int
  n_p_eval :: int

record 'c llama =
  llama_n_batch :: "'c \<Rightarrow> u32"
  llama_decode :: "'c \<Rightarrow> llama_batch \<Rightarrow> int \<times> 'c"
  llama_get_logits_ith :: "'c \<Rightarrow> int \<Rightarrow> fl list option"
  llama_memory_seq_rm :: "'c \<Rightarrow> int \<Rightarrow> int \<Rightarrow> int \<Rightarrow> 'c"
  llama_perf_context_reset :: "'c \<Rightarrow> 'c"
  llama_perf_context :: "'c \<Rightarrow> perf_data"

section \<open>The wrappers\<close>

text \<open>
  \<open>tokenize\<close> asks for the length first and then fills a zero-initialised vector of that
  length. A null vocabulary is \<open>None\<close>.
\<close>

definition tokenize :: "llama_vocab option \<Rightarrow> string \<Rightarrow> bool \<Rightarrow> bool \<Rightarrow> int list" where
  "tokenize vocab str add_bos special =
     (case vocab of
        None \<Rightarrow> []
      | Some v \<Rightarrow>
          (let size = i32 (int (length str));
               n = i32 (- fst (vocab_tokenize v str size 0 add_bos special))
           in if n \<le> 0 then []
              else
                (case vocab_tokenize v str size n add_bos special of
                   (rc, written) \<Rightarrow>
                     if rc < 0 then []
                     else take (nat n) (written @ replicate (nat n - length written) 0))))"

definition token_to_piece :: "llama_vocab option \<Rightarrow> int \<Rightarrow> nat \<Rightarrow> bool \<Rightarrow> int \<times> string" where
  "token_to_piece vocab token_id buf_size special =
     (case vocab of
        None \<Rightarrow> (0, [])
      | Some v \<Rightarrow> if buf_size = 0 then (0, []) else vocab_token_to_piece v token_id buf_size special)"

definition token_to_piece_str :: "llama_vocab option \<Rightarrow> int \<Rightarrow> bool \<Rightarrow> string" where
  "token_to_piece_str vocab token_id special =
     (case token_to_piece vocab token_id 256 special of
        (n, buf) \<Rightarrow> if n \<le> 0 then [] else take (nat n) buf)"

section \<open>What llama.cpp promises of its vocabulary functions\<close>

text \<open>
  \<open>llama_tokenize\<close> writes at most the given number of tokens and returns how many, or minus
  the number needed when they do not fit; \<open>llama_token_to_piece\<close> writes at most the given
  number of bytes and returns how many, or a negative number when they do not fit.
\<close>

locale vocabulary =
  fixes v :: llama_vocab and toks :: "string \<Rightarrow> bool \<Rightarrow> bool \<Rightarrow> int list" and piece :: "int \<Rightarrow> bool \<Rightarrow> string"
  assumes tokenize_fits: "int (length (toks str b sp)) \<le> n \<Longrightarrow>
        vocab_tokenize v str (int (length str)) n b sp = (int (length (toks str b sp)), toks str b sp)"
    and tokenize_small: "0 \<le> n \<Longrightarrow> n < int (length (toks str b sp)) \<Longrightarrow>
        fst (vocab_tokenize v str (int (length str)) n b sp) = - int (length (toks str b sp))"
    and piece_fits: "length (piece t sp) \<le> m \<Longrightarrow> vocab_token_to_piece v t m sp = (int (length (piece t sp)), piece t sp)"
    and piece_small: "m < length (piece t sp) \<Longrightarrow> fst (vocab_token_to_piece v t m sp) < 0"
begin

lemma tokenize_eq:
  assumes "int (length str) \<le> INT_MAX" and "int (length (toks str b sp)) \<le> INT_MAX"
  shows "tokenize (Some v) str b sp = toks str b sp"
proof -
  let ?t = "toks str b sp" and ?k = "int (length str)"
  have size: "i32 ?k = ?k" using assms(1) by (simp add: i32_id)
  have "- fst (vocab_tokenize v str ?k 0 b sp) = int (length ?t)"
  proof (cases "?t = []")
    case True
    then show ?thesis using tokenize_fits [of str b sp 0] by simp
  next
    case False
    then show ?thesis using tokenize_small [of 0 str b sp] by simp
  qed
  then have n: "i32 (- fst (vocab_tokenize v str ?k 0 b sp)) = int (length ?t)"
    using assms(2) by (simp add: i32_id)
  show ?thesis
    using tokenize_fits [of str b sp "int (length ?t)"] by (auto simp: tokenize_def Let_def size n)
qed

lemma token_to_piece_str_eq:
  "token_to_piece_str (Some v) t sp = (if length (piece t sp) \<le> 256 then piece t sp else [])"
  using piece_fits [of t sp 256] piece_small [of 256 t sp]
  by (cases "vocab_token_to_piece v t 256 sp") (auto simp: token_to_piece_str_def token_to_piece_def)

end

text \<open>A byte vocabulary, one token per character, meets the interface.\<close>

definition byte_toks :: "string \<Rightarrow> bool \<Rightarrow> bool \<Rightarrow> int list" where
  "byte_toks str add_bos special = (if add_bos then [256] else []) @ map of_char str"

definition byte_piece :: "int \<Rightarrow> bool \<Rightarrow> string" where
  "byte_piece t special =
     (if 0 \<le> t \<and> t < 256 then [char_of (nat t)] else if special then ''<s>'' else [])"

definition byte_vocab :: llama_vocab where
  "byte_vocab =
     \<lparr>vocab_n_tokens = 258, vocab_is_eog = (\<lambda>t. t = 257),
      vocab_tokenize = (\<lambda>str size n b sp.
        (let ts = byte_toks str b sp in
           if int (length ts) \<le> n then (int (length ts), ts) else (- int (length ts), []))),
      vocab_token_to_piece = (\<lambda>t m sp.
        (let p = byte_piece t sp in if length p \<le> m then (int (length p), p) else (- int (length p), [])))\<rparr>"

interpretation bytes: vocabulary byte_vocab byte_toks byte_piece
  by unfold_locales (auto simp: byte_vocab_def Let_def)

lemma byte_tokenize: "int (length str) < INT_MAX \<Longrightarrow> tokenize (Some byte_vocab) str True True = byte_toks str True True"
  by (rule bytes.tokenize_eq) (simp_all add: byte_toks_def)

section \<open>Properties\<close>

text \<open>
  For any vocabulary that keeps llama.cpp's two-pass convention, the wrapper returns
  exactly the tokens of the text, for every text and token list whose length fits an
  \<open>int\<close>.
\<close>

lemma tokenize_correct:
  assumes "vocabulary v toks piece" and "int (length str) \<le> INT_MAX"
    and "int (length (toks str b sp)) \<le> INT_MAX"
  shows "tokenize (Some v) str b sp = toks str b sp"
  by (rule vocabulary.tokenize_eq [OF assms])

text \<open>
  The text of a token is its piece, whole or not at all: a piece longer than the 256-byte
  buffer becomes the empty string, never a truncated one.
\<close>

lemma token_to_piece_str_whole:
  assumes "vocabulary v toks piece"
  shows "token_to_piece_str (Some v) t sp = (if length (piece t sp) \<le> 256 then piece t sp else [])"
  by (rule vocabulary.token_to_piece_str_eq [OF assms])

end
