(* ===== verification/Poller.thy ===== *)
theory Poller
  imports Prelude "HOL-Library.Multiset"
begin

text \<open>
  The readiness poller, \<open>src/src/ipc/poller.h\<close> and \<open>src/src/ipc/poller_kqueue.cpp\<close>: flag sets
  in 16 bits, registration and deregistration through one \<open>kevent\<close> call each, and \<open>wait\<close>,
  which converts the time-out and coalesces the kernel's events by descriptor. The kernel queue
  is a parameter; what the system documents of it is the locale \<open>kqueue\<close>, interpreted on a
  kernel whose state is the set of registered filters.
\<close>

section \<open>Flags\<close>

type_synonym PollFlags = "16 word"

definition PollFlags_None :: PollFlags where "PollFlags_None = 0"
definition PollFlags_Read :: PollFlags where "PollFlags_Read = 1"
definition PollFlags_Write :: PollFlags where "PollFlags_Write = 2"
definition PollFlags_Hup :: PollFlags where "PollFlags_Hup = 4"
definition PollFlags_Err :: PollFlags where "PollFlags_Err = 8"

lemmas flag_defs = PollFlags_None_def PollFlags_Read_def PollFlags_Write_def PollFlags_Hup_def PollFlags_Err_def

definition pf_any :: "PollFlags \<Rightarrow> bool" where
  "pf_any a \<longleftrightarrow> a \<noteq> 0"

definition pf_has :: "PollFlags \<Rightarrow> PollFlags \<Rightarrow> bool" where
  "pf_has a b \<longleftrightarrow> pf_any (a AND b)"

record PollEvent =
  ev_fd :: int
  ev_f :: PollFlags

definition readable :: "PollEvent \<Rightarrow> bool" where
  "readable e \<longleftrightarrow> pf_has (ev_f e) PollFlags_Read"

definition writable :: "PollEvent \<Rightarrow> bool" where
  "writable e \<longleftrightarrow> pf_has (ev_f e) PollFlags_Write"

definition hup :: "PollEvent \<Rightarrow> bool" where
  "hup e \<longleftrightarrow> pf_has (ev_f e) PollFlags_Hup"

definition err :: "PollEvent \<Rightarrow> bool" where
  "err e \<longleftrightarrow> pf_has (ev_f e) PollFlags_Err"

section \<open>The kernel's interface\<close>

datatype errno = ENOENT | EBADF | EINTR | EAGAIN | Errno int

datatype kfilter = EVFILT_READ | EVFILT_WRITE
datatype kaction = EV_ADD | EV_DELETE

record kchange =
  kc_ident :: int
  kc_filter :: kfilter
  kc_action :: kaction

text \<open>An event as the kernel returns it; \<open>ident\<close> is pointer sized.\<close>

record kev =
  ke_ident :: u64
  ke_filter :: kfilter
  ke_error :: bool
  ke_eof :: bool

text \<open>\<open>kevent\<close> with a change list and no room for events, and closing a descriptor.\<close>

record 'k kernel =
  kevent_apply :: "'k \<Rightarrow> kchange list \<Rightarrow> errno option \<times> 'k"
  sys_close :: "'k \<Rightarrow> int \<Rightarrow> 'k"

section \<open>Poller\<close>

text \<open>
  The constructor is given what \<open>kqueue()\<close> returned and throws when that is negative; the
  destructor closes the handle (the descriptors it closes are listed).
\<close>

definition new_poller :: "int \<Rightarrow> string + int" where
  "new_poller handle = (if handle < 0 then Inl ''failed to create kqueue'' else Inr handle)"

definition destroy_poller :: "int \<Rightarrow> int list" where
  "destroy_poller handle = (if handle > 0 then [handle] else [])"

definition changes :: "int \<Rightarrow> PollFlags \<Rightarrow> kaction \<Rightarrow> kchange list" where
  "changes f interest act =
     (if pf_has interest PollFlags_Read then [\<lparr>kc_ident = f, kc_filter = EVFILT_READ, kc_action = act\<rparr>] else []) @
     (if pf_has interest PollFlags_Write then [\<lparr>kc_ident = f, kc_filter = EVFILT_WRITE, kc_action = act\<rparr>] else [])"

definition poller_add :: "'k kernel \<Rightarrow> 'k \<Rightarrow> int \<Rightarrow> PollFlags \<Rightarrow> bool \<times> 'k" where
  "poller_add K k f interest =
     (let evs = changes f interest EV_ADD in
        if evs = [] then (True, k)
        else (case kevent_apply K k evs of
                (None, k') \<Rightarrow> (True, k')
              | (Some _, k') \<Rightarrow> (False, k')))"

definition poller_remove :: "'k kernel \<Rightarrow> 'k \<Rightarrow> int \<Rightarrow> PollFlags \<Rightarrow> bool \<times> 'k" where
  "poller_remove K k f interest =
     (let evs = changes f interest EV_DELETE in
        if evs = [] then (True, k)
        else (case kevent_apply K k evs of
                (None, k') \<Rightarrow> (True, k')
              | (Some e, k') \<Rightarrow> (e = ENOENT \<or> e = EBADF, k')))"

definition wait_timespec :: "int \<Rightarrow> (int \<times> int) option" where
  "wait_timespec timeout_ms =
     (if timeout_ms \<ge> 0 then Some (timeout_ms div 1000, timeout_ms mod 1000 * 1000000) else None)"

definition kev_flags :: "kev \<Rightarrow> PollFlags" where
  "kev_flags e =
     (if ke_filter e = EVFILT_READ then PollFlags_Read else 0) OR
     (if ke_filter e = EVFILT_WRITE then PollFlags_Write else 0) OR
     (if ke_error e then PollFlags_Err else 0) OR
     (if ke_eof e then PollFlags_Hup else 0)"

definition kev_fd :: "kev \<Rightarrow> int" where
  "kev_fd e = i32 (uint (ke_ident e))"

definition coalesce_step :: "(int \<times> PollFlags) list \<Rightarrow> kev \<Rightarrow> (int \<times> PollFlags) list" where
  "coalesce_step acc e =
     AList.update (kev_fd e)
       (case map_of acc (kev_fd e) of Some f \<Rightarrow> f OR kev_flags e | None \<Rightarrow> kev_flags e) acc"

text \<open>
  The events are returned in the iteration order of an \<open>std::unordered_map\<close>, an arbitrary
  rearrangement \<open>rehash\<close> of the association list.
\<close>

definition poller_wait :: "((int \<times> PollFlags) list \<Rightarrow> (int \<times> PollFlags) list) \<Rightarrow> int \<Rightarrow> kev list \<Rightarrow> int \<times> PollEvent list" where
  "poller_wait rehash nev kevs =
     (if nev \<le> 0 then (nev, [])
      else let out = map (\<lambda>(f, fl). \<lparr>ev_fd = f, ev_f = fl\<rparr>) (rehash (foldl coalesce_step [] (take (nat nev) kevs)))
           in (int (length out), out))"

section \<open>What the system documents of the queue\<close>

text \<open>
  Changes are applied in order; the first that fails ends the call with its error and the rest
  is not applied. Adding a filter to an open descriptor succeeds (a kernel out of memory is left
  out); deleting one that is not registered fails, with \<open>ENOENT\<close> on an open descriptor and
  \<open>EBADF\<close> on one that is not; closing a descriptor removes its filters.
\<close>

locale kqueue =
  fixes K :: "'k kernel" and reg :: "'k \<Rightarrow> (int \<times> kfilter) set" and is_open :: "'k \<Rightarrow> int \<Rightarrow> bool"
  assumes apply_nil: "kevent_apply K k [] = (None, k)"
    and apply_add: "is_open k f \<Longrightarrow> \<exists>k'. (\<forall>cs. kevent_apply K k (\<lparr>kc_ident = f, kc_filter = flt, kc_action = EV_ADD\<rparr> # cs) = kevent_apply K k' cs) \<and>
          reg k' = insert (f, flt) (reg k) \<and> is_open k' = is_open k"
    and apply_del: "(f, flt) \<in> reg k \<Longrightarrow> \<exists>k'. (\<forall>cs. kevent_apply K k (\<lparr>kc_ident = f, kc_filter = flt, kc_action = EV_DELETE\<rparr> # cs) = kevent_apply K k' cs) \<and>
          reg k' = reg k - {(f, flt)} \<and> is_open k' = is_open k"
    and apply_del_missing: "(f, flt) \<notin> reg k \<Longrightarrow>
          kevent_apply K k (\<lparr>kc_ident = f, kc_filter = flt, kc_action = EV_DELETE\<rparr> # cs) =
            (Some (if is_open k f then ENOENT else EBADF), k)"
    and close_reg: "reg (sys_close K k f) = {p \<in> reg k. fst p \<noteq> f}"
    and close_open: "is_open (sys_close K k f) g \<longleftrightarrow> g \<noteq> f \<and> is_open k g"
begin

lemma has_simps [simp]:
  "pf_has PollFlags_Read PollFlags_Read" "\<not> pf_has PollFlags_Read PollFlags_Write"
  "pf_has PollFlags_Write PollFlags_Write" "\<not> pf_has PollFlags_Write PollFlags_Read"
  by (simp_all add: pf_has_def pf_any_def flag_defs)

lemma add_one:
  assumes "is_open k f" and "interest = PollFlags_Read \<and> flt = EVFILT_READ \<or> interest = PollFlags_Write \<and> flt = EVFILT_WRITE"
  shows "fst (poller_add K k f interest) \<and> reg (snd (poller_add K k f interest)) = insert (f, flt) (reg k) \<and>
    is_open (snd (poller_add K k f interest)) = is_open k"
proof -
  obtain k' where k': "\<forall>cs. kevent_apply K k (\<lparr>kc_ident = f, kc_filter = flt, kc_action = EV_ADD\<rparr> # cs) = kevent_apply K k' cs"
    "reg k' = insert (f, flt) (reg k)" "is_open k' = is_open k"
    using apply_add [OF assms(1)] by blast
  then show ?thesis using assms(2) by (auto simp: poller_add_def changes_def Let_def apply_nil)
qed

lemma remove_one:
  assumes "interest = PollFlags_Read \<and> flt = EVFILT_READ \<or> interest = PollFlags_Write \<and> flt = EVFILT_WRITE"
  shows "fst (poller_remove K k f interest) \<and> reg (snd (poller_remove K k f interest)) = reg k - {(f, flt)} \<and>
    is_open (snd (poller_remove K k f interest)) = is_open k"
proof (cases "(f, flt) \<in> reg k")
  case True
  then obtain k' where "\<forall>cs. kevent_apply K k (\<lparr>kc_ident = f, kc_filter = flt, kc_action = EV_DELETE\<rparr> # cs) = kevent_apply K k' cs"
    "reg k' = reg k - {(f, flt)}" "is_open k' = is_open k"
    using apply_del by blast
  then show ?thesis using assms by (auto simp: poller_remove_def changes_def Let_def apply_nil)
next
  case False
  then show ?thesis using assms apply_del_missing by (auto simp: poller_remove_def changes_def Let_def)
qed

lemma has_both [simp]:
  "pf_has (PollFlags_Read OR PollFlags_Write) PollFlags_Read" "pf_has (PollFlags_Read OR PollFlags_Write) PollFlags_Write"
  by (simp_all add: pf_has_def pf_any_def flag_defs)

text \<open>Deregistering both filters may stop at the first, but never touches another descriptor.\<close>

lemma remove_both:
  assumes k'_def: "k' = snd (poller_remove K k f (PollFlags_Read OR PollFlags_Write))"
  shows "{p \<in> reg k'. fst p \<noteq> f} = {p \<in> reg k. fst p \<noteq> f} \<and> is_open k' = is_open k"
proof (cases "(f, EVFILT_READ) \<in> reg k")
  case False
  then show ?thesis using apply_del_missing by (auto simp: k'_def poller_remove_def changes_def Let_def)
next
  case True
  then obtain k1 where k1: "\<forall>cs. kevent_apply K k (\<lparr>kc_ident = f, kc_filter = EVFILT_READ, kc_action = EV_DELETE\<rparr> # cs) = kevent_apply K k1 cs"
    "reg k1 = reg k - {(f, EVFILT_READ)}" "is_open k1 = is_open k"
    using apply_del by blast
  show ?thesis
  proof (cases "(f, EVFILT_WRITE) \<in> reg k1")
    case True
    then obtain k2 where "\<forall>cs. kevent_apply K k1 (\<lparr>kc_ident = f, kc_filter = EVFILT_WRITE, kc_action = EV_DELETE\<rparr> # cs) = kevent_apply K k2 cs"
      "reg k2 = reg k1 - {(f, EVFILT_WRITE)}" "is_open k2 = is_open k1"
      using apply_del by blast
    then show ?thesis using k1 by (auto simp: k'_def poller_remove_def changes_def Let_def apply_nil)
  next
    case False
    then show ?thesis using k1 apply_del_missing by (auto simp: k'_def poller_remove_def changes_def Let_def)
  qed
qed

text \<open>Deregistering and closing, as the session manager does it, leaves no filter behind.\<close>

lemma remove_close:
  "reg (sys_close K (snd (poller_remove K k f (PollFlags_Read OR PollFlags_Write))) f) = {p \<in> reg k. fst p \<noteq> f}"
  using remove_both [OF refl, of k f] by (simp add: close_reg)

end

section \<open>A kernel that keeps the set of filters\<close>

record set_queue =
  q_reg :: "(int \<times> kfilter) set"
  q_open :: "int set"

fun apply_set :: "set_queue \<Rightarrow> kchange list \<Rightarrow> errno option \<times> set_queue" where
  "apply_set q [] = (None, q)"
| "apply_set q (c # cs) =
     (let p = (kc_ident c, kc_filter c) in
        case kc_action c of
          EV_ADD \<Rightarrow>
            if kc_ident c \<in> q_open q then apply_set (q\<lparr>q_reg := insert p (q_reg q)\<rparr>) cs else (Some EBADF, q)
        | EV_DELETE \<Rightarrow>
            if p \<in> q_reg q then apply_set (q\<lparr>q_reg := q_reg q - {p}\<rparr>) cs
            else (Some (if kc_ident c \<in> q_open q then ENOENT else EBADF), q))"

definition set_kernel :: "set_queue kernel" where
  "set_kernel =
     \<lparr>kevent_apply = apply_set,
      sys_close = (\<lambda>q f. q\<lparr>q_reg := {p \<in> q_reg q. fst p \<noteq> f}, q_open := q_open q - {f}\<rparr>)\<rparr>"

interpretation sets: kqueue set_kernel q_reg "\<lambda>q f. f \<in> q_open q"
proof unfold_locales
  fix k :: set_queue and f flt
  assume "f \<in> q_open k"
  then show "\<exists>k'. (\<forall>cs. kevent_apply set_kernel k (\<lparr>kc_ident = f, kc_filter = flt, kc_action = EV_ADD\<rparr> # cs) =
      kevent_apply set_kernel k' cs) \<and> q_reg k' = insert (f, flt) (q_reg k) \<and> (\<lambda>g. g \<in> q_open k') = (\<lambda>g. g \<in> q_open k)"
    by (intro exI [of _ "k\<lparr>q_reg := insert (f, flt) (q_reg k)\<rparr>"]) (simp add: set_kernel_def)
next
  fix f flt and k :: set_queue
  assume "(f, flt) \<in> q_reg k"
  then show "\<exists>k'. (\<forall>cs. kevent_apply set_kernel k (\<lparr>kc_ident = f, kc_filter = flt, kc_action = EV_DELETE\<rparr> # cs) =
      kevent_apply set_kernel k' cs) \<and> q_reg k' = q_reg k - {(f, flt)} \<and> (\<lambda>g. g \<in> q_open k') = (\<lambda>g. g \<in> q_open k)"
    by (intro exI [of _ "k\<lparr>q_reg := q_reg k - {(f, flt)}\<rparr>"]) (simp add: set_kernel_def)
qed (auto simp: set_kernel_def)

section \<open>Waiting\<close>

definition flags_for :: "kev list \<Rightarrow> int \<Rightarrow> PollFlags" where
  "flags_for kevs f = foldl (\<lambda>a e. a OR kev_flags e) 0 (filter (\<lambda>e. kev_fd e = f) kevs)"

lemma flags_for_snoc: "flags_for (kevs @ [e]) f = (if kev_fd e = f then flags_for kevs f OR kev_flags e else flags_for kevs f)"
  by (simp add: flags_for_def)

lemma coalesce_spec:
  "distinct (map fst (foldl coalesce_step [] kevs)) \<and>
   map_of (foldl coalesce_step [] kevs) f = (if f \<in> kev_fd ` set kevs then Some (flags_for kevs f) else None)"
proof (induction kevs arbitrary: f rule: rev_induct)
  case (snoc e kevs)
  have "flags_for kevs g = 0" if "g \<notin> kev_fd ` set kevs" for g
  proof -
    have "filter (\<lambda>e. kev_fd e = g) kevs = []" using that by (auto simp: filter_empty_conv)
    then show ?thesis by (simp add: flags_for_def)
  qed
  then show ?case using snoc
    by (auto simp: coalesce_step_def distinct_update update_conv' flags_for_snoc)
qed simp

lemma kev_flags_bits:
  "pf_has (kev_flags e) PollFlags_Read \<longleftrightarrow> ke_filter e = EVFILT_READ"
  "pf_has (kev_flags e) PollFlags_Write \<longleftrightarrow> ke_filter e = EVFILT_WRITE"
  "pf_has (kev_flags e) PollFlags_Hup \<longleftrightarrow> ke_eof e" "pf_has (kev_flags e) PollFlags_Err \<longleftrightarrow> ke_error e"
  by (cases "ke_filter e"; cases "ke_error e"; cases "ke_eof e"; simp add: kev_flags_def pf_has_def pf_any_def flag_defs)+

lemma pf_has_or: "pf_has (a OR b) c \<longleftrightarrow> pf_has a c \<or> pf_has b c"
  by (simp add: pf_has_def pf_any_def bit.conj_disj_distrib2 or_eq_0_iff)

lemma flags_for_has: "pf_has (flags_for kevs f) c \<longleftrightarrow> (\<exists>e \<in> set kevs. kev_fd e = f \<and> pf_has (kev_flags e) c)"
proof (induction kevs rule: rev_induct)
  case Nil
  show ?case by (simp add: flags_for_def pf_has_def pf_any_def)
next
  case (snoc e kevs)
  then show ?case by (auto simp: flags_for_snoc pf_has_or)
qed

text \<open>No flag but the four is ever set.\<close>

lemma flags_for_known:
  "flags_for kevs f AND (PollFlags_Read OR PollFlags_Write OR PollFlags_Hup OR PollFlags_Err) = flags_for kevs f"
proof (induction kevs rule: rev_induct)
  case Nil
  show ?case by (simp add: flags_for_def)
next
  case (snoc e kevs)
  have "kev_flags e AND (PollFlags_Read OR PollFlags_Write OR PollFlags_Hup OR PollFlags_Err) = kev_flags e"
    by (cases "ke_filter e"; cases "ke_error e"; cases "ke_eof e"; simp add: kev_flags_def flag_defs)
  then show ?case using snoc by (simp add: flags_for_snoc bit.conj_disj_distrib2)
qed

text \<open>
  C37. Waiting coalesces: the events returned name each descriptor once, exactly the descriptors
  the kernel reported, and an event is readable (writable, hung up, in error) if and only if the
  kernel reported a read filter (a write filter, an end of file, an error) for its descriptor; it
  carries no other flag. A wait that fails or times out returns the kernel's count and no event.
\<close>

theorem poller_wait_coalesces:
  assumes "\<And>xs. mset (rehash xs) = mset xs" and "length kevs = nat nev" and "poller_wait rehash nev kevs = (n, evs)"
  shows "if nev \<le> 0 then n = nev \<and> evs = []
    else
      distinct (map ev_fd evs) \<and> set (map ev_fd evs) = kev_fd ` set kevs \<and> n = int (length evs) \<and>
      (\<forall>ev \<in> set evs.
         (readable ev \<longleftrightarrow> (\<exists>e \<in> set kevs. kev_fd e = ev_fd ev \<and> ke_filter e = EVFILT_READ)) \<and>
         (writable ev \<longleftrightarrow> (\<exists>e \<in> set kevs. kev_fd e = ev_fd ev \<and> ke_filter e = EVFILT_WRITE)) \<and>
         (hup ev \<longleftrightarrow> (\<exists>e \<in> set kevs. kev_fd e = ev_fd ev \<and> ke_eof e)) \<and>
         (err ev \<longleftrightarrow> (\<exists>e \<in> set kevs. kev_fd e = ev_fd ev \<and> ke_error e)) \<and>
         ev_f ev AND (PollFlags_Read OR PollFlags_Write OR PollFlags_Hup OR PollFlags_Err) = ev_f ev)"
proof (cases "nev \<le> 0")
  case True
  then show ?thesis using assms(3) by (simp add: poller_wait_def)
next
  case pos: False
  define acc where "acc = foldl coalesce_step [] kevs"
  have perm: "mset (rehash acc) = mset acc" by (rule assms(1))
  have evs: "evs = map (\<lambda>(f, fl). \<lparr>ev_fd = f, ev_f = fl\<rparr>) (rehash acc)" "n = int (length evs)"
    using assms(2,3) pos by (auto simp: poller_wait_def Let_def acc_def)
  have fds: "map ev_fd evs = map fst (rehash acc)" by (simp add: evs(1) comp_def case_prod_beta)
  have "distinct (map fst (rehash acc))"
    using coalesce_spec [of kevs] perm by (metis acc_def mset_eq_imp_distinct_iff mset_map)
  moreover have "set (map fst (rehash acc)) = kev_fd ` set kevs"
  proof -
    have "set (map fst (rehash acc)) = fst ` set acc" using perm by (metis set_map set_mset_mset)
    also have "\<dots> = kev_fd ` set kevs"
      using coalesce_spec [of kevs] unfolding acc_def [symmetric] by (metis (no_types) map_of_eq_None_iff option.distinct(1) subsetI subset_antisym)
    finally show ?thesis .
  qed
  moreover have "ev_f ev = flags_for kevs (ev_fd ev)" if e: "ev \<in> set evs" for ev
  proof -
    obtain f fl where ev: "ev = \<lparr>ev_fd = f, ev_f = fl\<rparr>" "(f, fl) \<in> set acc"
      using e perm by (auto simp: evs(1) dest: mset_eq_setD)
    then have "map_of acc f = Some fl"
      using coalesce_spec [THEN conjunct1, of kevs] by (intro map_of_is_SomeI) (simp_all add: acc_def)
    then show ?thesis using ev coalesce_spec [of kevs f] by (simp add: acc_def split: if_splits)
  qed
  ultimately show ?thesis
    using evs(2) pos unfolding fds readable_def writable_def hup_def err_def
    by (simp add: flags_for_has kev_flags_bits flags_for_known)
qed

definition demo_kevs :: "kev list" where
  "demo_kevs = [\<lparr>ke_ident = 5, ke_filter = EVFILT_READ, ke_error = True, ke_eof = True\<rparr>,
                \<lparr>ke_ident = 5, ke_filter = EVFILT_WRITE, ke_error = False, ke_eof = False\<rparr>]"

theorem poller_wait_coalesces_witness:
  "\<exists>n evs. poller_wait (\<lambda>xs. xs) 2 demo_kevs = (n, evs) \<and> distinct (map ev_fd evs) \<and> set (map ev_fd evs) = {5} \<and>
     (\<forall>ev \<in> set evs. readable ev \<and> writable ev \<and> hup ev \<and> err ev)"
proof -
  obtain n evs where w: "poller_wait (\<lambda>xs. xs) 2 demo_kevs = (n, evs)" by fastforce
  have fds: "kev_fd e = 5" if "e \<in> set demo_kevs" for e
    using that by (auto simp: demo_kevs_def kev_fd_def i32_def)
  have one: "ev_fd ev = 5" if "set (map ev_fd evs) = kev_fd ` set demo_kevs" "ev \<in> set evs" for ev
    using that fds by (metis image_eqI imageE set_map)
  from poller_wait_coalesces [OF _ _ w] have d: "distinct (map ev_fd evs)" and fs: "set (map ev_fd evs) = kev_fd ` set demo_kevs"
    and each: "\<forall>ev \<in> set evs.
         (readable ev \<longleftrightarrow> (\<exists>e \<in> set demo_kevs. kev_fd e = ev_fd ev \<and> ke_filter e = EVFILT_READ)) \<and>
         (writable ev \<longleftrightarrow> (\<exists>e \<in> set demo_kevs. kev_fd e = ev_fd ev \<and> ke_filter e = EVFILT_WRITE)) \<and>
         (hup ev \<longleftrightarrow> (\<exists>e \<in> set demo_kevs. kev_fd e = ev_fd ev \<and> ke_eof e)) \<and>
         (err ev \<longleftrightarrow> (\<exists>e \<in> set demo_kevs. kev_fd e = ev_fd ev \<and> ke_error e))"
    by (simp_all add: demo_kevs_def)
  have flags: "readable ev \<and> writable ev \<and> hup ev \<and> err ev" if ev: "ev \<in> set evs" for ev
  proof -
    have "\<exists>e \<in> set demo_kevs. kev_fd e = 5 \<and> ke_filter e = EVFILT_READ" "\<exists>e \<in> set demo_kevs. kev_fd e = 5 \<and> ke_filter e = EVFILT_WRITE"
      "\<exists>e \<in> set demo_kevs. kev_fd e = 5 \<and> ke_eof e" "\<exists>e \<in> set demo_kevs. kev_fd e = 5 \<and> ke_error e"
      by (simp_all add: demo_kevs_def kev_fd_def i32_def)
    then show ?thesis using bspec [OF each ev] unfolding one [OF fs ev] by blast
  qed
  have "kev_fd ` set demo_kevs = {5}" using fds by (auto simp: demo_kevs_def)
  then have "set (map ev_fd evs) = {5}" using fs by simp
  then show ?thesis using w d flags by (intro exI [of _ n] exI [of _ evs]) simp
qed

end
