(* ===== verification/Config.thy ===== *)
theory Config
  imports Prelude
begin

text \<open>
  \<open>RuntimeConfig\<close> and its loader, \<open>src/src/runtime/config.{h,cpp}\<close>. The environment is
  a function from variable names to values, the command line a list of strings; the thrown
  \<open>std::invalid_argument\<close> is the left summand. The C library's number parsers are
  modelled with their saturation and their wrap-around on a minus sign, and the casts to
  32 bits with theirs.
\<close>

section \<open>The configuration\<close>

record RuntimeConfig =
  model_path :: string
  n_ctx :: u32
  n_threads :: int
  n_batch :: u32
  n_ubatch :: u32
  socket_path :: string
  socket_mode :: "16 word"
  max_sessions :: u32
  max_prompt_bytes :: u32
  max_tokens :: u32
  idle_timeout_sec :: u32
  max_merge :: u32
  n_seq_max :: u32
  slo_ttft_ms :: u32
  slo_tbt_ms :: u32
  bmt_budget_units :: u64
  use_mmap :: bool
  use_mlock :: bool
  offload_kqv :: bool
  kv_unified :: bool
  swa_full :: bool
  enable_perf :: bool

definition default_config :: RuntimeConfig where
  "default_config =
     \<lparr>model_path = '''', n_ctx = 4096, n_threads = 0, n_batch = 0, n_ubatch = 0,
      socket_path = ''/tmp/uma.sock'', socket_mode = 384,
      max_sessions = 16, max_prompt_bytes = 8192, max_tokens = 64, idle_timeout_sec = 300,
      max_merge = 4, n_seq_max = 4, slo_ttft_ms = 150, slo_tbt_ms = 80,
      bmt_budget_units = 0, use_mmap = True, use_mlock = False, offload_kqv = True,
      kv_unified = True, swa_full = True, enable_perf = False\<rparr>"

section \<open>The C library's parsers\<close>

definition is_digit :: "char \<Rightarrow> bool" where
  "is_digit c \<longleftrightarrow> 48 \<le> (of_char c :: nat) \<and> (of_char c :: nat) \<le> 57"

definition digit_val :: "char \<Rightarrow> nat" where
  "digit_val c = of_char c - 48"

definition is_space :: "char \<Rightarrow> bool" where
  "is_space c \<longleftrightarrow> c = CHR '' '' \<or> (9 \<le> (of_char c :: nat) \<and> (of_char c :: nat) \<le> 13)"

definition dec_val :: "string \<Rightarrow> nat" where
  "dec_val ds = foldl (\<lambda>a c. 10 * a + digit_val c) 0 ds"

definition split_sign :: "string \<Rightarrow> bool \<times> string" where
  "split_sign s =
     (case s of
        [] \<Rightarrow> (False, [])
      | c # r \<Rightarrow> if c = CHR ''-'' then (True, r) else if c = CHR ''+'' then (False, r) else (False, s))"

text \<open>\<open>strtoul(s, nullptr, 10)\<close> and \<open>strtoull\<close> (both 64 bits), \<open>strtol\<close>.\<close>

definition strtoul :: "string \<Rightarrow> nat" where
  "strtoul s =
     (case split_sign (dropWhile is_space s) of (neg, r) \<Rightarrow>
        let v = dec_val (takeWhile is_digit r) in
          if 2 ^ 64 \<le> v then 2 ^ 64 - 1
          else if neg then (2 ^ 64 - v) mod 2 ^ 64 else v)"

definition strtol :: "string \<Rightarrow> int" where
  "strtol s =
     (case split_sign (dropWhile is_space s) of (neg, r) \<Rightarrow>
        let v = int (dec_val (takeWhile is_digit r)); w = (if neg then - v else v) in
          max (- (2 ^ 63)) (min (2 ^ 63 - 1) w))"

definition to_u32 :: "nat \<Rightarrow> u32" where
  "to_u32 n = word_of_nat n"

definition tolower :: "char \<Rightarrow> char" where
  "tolower c =
     (if 65 \<le> (of_char c :: nat) \<and> (of_char c :: nat) \<le> 90 then char_of (of_char c + 32 :: nat) else c)"

definition strcaseeq :: "string \<Rightarrow> string \<Rightarrow> bool" where
  "strcaseeq a b \<longleftrightarrow> map tolower a = map tolower b"

section \<open>Loading\<close>

type_synonym environ = "string \<Rightarrow> string option"

definition get_env :: "environ \<Rightarrow> string \<Rightarrow> string option" where
  "get_env E key = (case E key of None \<Rightarrow> None | Some v \<Rightarrow> if v = [] then None else Some v)"

definition parse_bool_flag :: "string \<Rightarrow> bool" where
  "parse_bool_flag s \<longleftrightarrow>
     s = ''1'' \<or> strcaseeq s ''true'' \<or> strcaseeq s ''yes'' \<or> strcaseeq s ''on''"

definition when_set :: "environ \<Rightarrow> string \<Rightarrow> (string \<Rightarrow> RuntimeConfig \<Rightarrow> RuntimeConfig) \<Rightarrow>
    RuntimeConfig \<Rightarrow> RuntimeConfig" where
  "when_set E key f cfg = (case get_env E key of None \<Rightarrow> cfg | Some v \<Rightarrow> f v cfg)"

definition env_config :: "environ \<Rightarrow> RuntimeConfig" where
  "env_config E =
     (let cfg = default_config;
          cfg = when_set E ''UMA_MODEL'' (\<lambda>v c. c\<lparr>model_path := v\<rparr>) cfg;
          cfg = when_set E ''UMA_N_CTX'' (\<lambda>v c. c\<lparr>n_ctx := to_u32 (strtoul v)\<rparr>) cfg;
          cfg = when_set E ''UMA_THREADS'' (\<lambda>v c. c\<lparr>n_threads := i32 (strtol v)\<rparr>) cfg;
          cfg = when_set E ''UMA_N_BATCH'' (\<lambda>v c. c\<lparr>n_batch := to_u32 (strtoul v)\<rparr>) cfg;
          cfg = when_set E ''UMA_N_UBATCH'' (\<lambda>v c. c\<lparr>n_ubatch := to_u32 (strtoul v)\<rparr>) cfg;
          cfg = when_set E ''UMA_SOCK'' (\<lambda>v c. c\<lparr>socket_path := v\<rparr>) cfg;
          cfg = when_set E ''UMA_N_SEQ'' (\<lambda>v c. c\<lparr>n_seq_max := to_u32 (strtoul v)\<rparr>) cfg;
          cfg = when_set E ''UMA_USE_MMAP'' (\<lambda>v c. c\<lparr>use_mmap := parse_bool_flag v\<rparr>) cfg;
          cfg = when_set E ''UMA_USE_MLOCK'' (\<lambda>v c. c\<lparr>use_mlock := parse_bool_flag v\<rparr>) cfg;
          cfg = when_set E ''UMA_SLO_TTFT_MS'' (\<lambda>v c. c\<lparr>slo_ttft_ms := to_u32 (strtoul v)\<rparr>) cfg;
          cfg = when_set E ''UMA_SLO_TBT_MS'' (\<lambda>v c. c\<lparr>slo_tbt_ms := to_u32 (strtoul v)\<rparr>) cfg;
          cfg = when_set E ''UMA_BMT_BUDGET'' (\<lambda>v c. c\<lparr>bmt_budget_units := word_of_nat (strtoul v)\<rparr>) cfg;
          dbg = (case get_env E ''UMA_LOG_LEVEL'' of
                   None \<Rightarrow> False
                 | Some l \<Rightarrow> map tolower l = ''debug'')
      in cfg\<lparr>enable_perf := dbg\<rparr>)"

text \<open>
  The loop over \<open>argv\<close>, from index 1. The lambda \<open>need\<close> consumes the following argument or
  throws; a flag and its value are two elements of the list.
\<close>

fun parse_args :: "RuntimeConfig \<Rightarrow> string list \<Rightarrow> string + RuntimeConfig" where
  "parse_args cfg [] = Inr cfg"
| "parse_args cfg (arg # rest) =
     (if arg = ''--model'' then
        (case rest of [] \<Rightarrow> Inl (''missing value for '' @ ''--model'')
         | v # rest' \<Rightarrow> parse_args (cfg\<lparr>model_path := v\<rparr>) rest')
      else if arg = ''--n-ctx'' then
        (case rest of [] \<Rightarrow> Inl (''missing value for '' @ ''--n-ctx'')
         | v # rest' \<Rightarrow> parse_args (cfg\<lparr>n_ctx := to_u32 (strtoul v)\<rparr>) rest')
      else if arg = ''--threads'' then
        (case rest of [] \<Rightarrow> Inl (''missing value for '' @ ''--threads'')
         | v # rest' \<Rightarrow> parse_args (cfg\<lparr>n_threads := i32 (strtol v)\<rparr>) rest')
      else if arg = ''--mlock'' then parse_args (cfg\<lparr>use_mlock := True\<rparr>) rest
      else if arg = ''--no-mlock'' then parse_args (cfg\<lparr>use_mlock := False\<rparr>) rest
      else if arg = ''--no-mmap'' then parse_args (cfg\<lparr>use_mmap := False\<rparr>) rest
      else if arg = ''--mmap'' then parse_args (cfg\<lparr>use_mmap := True\<rparr>) rest
      else if arg = ''--sock'' \<or> arg = ''--socket'' then
        (case rest of [] \<Rightarrow> Inl (''missing value for '' @ ''--socket'')
         | v # rest' \<Rightarrow> parse_args (cfg\<lparr>socket_path := v\<rparr>) rest')
      else if arg = ''--max-sessions'' then
        (case rest of [] \<Rightarrow> Inl (''missing value for '' @ ''--max-sessions'')
         | v # rest' \<Rightarrow> parse_args (cfg\<lparr>max_sessions := to_u32 (strtoul v)\<rparr>) rest')
      else if arg = ''--parallel'' \<or> arg = ''--n-seq-max'' then
        (case rest of [] \<Rightarrow> Inl (''missing value for '' @ ''--parallel'')
         | v # rest' \<Rightarrow> parse_args (cfg\<lparr>n_seq_max := to_u32 (strtoul v)\<rparr>) rest')
      else if arg = ''--max-tokens'' then
        (case rest of [] \<Rightarrow> Inl (''missing value for '' @ ''--max-tokens'')
         | v # rest' \<Rightarrow> parse_args (cfg\<lparr>max_tokens := to_u32 (strtoul v)\<rparr>) rest')
      else if arg = ''--bmt-budget'' then
        (case rest of [] \<Rightarrow> Inl (''missing value for '' @ ''--bmt-budget'')
         | v # rest' \<Rightarrow> parse_args (cfg\<lparr>bmt_budget_units := word_of_nat (strtoul v)\<rparr>) rest')
      else if arg = ''--help'' \<or> arg = ''-h'' then Inl ''help''
      else Inl (''unknown flag: '' @ arg))"

definition from_args :: "environ \<Rightarrow> string list \<Rightarrow> string + RuntimeConfig" where
  "from_args E argv = parse_args (env_config E) (tl argv)"

end
