(* ===== verification/Session_Manager.thy ===== *)
theory Session_Manager
  imports Json_Fields Session Tokens Poller Config
begin

text \<open>
  The session manager, \<open>src/src/ipc/session_manager.{h,cpp}\<close>: registration, closing, and
  \<open>on_readable\<close>, which drains the socket, cuts one frame, extracts its fields, rejects what it
  must and hands the tokenised prompt to the scheduler by moving the session to PREFILL. What
  the \<open>read\<close> calls returned is an input: the chunks in order, then how the loop ended. What
  every class of input leads to is proved in Session_Requests, and that the table stays sound
  and live sessions never share a sequence id in Daemon_Invariant.
\<close>

section \<open>Numbers in requests\<close>

definition is_json_ws :: "char \<Rightarrow> bool" where
  "is_json_ws c \<longleftrightarrow> c \<in> {CHR '' '', CHR 0x09, CHR 0x0A, CHR 0x0D}"

definition is_num_char :: "char \<Rightarrow> bool" where
  "is_num_char c \<longleftrightarrow> is_digit c \<or> c \<in> {CHR ''-'', CHR ''+'', CHR ''e'', CHR ''E'', CHR ''.''}"

text \<open>
  \<open>strtod\<close> on the characters \<open>is_num_char\<close> lets through: the longest prefix that is a decimal
  literal, rounded to double; \<open>None\<close> when no prefix is.
\<close>

definition exponent :: "string \<Rightarrow> int" where
  "exponent s =
     (case s of
        c # r \<Rightarrow>
          if c = CHR ''e'' \<or> c = CHR ''E'' then
            (case split_sign r of (neg, ds) \<Rightarrow>
               let v = int (dec_val (takeWhile is_digit ds)) in if neg then - v else v)
          else 0
      | [] \<Rightarrow> 0)"

definition strtod :: "string \<Rightarrow> fl option" where
  "strtod s =
     (case split_sign s of (neg, r) \<Rightarrow>
        let whole = takeWhile is_digit r;
            r1 = dropWhile is_digit r;
            frac = (case r1 of c # r2 \<Rightarrow> if c = CHR ''.'' then takeWhile is_digit r2 else [] | [] \<Rightarrow> []);
            r3 = (case r1 of c # r2 \<Rightarrow> if c = CHR ''.'' then dropWhile is_digit r2 else r1 | [] \<Rightarrow> [])
        in if whole @ frac = [] then None
           else
             let v = of_nat (dec_val (whole @ frac)) * 10 powi (exponent r3 - int (length frac))
             in Some (fround f64 (if neg then - v else v)))"

definition extract_json_number :: "string \<Rightarrow> string \<Rightarrow> fl option" where
  "extract_json_number j key =
     (case str_find j (dquote @ key @ dquote) 0 of
        None \<Rightarrow> None
      | Some p \<Rightarrow>
          (case str_find j '':'' p of
             None \<Rightarrow> None
           | Some colon \<Rightarrow>
               (let n = takeWhile is_num_char (dropWhile is_json_ws (drop (colon + 1) j))
                in if n = [] then None else strtod n)))"

section \<open>SessionManager\<close>

record SessionManager =
  sm_sessions :: SessionPool
  next_seq_id :: int

definition new_manager :: SessionManager where
  "new_manager = \<lparr>sm_sessions = [], next_seq_id = 1\<rparr>"

definition add_client :: "(SessionPool \<Rightarrow> SessionPool) \<Rightarrow> SessionManager \<Rightarrow> int \<Rightarrow> u64 \<Rightarrow> SessionManager" where
  "add_client rehash sm f now_ns =
     sm\<lparr>sm_sessions := pool_insert rehash (sm_sessions sm) f (new_session\<lparr>fd := f, ctx := None, last_activity_ns := now_ns\<rparr>)\<rparr>"

text \<open>
  \<open>close\<close>: deregister, drop the sequence from the model's memory, free the session's own
  context if it has one (none ever has), close the descriptor.
\<close>

definition close_session :: "'k kernel \<Rightarrow> 'c llama \<Rightarrow> int \<Rightarrow> SessionManager \<times> 'k \<times> 'c \<Rightarrow> SessionManager \<times> 'k \<times> 'c" where
  "close_session K L f = (\<lambda>(sm, k, c).
     let k1 = snd (poller_remove K k f (PollFlags_Read OR PollFlags_Write)) in
       case pool_find (sm_sessions sm) f of
         Some s \<Rightarrow>
           (sm\<lparr>sm_sessions := pool_erase (sm_sessions sm) f\<rparr>, sys_close K k1 f,
            if seq s \<ge> 0 then llama_memory_seq_rm L c (seq s) (- 1) (- 1) else c)
       | None \<Rightarrow> (sm, sys_close K k1 f, c))"

definition find_session :: "SessionManager \<Rightarrow> int \<Rightarrow> ClientSession option" where
  "find_session sm f = pool_find (sm_sessions sm) f"

record ReadResult =
  wants_write :: bool
  removed_read :: bool
  admin_request :: bool
  admin_line :: string

definition no_result :: ReadResult where
  "no_result = \<lparr>wants_write = False, removed_read = False, admin_request = False, admin_line = ''''\<rparr>"

text \<open>How the read loop ended: end of file, nothing more for now, or an error.\<close>

datatype read_end = Read_Eof | Read_Again | Read_Error

definition drain_reads :: "byte list list \<Rightarrow> u64 \<Rightarrow> ClientSession \<Rightarrow> ClientSession" where
  "drain_reads chunks now_ns s = fold (\<lambda>buf s. s\<lparr>rx := rx s @ buf, last_activity_ns := now_ns\<rparr>) chunks s"

definition reject :: "string \<Rightarrow> string \<Rightarrow> string \<Rightarrow> ClientSession \<times> ReadResult \<Rightarrow> ClientSession \<times> ReadResult" where
  "reject rid code msg = (\<lambda>(s, rr).
     (s\<lparr>tx := append_error_event (tx s) rid code msg, state := STREAM, read_closed := True\<rparr>,
      rr\<lparr>wants_write := True, removed_read := True\<rparr>))"

definition set_sampling :: "platform \<Rightarrow> string \<Rightarrow> ClientSession \<Rightarrow> ClientSession" where
  "set_sampling P js s =
     (let s1 = (case extract_json_number js ''temperature'' of Some v \<Rightarrow> s\<lparr>temperature := v\<rparr> | None \<Rightarrow> s);
          s2 = (case extract_json_number js ''top_p'' of Some v \<Rightarrow> s1\<lparr>top_p := v\<rparr> | None \<Rightarrow> s1)
      in case extract_json_number js ''top_k'' of Some v \<Rightarrow> s2\<lparr>top_k := cast_i32 P v\<rparr> | None \<Rightarrow> s2)"

definition is_admin :: "string \<Rightarrow> bool" where
  "is_admin js \<longleftrightarrow>
     (let (typ, type_invalid) = extract_json_string js ''type'';
          (evt, event_invalid) = extract_json_string js ''event''
      in (\<not> type_invalid \<and> typ = ''metrics'') \<or> (\<not> event_invalid \<and> evt = ''metrics''))"

definition start_request :: "RuntimeConfig \<Rightarrow> u64 \<Rightarrow> int list \<Rightarrow> int \<Rightarrow> ClientSession \<Rightarrow> ClientSession \<times> int" where
  "start_request cfg now_ns toks next_id s =
     (s\<lparr>prompt_tokens := toks, prefill_idx := 0, generated_count := 0, has_pending_tok := False, n_past := 0,
        req_start_ns := now_ns, first_emit_ns := 0, last_emit_ns := 0,
        slo := (slo s)\<lparr>target_ttft_ms := slo_ttft_ms cfg, target_tbt_ms := slo_tbt_ms cfg\<rparr>,
        seq := (if seq s < 0 then next_id else seq s), state := PREFILL\<rparr>,
      if seq s < 0 then i32 (next_id + 1) else next_id)"

definition handle_request :: "platform \<Rightarrow> RuntimeConfig \<Rightarrow> llama_vocab option \<Rightarrow> u64 \<Rightarrow> string \<Rightarrow> int \<Rightarrow>
    ClientSession \<times> ReadResult \<Rightarrow> (ClientSession \<times> ReadResult) \<times> int" where
  "handle_request P cfg vocab now_ns js next_id = (\<lambda>(s, rr).
     if is_admin js then
       ((s\<lparr>state := STREAM, read_closed := True\<rparr>,
         rr\<lparr>admin_request := True, wants_write := True, removed_read := True\<rparr>), next_id)
     else
       let (req_id, id_invalid) = extract_json_string js ''id'';
           (prompt, prompt_invalid) = extract_json_string js ''prompt''
       in if id_invalid \<or> prompt_invalid then (reject req_id ''E_PROTO_001'' ''invalid utf-8'' (s, rr), next_id)
          else if prompt = [] then (reject req_id ''E_PROTO_BAD_REQUEST'' ''missing or invalid prompt'' (s, rr), next_id)
          else
            let s1 = set_sampling P js (s\<lparr>request_id := req_id\<rparr>) in
              if length prompt > unat (max_prompt_bytes cfg)
              then (reject req_id ''E_LIMIT_001'' ''prompt too large'' (s1, rr), next_id)
              else
                let s2 = s1\<lparr>prompt_tokens := []\<rparr>;
                    toks = tokenize vocab prompt True True
                in if toks \<noteq> [] then (case start_request cfg now_ns toks next_id s2 of (s3, n) \<Rightarrow> ((s3, rr), n))
                   else ((s2\<lparr>state := STREAM, tx := append_eos_event (tx s2) (request_id s2) ''stop''\<rparr>,
                          rr\<lparr>wants_write := True\<rparr>), next_id))"

definition on_session :: "platform \<Rightarrow> RuntimeConfig \<Rightarrow> llama_vocab option \<Rightarrow> u64 \<Rightarrow> byte list list \<Rightarrow> read_end \<Rightarrow>
    int \<Rightarrow> ClientSession \<Rightarrow> (ClientSession \<times> ReadResult) \<times> int" where
  "on_session P cfg vocab now_ns chunks fin next_id s0 =
     (let s1 = drain_reads chunks now_ns s0 in
        if fin = Read_Error then ((s1, no_result\<lparr>removed_read := True\<rparr>), next_id)
        else
          let (s2, rr) = (if fin = Read_Eof
                then (s1\<lparr>read_closed := True, last_activity_ns := now_ns\<rparr>, no_result\<lparr>removed_read := True\<rparr>)
                else (s1, no_result))
          in case try_read_frame (rx s2) kDefaultMaxFrameBytes of
               NeedMore \<Rightarrow> ((s2, rr), next_id)
             | FrameErr e \<Rightarrow>
                 (reject (request_id s2)
                    (if str_find e ''invalid frame length 0'' 0 \<noteq> None then ''E_PROTO_INVALID_LEN'' else ''E_PROTO_FRAME_TOO_LARGE'')
                    e (s2, rr), next_id)
             | Frame js rest \<Rightarrow> handle_request P cfg vocab now_ns js next_id (s2\<lparr>rx := rest\<rparr>, rr))"

definition on_readable :: "platform \<Rightarrow> int \<Rightarrow> RuntimeConfig \<Rightarrow> llama_vocab option \<Rightarrow> u64 \<Rightarrow>
    byte list list \<Rightarrow> read_end \<Rightarrow> SessionManager \<Rightarrow> SessionManager \<times> ReadResult" where
  "on_readable P f cfg vocab now_ns chunks fin sm =
     (case pool_find (sm_sessions sm) f of
        None \<Rightarrow> (sm, no_result)
      | Some s \<Rightarrow>
          (case on_session P cfg vocab now_ns chunks fin (next_seq_id sm) s of
             ((s', rr), n) \<Rightarrow> (\<lparr>sm_sessions = pool_set (sm_sessions sm) f s', next_seq_id = n\<rparr>, rr)))"

section \<open>What reading and parameters leave alone\<close>

lemma drain_reads_keeps:
  "fd (drain_reads cs t s) = fd s" "seq (drain_reads cs t s) = seq s" "state (drain_reads cs t s) = state s"
  "n_past (drain_reads cs t s) = n_past s" "prefill_idx (drain_reads cs t s) = prefill_idx s"
  "prompt_tokens (drain_reads cs t s) = prompt_tokens s" "generated_count (drain_reads cs t s) = generated_count s"
  "tx (drain_reads cs t s) = tx s" "last_error (drain_reads cs t s) = last_error s"
  "rx (drain_reads cs t s) = rx s @ concat cs" "request_id (drain_reads cs t s) = request_id s"
  "has_pending_tok (drain_reads cs t s) = has_pending_tok s"
  unfolding drain_reads_def by (induction cs arbitrary: s) simp_all

lemma drain_reads_params:
  "temperature (drain_reads cs t s) = temperature s" "top_p (drain_reads cs t s) = top_p s" "top_k (drain_reads cs t s) = top_k s"
  unfolding drain_reads_def by (induction cs arbitrary: s) simp_all

lemma set_sampling_keeps:
  "fd (set_sampling P js s) = fd s" "seq (set_sampling P js s) = seq s" "state (set_sampling P js s) = state s"
  "n_past (set_sampling P js s) = n_past s" "prefill_idx (set_sampling P js s) = prefill_idx s"
  "prompt_tokens (set_sampling P js s) = prompt_tokens s" "generated_count (set_sampling P js s) = generated_count s"
  "tx (set_sampling P js s) = tx s" "last_error (set_sampling P js s) = last_error s"
  "request_id (set_sampling P js s) = request_id s" "read_closed (set_sampling P js s) = read_closed s"
  "rx (set_sampling P js s) = rx s"
  by (auto simp: set_sampling_def Let_def split: option.split)

text \<open>How the two messages of the frame reader are told apart.\<close>

lemma error_texts:
  "str_find ''invalid frame length 0'' ''invalid frame length 0'' 0 \<noteq> None"
  "str_find ''frame too large'' ''invalid frame length 0'' 0 = None"
  by code_simp+

text \<open>Without a read error, the session after the drain and what is done with its first frame.\<close>

lemma on_session_frame:
  assumes "fin \<noteq> Read_Error"
    and "s2 = (if fin = Read_Eof then (drain_reads chunks now_ns s)\<lparr>read_closed := True, last_activity_ns := now_ns\<rparr>
               else drain_reads chunks now_ns s)"
    and "rr2 = (if fin = Read_Eof then no_result\<lparr>removed_read := True\<rparr> else no_result)"
  shows "on_session P cfg vocab now_ns chunks fin next_id s =
    (case try_read_frame (rx s2) kDefaultMaxFrameBytes of
       NeedMore \<Rightarrow> ((s2, rr2), next_id)
     | FrameErr e \<Rightarrow>
         (reject (request_id s2)
            (if str_find e ''invalid frame length 0'' 0 \<noteq> None then ''E_PROTO_INVALID_LEN'' else ''E_PROTO_FRAME_TOO_LARGE'')
            e (s2, rr2), next_id)
     | Frame js rest \<Rightarrow> handle_request P cfg vocab now_ns js next_id (s2\<lparr>rx := rest\<rparr>, rr2))"
  using assms unfolding on_session_def Let_def
  by (cases "fin = Read_Eof") (simp_all only: if_True if_False prod.case read_end.distinct simp_thms)

text \<open>What a request gets, as far as its text decides it: the tests of the code, in their order.\<close>

datatype verdict = Admin | Refuse string string | Nothing_To_Do | Run

definition asked_id :: "string \<Rightarrow> string" where
  "asked_id js = fst (extract_json_string js ''id'')"

definition asked_prompt :: "string \<Rightarrow> string" where
  "asked_prompt js = fst (extract_json_string js ''prompt'')"

definition verdict :: "RuntimeConfig \<Rightarrow> llama_vocab option \<Rightarrow> string \<Rightarrow> verdict" where
  "verdict cfg vocab js =
     (if is_admin js then Admin
      else if snd (extract_json_string js ''id'') \<or> snd (extract_json_string js ''prompt'')
      then Refuse ''E_PROTO_001'' ''invalid utf-8''
      else if asked_prompt js = [] then Refuse ''E_PROTO_BAD_REQUEST'' ''missing or invalid prompt''
      else if length (asked_prompt js) > unat (max_prompt_bytes cfg) then Refuse ''E_LIMIT_001'' ''prompt too large''
      else if tokenize vocab (asked_prompt js) True True = [] then Nothing_To_Do
      else Run)"

text \<open>
  The ways a complete frame is handled. A refusal leaves the session as it was, or with the
  sampling parameters of the refused request.
\<close>

lemma handle_request_cases:
  assumes "handle_request P cfg vocab now_ns js next_id (s, rr) = ((s', rr'), n)"
  obtains (admin) "is_admin js" "s' = s\<lparr>state := STREAM, read_closed := True\<rparr>"
      "rr' = rr\<lparr>admin_request := True, wants_write := True, removed_read := True\<rparr>" "n = next_id"
      "verdict cfg vocab js = Admin"
  | (refused) rid code msg s1 where "\<not> is_admin js" "code \<in> {''E_PROTO_001'', ''E_PROTO_BAD_REQUEST'', ''E_LIMIT_001''}"
      "reject rid code msg (s1, rr) = (s', rr')" "s1 = s \<or> s1 = set_sampling P js (s\<lparr>request_id := rid\<rparr>)" "n = next_id"
      "rid = asked_id js" "verdict cfg vocab js = Refuse code msg"
  | (nothing_to_do) rid where "\<not> is_admin js"
      "s' = (set_sampling P js (s\<lparr>request_id := rid\<rparr>))\<lparr>prompt_tokens := [], state := STREAM,
         tx := append_eos_event (tx s) rid ''stop''\<rparr>" "rr' = rr\<lparr>wants_write := True\<rparr>" "n = next_id"
      "rid = asked_id js" "verdict cfg vocab js = Nothing_To_Do"
  | (started) rid prompt where "\<not> is_admin js" "length prompt \<le> unat (max_prompt_bytes cfg)"
      "tokenize vocab prompt True True \<noteq> []" "rr' = rr"
      "(s', n) = start_request cfg now_ns (tokenize vocab prompt True True) next_id
         ((set_sampling P js (s\<lparr>request_id := rid\<rparr>))\<lparr>prompt_tokens := []\<rparr>)"
      "rid = asked_id js" "prompt = asked_prompt js" "verdict cfg vocab js = Run"
proof -
  obtain rid ii where i: "extract_json_string js ''id'' = (rid, ii)" by fastforce
  obtain prompt bad where p: "extract_json_string js ''prompt'' = (prompt, bad)" by fastforce
  have v: "verdict cfg vocab js =
      (if is_admin js then Admin else if ii \<or> bad then Refuse ''E_PROTO_001'' ''invalid utf-8''
       else if prompt = [] then Refuse ''E_PROTO_BAD_REQUEST'' ''missing or invalid prompt''
       else if length prompt > unat (max_prompt_bytes cfg) then Refuse ''E_LIMIT_001'' ''prompt too large''
       else if tokenize vocab prompt True True = [] then Nothing_To_Do else Run)"
    by (simp add: verdict_def asked_prompt_def i p)
  have ids: "rid = asked_id js" "prompt = asked_prompt js" by (simp_all add: asked_id_def asked_prompt_def i p)
  define s1 where "s1 = set_sampling P js (s\<lparr>request_id := rid\<rparr>)"
  have s1: "tx s1 = tx s" "request_id s1 = rid" by (simp_all add: s1_def set_sampling_keeps)
  note h = assms [unfolded handle_request_def, simplified i p Let_def prod.case, folded s1_def]
  consider "is_admin js" | "\<not> is_admin js" "ii \<or> bad" | "\<not> is_admin js" "\<not> (ii \<or> bad)" "prompt = []"
    | "\<not> is_admin js" "\<not> (ii \<or> bad)" "prompt \<noteq> []" "length prompt > unat (max_prompt_bytes cfg)"
    | "\<not> is_admin js" "\<not> (ii \<or> bad)" "prompt \<noteq> []" "\<not> length prompt > unat (max_prompt_bytes cfg)"
    by blast
  then show ?thesis
  proof cases
    case 1
    then show ?thesis using h v by (intro admin) auto
  next
    case 2
    then show ?thesis using h v ids by (intro refused [of "''E_PROTO_001''" rid "''invalid utf-8''" s]) auto
  next
    case 3
    then show ?thesis using h v ids by (intro refused [of "''E_PROTO_BAD_REQUEST''" rid "''missing or invalid prompt''" s]) auto
  next
    case 4
    then show ?thesis using h v ids by (intro refused [of "''E_LIMIT_001''" rid "''prompt too large''" s1]) (auto simp: s1_def)
  next
    case 5
    show ?thesis
    proof (cases "tokenize vocab prompt True True = []")
      case True
      then show ?thesis using 5 h v ids by (intro nothing_to_do [of rid]) (auto simp: s1_def set_sampling_keeps)
    next
      case False
      then show ?thesis using 5 h v ids by (intro started [of prompt rid]) (auto simp: s1_def split: prod.splits)
    qed
  qed
qed

text \<open>What \<open>on_readable\<close> does to the table.\<close>

lemma on_readable_cases:
  assumes "on_readable P f cfg vocab now_ns chunks fin sm = (sm', rr)"
  obtains (absent) "find_session sm f = None" "sm' = sm" "rr = no_result"
  | (present) s s' n where "find_session sm f = Some s"
      "on_session P cfg vocab now_ns chunks fin (next_seq_id sm) s = ((s', rr), n)"
      "sm' = \<lparr>sm_sessions = pool_set (sm_sessions sm) f s', next_seq_id = n\<rparr>"
      "\<And>g. find_session sm' g = (if g = f then Some s' else find_session sm g)"
  using assms by (auto simp: on_readable_def find_session_def pool_simps split: option.splits prod.splits)

end
