(* ===== verification/Policy.thy ===== *)
theory Policy
  imports Session
begin

text \<open>
  The planning policy, \<open>src/src/sched/policy.{h,cpp}\<close>: one tick's plan is a round-robin pass
  over the sessions that are decoding (one token each), then a pass over the sessions that are
  reading their prompt, those without a first token first and in bursts of at most 16. The
  theory gives the plan a closed form (a rotated prefix of the decode pool followed by prompt
  chunks) and proves the budget, the exclusivity of each session, the bounds of every chunk,
  that no budget is left while a session could use it, and the round-robin guarantee.
\<close>

section \<open>Plans\<close>

datatype Phase = Phase_PREFILL | Phase_DECODE

record BatchItem =
  it_fd :: int
  it_phase :: Phase
  it_n_tokens :: int

record Plan =
  items :: "BatchItem list"
  next_rr_decode_idx :: nat
  next_rr_prefill_idx :: nat
  decode_tok_count :: int
  prefill_tok_count :: int

definition empty_plan :: Plan where
  "empty_plan = \<lparr>items = [], next_rr_decode_idx = 0, next_rr_prefill_idx = 0,
     decode_tok_count = 0, prefill_tok_count = 0\<rparr>"

section \<open>BaselinePolicy::schedule\_tick\<close>

definition decode_ready :: "ClientSession \<Rightarrow> bool" where
  "decode_ready s \<longleftrightarrow> state s = DECODE \<and> has_pending_tok s"

definition prefill_ready :: "ClientSession \<Rightarrow> bool" where
  "prefill_ready s \<longleftrightarrow> state s = PREFILL \<and> prefill_idx s < length (prompt_tokens s)"

definition decode_pool :: "SessionPool \<Rightarrow> int list" where
  "decode_pool sessions = [fd s. (k, s) \<leftarrow> sessions, decode_ready s]"

definition prefill_pool :: "SessionPool \<Rightarrow> int list" where
  "prefill_pool sessions = [fd s. (k, s) \<leftarrow> sessions, \<not> decode_ready s, prefill_ready s]"

text \<open>The element the round-robin loop visits at step \<open>i\<close>.\<close>

definition rr_pick :: "int list \<Rightarrow> nat \<Rightarrow> nat \<Rightarrow> int" where
  "rr_pick pool rr i = pool ! (size_add rr i mod length pool)"

fun decode_loop :: "int list \<Rightarrow> nat \<Rightarrow> nat list \<Rightarrow> Plan \<times> int \<Rightarrow> Plan \<times> int" where
  "decode_loop pool rr [] (plan, budget) = (plan, budget)"
| "decode_loop pool rr (i # is) (plan, budget) =
     (if budget > 0 then
        decode_loop pool rr is
          (plan\<lparr>items := items plan @ [\<lparr>it_fd = rr_pick pool rr i, it_phase = Phase_DECODE, it_n_tokens = 1\<rparr>],
                decode_tok_count := decode_tok_count plan + 1\<rparr>, budget - 1)
      else (plan, budget))"

definition kBurst :: int where
  "kBurst = 16"

definition prefill_chunk :: "ClientSession \<Rightarrow> int \<Rightarrow> int" where
  "prefill_chunk s budget =
     (let remain_sz = size_sub (length (prompt_tokens s)) (prefill_idx s);
          remain = min (int remain_sz) INT_MAX;
          chunk = min remain budget
      in if first_emit_ns s = 0 then min chunk kBurst else chunk)"

fun schedule_pool :: "SessionPool \<Rightarrow> int list \<Rightarrow> Plan \<times> int \<Rightarrow> Plan \<times> int" where
  "schedule_pool sessions [] (plan, budget) = (plan, budget)"
| "schedule_pool sessions (f # pool) (plan, budget) =
     (if budget \<le> 0 then (plan, budget)
      else case pool_find sessions f of
             None \<Rightarrow> schedule_pool sessions pool (plan, budget)
           | Some s \<Rightarrow>
               let chunk = prefill_chunk s budget in
                 if chunk \<le> 0 then schedule_pool sessions pool (plan, budget)
                 else schedule_pool sessions pool
                        (plan\<lparr>items := items plan @ [\<lparr>it_fd = f, it_phase = Phase_PREFILL, it_n_tokens = chunk\<rparr>],
                              prefill_tok_count := prefill_tok_count plan + chunk\<rparr>, budget - chunk))"

definition awaiting_first :: "SessionPool \<Rightarrow> int \<Rightarrow> bool option" where
  "awaiting_first sessions f = map_option (\<lambda>s. first_emit_ns s = 0) (pool_find sessions f)"

definition rr_order :: "int list \<Rightarrow> nat \<Rightarrow> int list" where
  "rr_order pool rr = map (rr_pick pool rr) [0..<length pool]"

definition schedule_tick :: "SessionPool \<Rightarrow> int \<Rightarrow> int \<Rightarrow> nat \<Rightarrow> nat \<Rightarrow> Plan" where
  "schedule_tick sessions batch_cap target_batch rr_decode_idx rr_prefill_idx =
     (let budget0 = min target_batch batch_cap;
          dpool = decode_pool sessions;
          ppool = prefill_pool sessions;
          (plan, budget) =
            (if dpool \<noteq> [] \<and> budget0 > 0 then
               (let N = length dpool;
                    (p, b) = decode_loop dpool rr_decode_idx [0..<N] (empty_plan, budget0)
                in (p\<lparr>next_rr_decode_idx := size_add rr_decode_idx 1 mod N\<rparr>, b))
             else (empty_plan\<lparr>next_rr_decode_idx := 0\<rparr>, budget0))
      in if ppool \<noteq> [] \<and> budget > 0 then
           (let N = length ppool;
                order = rr_order ppool rr_prefill_idx;
                ttft_pool = filter (\<lambda>f. awaiting_first sessions f = Some True) order;
                rest_pool = filter (\<lambda>f. awaiting_first sessions f = Some False) order;
                (p1, b1) = schedule_pool sessions ttft_pool (plan, budget);
                (p2, b2) = (if b1 > 0 then schedule_pool sessions rest_pool (p1, b1) else (p1, b1))
            in p2\<lparr>next_rr_prefill_idx := size_add rr_prefill_idx 1 mod N\<rparr>)
         else plan\<lparr>next_rr_prefill_idx := 0\<rparr>)"

section \<open>Closed form\<close>

definition decode_item :: "int \<Rightarrow> BatchItem" where
  "decode_item f = \<lparr>it_fd = f, it_phase = Phase_DECODE, it_n_tokens = 1\<rparr>"

definition prefill_item :: "int \<Rightarrow> int \<Rightarrow> BatchItem" where
  "prefill_item f c = \<lparr>it_fd = f, it_phase = Phase_PREFILL, it_n_tokens = c\<rparr>"

lemma item_sel [simp]:
  "it_fd (decode_item f) = f" "it_phase (decode_item f) = Phase_DECODE" "it_n_tokens (decode_item f) = 1"
  "it_fd (prefill_item f c) = f" "it_phase (prefill_item f c) = Phase_PREFILL" "it_n_tokens (prefill_item f c) = c"
  by (simp_all add: decode_item_def prefill_item_def)

fun prefill_items :: "SessionPool \<Rightarrow> int \<Rightarrow> int list \<Rightarrow> BatchItem list" where
  "prefill_items sessions b [] = []"
| "prefill_items sessions b (f # fs) =
     (if b \<le> 0 then []
      else case pool_find sessions f of
             None \<Rightarrow> prefill_items sessions b fs
           | Some s \<Rightarrow>
               if prefill_chunk s b \<le> 0 then prefill_items sessions b fs
               else prefill_item f (prefill_chunk s b) # prefill_items sessions (b - prefill_chunk s b) fs)"

definition tokens_of :: "BatchItem list \<Rightarrow> int" where
  "tokens_of xs = sum_list (map it_n_tokens xs)"

lemma tokens_of_simps [simp]:
  "tokens_of [] = 0" "tokens_of (x # xs) = it_n_tokens x + tokens_of xs"
  "tokens_of (xs @ ys) = tokens_of xs + tokens_of ys"
  by (simp_all add: tokens_of_def)

lemma tokens_of_decode_items [simp]: "tokens_of (map (\<lambda>x. decode_item (g x)) xs) = int (length xs)"
  by (induction xs) simp_all

lemma decode_loop_eq:
  "decode_loop pool rr is (plan, b) =
     (plan\<lparr>items := items plan @ map (\<lambda>i. decode_item (rr_pick pool rr i)) (take (nat b) is),
           decode_tok_count := decode_tok_count plan + int (length (take (nat b) is))\<rparr>,
      b - int (length (take (nat b) is)))"
proof (induction "is" arbitrary: plan b)
  case (Cons i "is")
  show ?case
  proof (cases "b > 0")
    case True
    then have "nat b = Suc (nat (b - 1))" by simp
    then show ?thesis using True by (simp add: Cons.IH decode_item_def)
  qed simp
qed simp

lemma schedule_pool_eq:
  "schedule_pool sessions fs (plan, b) =
     (plan\<lparr>items := items plan @ prefill_items sessions b fs,
           prefill_tok_count := prefill_tok_count plan + tokens_of (prefill_items sessions b fs)\<rparr>,
      b - tokens_of (prefill_items sessions b fs))"
proof (induction fs arbitrary: plan b)
  case (Cons f fs)
  then show ?case
    by (auto simp: Let_def prefill_item_def [symmetric] split: option.splits)
qed simp

lemma rr_order_rotate:
  assumes "rr + length pool \<le> 2 ^ 64"
  shows "rr_order pool rr = rotate rr pool"
proof (rule nth_equalityI)
  fix i assume "i < length (rr_order pool rr)"
  then have i: "i < length pool" by (simp add: rr_order_def)
  then have "rr + i < 2 ^ 64" using assms by linarith
  then show "rr_order pool rr ! i = rotate rr pool ! i"
    using i by (simp add: rr_order_def rr_pick_def size_add_small nth_rotate)
qed (simp add: rr_order_def)

definition decode_part :: "SessionPool \<Rightarrow> int \<Rightarrow> nat \<Rightarrow> BatchItem list" where
  "decode_part sessions B rd = map decode_item (take (nat B) (rr_order (decode_pool sessions) rd))"

definition ttft_part :: "SessionPool \<Rightarrow> int \<Rightarrow> nat \<Rightarrow> BatchItem list" where
  "ttft_part sessions b rp =
     prefill_items sessions b
       (filter (\<lambda>f. awaiting_first sessions f = Some True) (rr_order (prefill_pool sessions) rp))"

definition rest_part :: "SessionPool \<Rightarrow> int \<Rightarrow> nat \<Rightarrow> BatchItem list" where
  "rest_part sessions b rp =
     prefill_items sessions b
       (filter (\<lambda>f. awaiting_first sessions f = Some False) (rr_order (prefill_pool sessions) rp))"

lemma prefill_items_no_budget: "b \<le> 0 \<Longrightarrow> prefill_items sessions b fs = []"
  by (cases fs) simp_all

lemma rr_order_Nil [simp]: "rr_order [] rr = []"
  by (simp add: rr_order_def)

lemma length_rr_order [simp]: "length (rr_order pool rr) = length pool"
  by (simp add: rr_order_def)

lemma set_rr_order: "set (rr_order pool rr) \<subseteq> set pool"
proof
  fix x assume "x \<in> set (rr_order pool rr)"
  then have "pool \<noteq> []" and "\<exists>i. x = rr_pick pool rr i" by (auto simp: rr_order_def)
  then show "x \<in> set pool" by (auto simp: rr_pick_def)
qed

definition plan_of :: "SessionPool \<Rightarrow> int \<Rightarrow> nat \<Rightarrow> nat \<Rightarrow> Plan" where
  "plan_of sessions B rd rp =
     (let D = decode_part sessions B rd; b = B - int (length D);
          T = ttft_part sessions b rp; b' = b - tokens_of T;
          R = rest_part sessions b' rp
      in \<lparr>items = D @ T @ R,
          next_rr_decode_idx =
            (if decode_pool sessions \<noteq> [] \<and> B > 0 then size_add rd 1 mod length (decode_pool sessions) else 0),
          next_rr_prefill_idx =
            (if prefill_pool sessions \<noteq> [] \<and> b > 0 then size_add rp 1 mod length (prefill_pool sessions) else 0),
          decode_tok_count = int (length D),
          prefill_tok_count = tokens_of T + tokens_of R\<rparr>)"

lemma decode_part_loop:
  "map (\<lambda>i. decode_item (rr_pick pool rr i)) (take n [0..<length pool]) =
   map decode_item (take n (rr_order pool rr))"
  by (simp add: rr_order_def take_map)

text \<open>The loop the source runs computes the closed form, for every input.\<close>

lemma schedule_tick_eq: "schedule_tick sessions cap tgt rd rp = plan_of sessions (min tgt cap) rd rp"
proof -
  let ?B = "min tgt cap" and ?D = "decode_part sessions (min tgt cap) rd"
  have A: "(if decode_pool sessions \<noteq> [] \<and> ?B > 0 then
       (let N = length (decode_pool sessions);
            (p, b) = decode_loop (decode_pool sessions) rd [0..<N] (empty_plan, ?B)
        in (p\<lparr>next_rr_decode_idx := size_add rd 1 mod N\<rparr>, b))
     else (empty_plan\<lparr>next_rr_decode_idx := 0\<rparr>, ?B)) =
     (\<lparr>items = ?D, next_rr_decode_idx =
         (if decode_pool sessions \<noteq> [] \<and> ?B > 0 then size_add rd 1 mod length (decode_pool sessions) else 0),
       next_rr_prefill_idx = 0, decode_tok_count = int (length ?D), prefill_tok_count = 0\<rparr>,
      ?B - int (length ?D))"
    by (auto simp: Let_def decode_loop_eq decode_part_loop empty_plan_def decode_part_def)
  let ?b = "?B - int (length ?D)"
  show ?thesis
  proof (cases "prefill_pool sessions \<noteq> [] \<and> 0 < ?b")
    case True
    then show ?thesis
      unfolding schedule_tick_def Let_def [of "min tgt cap"] Let_def [of "decode_pool sessions"]
        Let_def [of "prefill_pool sessions"] A
      by (simp add: Let_def plan_of_def schedule_pool_eq ttft_part_def rest_part_def prefill_items_no_budget)
  next
    case False
    then have "ttft_part sessions ?b rp = []" "rest_part sessions ?b rp = []"
      by (auto simp: ttft_part_def rest_part_def prefill_items_no_budget)
    with False show ?thesis
      unfolding schedule_tick_def Let_def [of "min tgt cap"] Let_def [of "decode_pool sessions"]
        Let_def [of "prefill_pool sessions"] A
      by (auto simp: Let_def plan_of_def)
  qed
qed

section \<open>Facts about prompt chunks\<close>

definition remaining :: "ClientSession \<Rightarrow> int" where
  "remaining s = int (length (prompt_tokens s)) - int (prefill_idx s)"

definition wanted :: "ClientSession \<Rightarrow> int" where
  "wanted s = (if first_emit_ns s = 0 then min (min (remaining s) INT_MAX) kBurst else min (remaining s) INT_MAX)"

lemma prefill_chunk_ready:
  "prefill_ready s \<Longrightarrow> prefill_chunk s b = min b (wanted s)"
  by (auto simp: prefill_ready_def prefill_chunk_def wanted_def remaining_def size_sub_def Let_def of_nat_diff)

lemma wanted_pos: "prefill_ready s \<Longrightarrow> 0 < wanted s"
  by (auto simp: prefill_ready_def wanted_def remaining_def kBurst_def INT_MAX_def)

definition all_prefill_ready :: "SessionPool \<Rightarrow> int list \<Rightarrow> bool" where
  "all_prefill_ready sessions fs \<longleftrightarrow> (\<forall>f \<in> set fs. \<exists>s. pool_find sessions f = Some s \<and> prefill_ready s)"

lemma prefill_items_tokens:
  "0 \<le> tokens_of (prefill_items sessions b fs) \<and> tokens_of (prefill_items sessions b fs) \<le> max 0 b"
proof (induction fs arbitrary: b)
  case (Cons f fs)
  have le: "prefill_chunk s b \<le> b" for s
    by (auto simp: prefill_chunk_def Let_def min_def)
  show ?case
  proof (cases "b \<le> 0 \<or> pool_find sessions f = None")
    case True
    then show ?thesis using Cons.IH [of b] by auto
  next
    case False
    then obtain s where s: "pool_find sessions f = Some s" by auto
    show ?thesis using False s le [of s] Cons.IH [of b] Cons.IH [of "b - prefill_chunk s b"] by auto
  qed
qed simp

lemma prefill_items_subseq: "subseq (map it_fd (prefill_items sessions b fs)) fs"
  by (induction fs arbitrary: b) (auto split: option.splits)

lemma prefill_items_phase: "x \<in> set (prefill_items sessions b fs) \<Longrightarrow> it_phase x = Phase_PREFILL"
  by (induction fs arbitrary: b) (auto split: option.splits if_splits)

lemma prefill_items_chunk:
  assumes "all_prefill_ready sessions fs" and "x \<in> set (prefill_items sessions b fs)"
  shows "\<exists>s. pool_find sessions (it_fd x) = Some s \<and> prefill_ready s \<and>
           0 < it_n_tokens x \<and> it_n_tokens x \<le> wanted s"
  using assms
proof (induction fs arbitrary: b)
  case (Cons f fs)
  then obtain s where s: "pool_find sessions f = Some s" "prefill_ready s"
    by (auto simp: all_prefill_ready_def)
  have "all_prefill_ready sessions fs" using Cons.prems(1) by (simp add: all_prefill_ready_def)
  note IH = Cons.IH [OF this]
  show ?case
    using Cons.prems(2) s wanted_pos [OF s(2)] prefill_chunk_ready [OF s(2), of b]
    by (auto split: if_splits dest: IH)
qed simp

lemma prefill_items_work_conserving:
  assumes "all_prefill_ready sessions fs" and "tokens_of (prefill_items sessions b fs) < b"
    and "f \<in> set fs" and "pool_find sessions f = Some s"
  shows "prefill_item f (wanted s) \<in> set (prefill_items sessions b fs)"
  using assms(1-3)
proof (induction fs arbitrary: b)
  case (Cons g fs)
  then obtain t where t: "pool_find sessions g = Some t" "prefill_ready t"
    by (auto simp: all_prefill_ready_def)
  have ready: "all_prefill_ready sessions fs" using Cons.prems(1) by (simp add: all_prefill_ready_def)
  have b: "0 < b" using Cons.prems(2) prefill_items_tokens [of sessions b "g # fs"] by linarith
  let ?c = "min b (wanted t)"
  have c: "0 < ?c" using b wanted_pos [OF t(2)] by simp
  have eq: "prefill_items sessions b (g # fs) = prefill_item g ?c # prefill_items sessions (b - ?c) fs"
    using b not_le [THEN iffD2, OF c] t prefill_chunk_ready [OF t(2), of b] by simp
  with Cons.prems(2) have less: "tokens_of (prefill_items sessions (b - ?c) fs) < b - ?c" by simp
  then have "0 < b - ?c" using prefill_items_tokens [of sessions "b - ?c" fs] by linarith
  then have c_eq: "?c = wanted t" by linarith
  show ?case
  proof (cases "f = g")
    case True
    then show ?thesis using eq c_eq t(1) assms(4) by simp
  next
    case False
    then have "f \<in> set fs" using Cons.prems(3) by simp
    then show ?thesis using Cons.IH [OF ready less] eq by simp
  qed
qed simp

lemma prefill_pool_ready:
  assumes "pool_wf sessions"
  shows "all_prefill_ready sessions (prefill_pool sessions)"
  using assms pool_find_iff [OF assms]
  by (auto simp: all_prefill_ready_def prefill_pool_def pool_wf_def)

lemma decode_pool_ready:
  assumes "pool_wf sessions" and "f \<in> set (decode_pool sessions)"
  shows "\<exists>s. pool_find sessions f = Some s \<and> decode_ready s"
  using assms pool_find_iff [OF assms(1)]
  by (auto simp: decode_pool_def pool_wf_def)

lemma all_prefill_ready_sub:
  "all_prefill_ready sessions fs \<Longrightarrow> set gs \<subseteq> set fs \<Longrightarrow> all_prefill_ready sessions gs"
  by (auto simp: all_prefill_ready_def)

section \<open>The policy's guarantees\<close>

lemma plan_parts:
  assumes "p = schedule_tick sessions cap tgt rd rp"
  shows "\<exists>D P. items p = D @ P \<and> D = decode_part sessions (min tgt cap) rd \<and>
    (\<forall>x \<in> set D. it_phase x = Phase_DECODE \<and> it_n_tokens x = 1) \<and>
    (\<forall>x \<in> set P. it_phase x = Phase_PREFILL) \<and>
    decode_tok_count p = tokens_of D \<and> prefill_tok_count p = tokens_of P"
proof -
  let ?D = "decode_part sessions (min tgt cap) rd"
  define b where "b = min tgt cap - int (length ?D)"
  define T where "T = ttft_part sessions b rp"
  define R where "R = rest_part sessions (b - tokens_of T) rp"
  have "tokens_of ?D = int (length ?D)"
    using tokens_of_decode_items [of id] by (simp add: decode_part_def)
  moreover have "items p = ?D @ (T @ R)" "decode_tok_count p = int (length ?D)"
    "prefill_tok_count p = tokens_of (T @ R)"
    by (simp_all add: assms schedule_tick_eq plan_of_def Let_def b_def T_def R_def)
  moreover have "it_phase x = Phase_PREFILL" if "x \<in> set (T @ R)" for x
    using that prefill_items_phase by (auto simp: T_def R_def ttft_part_def rest_part_def)
  moreover have "it_phase x = Phase_DECODE \<and> it_n_tokens x = 1" if "x \<in> set ?D" for x
    using that by (auto simp: decode_part_def)
  ultimately show ?thesis by (intro exI [of _ ?D] exI [of _ "T @ R"]) simp
qed

lemma length_decode_part:
  "length (decode_part sessions B rd) = min (nat B) (length (decode_pool sessions))"
  by (simp add: decode_part_def)

lemma plan_tokens_le:
  "tokens_of (items (schedule_tick sessions cap tgt rd rp)) \<le> max 0 (min tgt cap)"
proof -
  let ?D = "decode_part sessions (min tgt cap) rd"
  define b where "b = min tgt cap - int (length ?D)"
  define T where "T = ttft_part sessions b rp"
  have "tokens_of ?D = int (length ?D)"
    using tokens_of_decode_items [of id] by (simp add: decode_part_def)
  moreover have "int (length ?D) \<le> max 0 (min tgt cap)" by (simp add: length_decode_part)
  moreover have "0 \<le> tokens_of T" "tokens_of T \<le> max 0 b"
    using prefill_items_tokens by (simp_all add: T_def ttft_part_def)
  moreover have "tokens_of (rest_part sessions (b - tokens_of T) rp) \<le> max 0 (b - tokens_of T)"
    using prefill_items_tokens by (simp add: rest_part_def)
  ultimately show ?thesis
    by (simp add: schedule_tick_eq plan_of_def Let_def b_def [symmetric] T_def [symmetric])
       (use b_def in linarith)
qed

text \<open>
  C9. The plan of a tick never exceeds its token budget, the smaller of the target batch and
  the backend's capacity, and its two counters are exactly the tokens of its decode and prompt
  items.
\<close>

theorem schedule_tick_within_budget:
  "let p = schedule_tick sessions cap tgt rd rp in
     decode_tok_count p = tokens_of (filter (\<lambda>x. it_phase x = Phase_DECODE) (items p)) \<and>
     prefill_tok_count p = tokens_of (filter (\<lambda>x. it_phase x = Phase_PREFILL) (items p)) \<and>
     decode_tok_count p + prefill_tok_count p \<le> max 0 (min tgt cap)"
proof -
  define p where "p = schedule_tick sessions cap tgt rd rp"
  obtain D P where dp: "items p = D @ P" "D = decode_part sessions (min tgt cap) rd"
    "\<forall>x \<in> set D. it_phase x = Phase_DECODE \<and> it_n_tokens x = 1"
    "\<forall>x \<in> set P. it_phase x = Phase_PREFILL"
    "decode_tok_count p = tokens_of D" "prefill_tok_count p = tokens_of P"
    using plan_parts [OF p_def] by blast
  have "filter (\<lambda>x. it_phase x = Phase_DECODE) D = D" "filter (\<lambda>x. it_phase x = Phase_PREFILL) D = []"
    "filter (\<lambda>x. it_phase x = Phase_PREFILL) P = P" "filter (\<lambda>x. it_phase x = Phase_DECODE) P = []"
    using dp(3,4) by (auto simp: filter_id_conv filter_empty_conv)
  then show ?thesis
    using dp(1,5,6) plan_tokens_le [of sessions cap tgt rd rp]
    unfolding p_def [symmetric] Let_def by simp
qed

text \<open>
  C27. Decode first: the plan starts with one token for each decoding session, as many as the
  budget allows, in the order of the table rotated to the round-robin cursor; only prompt
  chunks follow. With a budget of at least the number of decoding sessions, every one of them
  is served.
\<close>

theorem schedule_tick_decode_first:
  assumes "rd + length (decode_pool sessions) \<le> 2 ^ 64"
  shows "\<exists>P. items (schedule_tick sessions cap tgt rd rp) =
           map decode_item (take (nat (min tgt cap)) (rotate rd (decode_pool sessions))) @ P \<and>
         (\<forall>x \<in> set P. it_phase x = Phase_PREFILL)"
  using plan_parts [OF refl, of sessions cap tgt rd rp] rr_order_rotate [OF assms]
  by (auto simp: decode_part_def)

lemma decode_pool_keys:
  "pool_wf sessions \<Longrightarrow> decode_pool sessions = map fst (filter (\<lambda>(k, s). decode_ready s) sessions)"
  unfolding pool_wf_def decode_pool_def by (induction sessions) auto

lemma prefill_pool_keys:
  "pool_wf sessions \<Longrightarrow>
   prefill_pool sessions = map fst (filter (\<lambda>(k, s). \<not> decode_ready s \<and> prefill_ready s) sessions)"
  unfolding pool_wf_def prefill_pool_def by (induction sessions) auto

lemma distinct_pools:
  assumes "pool_wf sessions"
  shows "distinct (decode_pool sessions)" "distinct (prefill_pool sessions)"
    "set (decode_pool sessions) \<inter> set (prefill_pool sessions) = {}"
proof -
  from assms have d: "distinct (map fst sessions)" by (simp add: pool_wf_def)
  then show "distinct (decode_pool sessions)" "distinct (prefill_pool sessions)"
    by (simp_all add: decode_pool_keys prefill_pool_keys assms distinct_map_filter)
  have "\<not> (decode_ready s \<and> prefill_ready s)" for s
    by (auto simp: decode_ready_def prefill_ready_def)
  then show "set (decode_pool sessions) \<inter> set (prefill_pool sessions) = {}"
    using decode_pool_ready [OF assms] prefill_pool_ready [OF assms]
    by (fastforce simp: all_prefill_ready_def)
qed

lemma subseq_distinct: "subseq xs ys \<Longrightarrow> distinct ys \<Longrightarrow> distinct xs"
  by (auto simp: subseq_conv_nths)

lemma subseq_set: "subseq xs ys \<Longrightarrow> set xs \<subseteq> set ys"
  by (metis set_nths_subset subseq_conv_nths)

text \<open>The prompt chunks of a plan: those of the sessions awaiting a first token, then the rest.\<close>

definition prefill_tail :: "SessionPool \<Rightarrow> int \<Rightarrow> nat \<Rightarrow> BatchItem list" where
  "prefill_tail sessions b rp =
     (let T = ttft_part sessions b rp in T @ rest_part sessions (b - tokens_of T) rp)"

lemma plan_items:
  "items (schedule_tick sessions cap tgt rd rp) =
     (let D = decode_part sessions (min tgt cap) rd
      in D @ prefill_tail sessions (min tgt cap - int (length D)) rp)"
  by (simp add: schedule_tick_eq plan_of_def Let_def prefill_tail_def)

lemma prefill_tail_item:
  assumes "pool_wf sessions" and "x \<in> set (prefill_tail sessions b rp)"
  shows "\<exists>s. pool_find sessions (it_fd x) = Some s \<and> it_phase x = Phase_PREFILL \<and>
      prefill_ready s \<and> 0 < it_n_tokens x \<and> it_n_tokens x \<le> wanted s"
proof -
  have ready: "all_prefill_ready sessions (filter Q (rr_order (prefill_pool sessions) rp))" for Q
    by (rule all_prefill_ready_sub [OF prefill_pool_ready [OF assms(1)]]) (use set_rr_order in auto)
  from assms(2) show ?thesis
    unfolding prefill_tail_def Let_def ttft_part_def rest_part_def
    using prefill_items_chunk [OF ready] prefill_items_phase by (metis Un_iff set_append)
qed

lemma prefill_tail_distinct:
  assumes "pool_wf sessions" and "rp + length (prefill_pool sessions) \<le> 2 ^ 64"
  shows "distinct (map it_fd (prefill_tail sessions b rp))"
    and "it_fd ` set (prefill_tail sessions b rp) \<subseteq> set (prefill_pool sessions)"
proof -
  let ?o = "rotate rp (prefill_pool sessions)"
  let ?fT = "filter (\<lambda>f. awaiting_first sessions f = Some True) ?o"
  let ?fR = "filter (\<lambda>f. awaiting_first sessions f = Some False) ?o"
  define T where "T = prefill_items sessions b ?fT"
  define R where "R = prefill_items sessions (b - tokens_of T) ?fR"
  have eq: "prefill_tail sessions b rp = T @ R"
    by (simp add: prefill_tail_def Let_def ttft_part_def rest_part_def rr_order_rotate [OF assms(2)] T_def R_def)
  have sub: "subseq (map it_fd T) ?fT" "subseq (map it_fd R) ?fR"
    by (simp_all add: T_def R_def prefill_items_subseq)
  note in_sub = subseq_set [OF sub(1)] subseq_set [OF sub(2)]
  have "distinct (map it_fd T)" "distinct (map it_fd R)"
    using distinct_pools [OF assms(1)] by (simp_all add: subseq_distinct [OF sub(1)] subseq_distinct [OF sub(2)])
  then show "distinct (map it_fd (prefill_tail sessions b rp))"
    using in_sub unfolding eq by (fastforce simp del: set_map)
  show "it_fd ` set (prefill_tail sessions b rp) \<subseteq> set (prefill_pool sessions)"
    using in_sub unfolding eq by auto
qed

lemma decode_part_facts:
  assumes "pool_wf sessions" and "rd + length (decode_pool sessions) \<le> 2 ^ 64"
  shows "distinct (map it_fd (decode_part sessions B rd))"
    and "it_fd ` set (decode_part sessions B rd) \<subseteq> set (decode_pool sessions)"
proof -
  have D: "map it_fd (decode_part sessions B rd) = take (nat B) (rotate rd (decode_pool sessions))"
    by (simp add: decode_part_def rr_order_rotate [OF assms(2)] o_def)
  show "distinct (map it_fd (decode_part sessions B rd))"
    using distinct_pools [OF assms(1)] by (simp add: D)
  show "it_fd ` set (decode_part sessions B rd) \<subseteq> set (decode_pool sessions)"
    using set_take_subset [of "nat B" "rotate rd (decode_pool sessions)"] arg_cong [OF D, of set] by simp
qed

text \<open>What the executor needs of an item: the state of its session and a bounded chunk.\<close>

definition runnable :: "ClientSession \<Rightarrow> BatchItem \<Rightarrow> bool" where
  "runnable s x \<longleftrightarrow>
     (case it_phase x of
        Phase_DECODE \<Rightarrow> decode_ready s \<and> it_n_tokens x = 1
      | Phase_PREFILL \<Rightarrow> prefill_ready s \<and> 0 \<le> it_n_tokens x \<and> it_n_tokens x \<le> wanted s)"

lemma wanted_le_remaining: "wanted s \<le> remaining s"
  by (auto simp: wanted_def min_def)

lemma wanted_le_burst: "first_emit_ns s = 0 \<Longrightarrow> wanted s \<le> 16"
  by (simp add: wanted_def kBurst_def)

lemma runnable_remaining:
  "runnable s x \<Longrightarrow> it_phase x = Phase_PREFILL \<Longrightarrow> 0 \<le> it_n_tokens x \<and> it_n_tokens x \<le> remaining s"
  using wanted_le_remaining [of s] by (auto simp: runnable_def)

lemma plan_distinct:
  assumes wf: "pool_wf sessions"
    and rd: "rd + length (decode_pool sessions) \<le> 2 ^ 64"
    and rp: "rp + length (prefill_pool sessions) \<le> 2 ^ 64"
  shows "distinct (map it_fd (items (schedule_tick sessions cap tgt rd rp)))"
  using decode_part_facts [OF wf rd, of "min tgt cap"] prefill_tail_distinct [OF wf rp] distinct_pools(3) [OF wf]
  by (fastforce simp: plan_items Let_def)

lemma plan_item_sound:
  assumes wf: "pool_wf sessions"
    and rd: "rd + length (decode_pool sessions) \<le> 2 ^ 64"
    and x: "x \<in> set (items (schedule_tick sessions cap tgt rd rp))"
  shows "\<exists>s. pool_find sessions (it_fd x) = Some s \<and> runnable s x \<and>
    (it_phase x = Phase_PREFILL \<longrightarrow> 1 \<le> it_n_tokens x)"
proof -
  define D where "D = decode_part sessions (min tgt cap) rd"
  define P where "P = prefill_tail sessions (min tgt cap - int (length D)) rp"
  have "x \<in> set D \<or> x \<in> set P" using x by (simp add: plan_items Let_def D_def P_def)
  then show ?thesis
  proof
    assume 1: "x \<in> set D"
    then have "it_phase x = Phase_DECODE \<and> it_n_tokens x = 1" by (auto simp: D_def decode_part_def)
    then show ?thesis
      using 1 decode_part_facts(2) [OF wf rd, of "min tgt cap", folded D_def] decode_pool_ready [OF wf, of "it_fd x"]
      by (auto simp: runnable_def)
  next
    assume 2: "x \<in> set P"
    obtain s where s: "pool_find sessions (it_fd x) = Some s" "it_phase x = Phase_PREFILL"
      "prefill_ready s" "0 < it_n_tokens x" "it_n_tokens x \<le> wanted s"
      using prefill_tail_item [OF wf 2 [unfolded P_def]] by blast
    then show ?thesis by (intro exI [of _ s]) (simp add: runnable_def)
  qed
qed

text \<open>
  C20. Every item of the plan is one the executor may carry out: no session appears twice; a
  decode item is one token of a session in state DECODE with a pending token; a prompt item is
  at least one and at most the remaining prompt tokens of a session in state PREFILL, and at
  most 16 of a session that has not produced its first token.
\<close>

theorem schedule_tick_items_sound:
  assumes wf: "pool_wf sessions"
    and rd: "rd + length (decode_pool sessions) \<le> 2 ^ 64"
    and rp: "rp + length (prefill_pool sessions) \<le> 2 ^ 64"
    and p: "p = schedule_tick sessions cap tgt rd rp"
  shows "distinct (map it_fd (items p)) \<and>
    (\<forall>x \<in> set (items p). \<exists>s. pool_find sessions (it_fd x) = Some s \<and>
       (case it_phase x of
          Phase_DECODE \<Rightarrow> decode_ready s \<and> it_n_tokens x = 1
        | Phase_PREFILL \<Rightarrow> prefill_ready s \<and> 1 \<le> it_n_tokens x \<and> it_n_tokens x \<le> remaining s \<and>
            (first_emit_ns s = 0 \<longrightarrow> it_n_tokens x \<le> 16)))"
proof (intro conjI ballI)
  show "distinct (map it_fd (items p))" unfolding p by (rule plan_distinct [OF wf rd rp])
  fix x assume "x \<in> set (items p)"
  from plan_item_sound [OF wf rd this [unfolded p]]
  obtain s where s: "pool_find sessions (it_fd x) = Some s" "runnable s x" "it_phase x = Phase_PREFILL \<longrightarrow> 1 \<le> it_n_tokens x"
    by blast
  then show "\<exists>s. pool_find sessions (it_fd x) = Some s \<and>
       (case it_phase x of
          Phase_DECODE \<Rightarrow> decode_ready s \<and> it_n_tokens x = 1
        | Phase_PREFILL \<Rightarrow> prefill_ready s \<and> 1 \<le> it_n_tokens x \<and> it_n_tokens x \<le> remaining s \<and>
            (first_emit_ns s = 0 \<longrightarrow> it_n_tokens x \<le> 16))"
    using runnable_remaining [OF s(2)] wanted_le_burst [of s]
    by (intro exI [of _ s]) (cases "it_phase x"; auto simp: runnable_def)
qed

lemma decode_part_all:
  assumes "rd + length (decode_pool sessions) \<le> 2 ^ 64"
    and "int (length (decode_part sessions B rd)) < B" and "f \<in> set (decode_pool sessions)"
  shows "decode_item f \<in> set (decode_part sessions B rd)"
proof -
  have "length (decode_pool sessions) \<le> nat B" using assms(2) by (simp add: length_decode_part)
  then show ?thesis using assms(3) by (simp add: decode_part_def rr_order_rotate [OF assms(1)])
qed

lemma prefill_tail_all:
  assumes "pool_wf sessions" and "rp + length (prefill_pool sessions) \<le> 2 ^ 64"
    and "tokens_of (prefill_tail sessions b rp) < b"
    and "f \<in> set (prefill_pool sessions)" and "pool_find sessions f = Some s"
  shows "prefill_item f (wanted s) \<in> set (prefill_tail sessions b rp)"
proof -
  let ?o = "rotate rp (prefill_pool sessions)"
  let ?T = "prefill_items sessions b (filter (\<lambda>f. awaiting_first sessions f = Some True) ?o)"
  let ?fR = "filter (\<lambda>f. awaiting_first sessions f = Some False) ?o"
  have eq: "prefill_tail sessions b rp = ?T @ prefill_items sessions (b - tokens_of ?T) ?fR"
    by (simp add: prefill_tail_def Let_def ttft_part_def rest_part_def rr_order_rotate [OF assms(2)])
  have ready: "all_prefill_ready sessions (filter Q ?o)" for Q
    by (rule all_prefill_ready_sub [OF prefill_pool_ready [OF assms(1)]]) auto
  have R: "tokens_of (prefill_items sessions (b - tokens_of ?T) ?fR) < b - tokens_of ?T"
    using assms(3) by (simp add: eq)
  then have T: "tokens_of ?T < b"
    using prefill_items_tokens [of sessions "b - tokens_of ?T" ?fR] by linarith
  show ?thesis
  proof (cases "first_emit_ns s = 0")
    case True
    then show ?thesis using prefill_items_work_conserving [OF ready T _ assms(5)] assms(4,5)
      by (simp add: eq awaiting_first_def)
  next
    case False
    then show ?thesis using prefill_items_work_conserving [OF ready R _ assms(5)] assms(4,5)
      by (simp add: eq awaiting_first_def)
  qed
qed

text \<open>
  C26. The plan is work conserving: if it uses less than the budget, then every session that is
  ready to decode gets its token and every session with prompt left gets all of it (or a full
  burst of 16 when it awaits its first token).
\<close>

theorem schedule_tick_work_conserving:
  assumes wf: "pool_wf sessions"
    and rd: "rd + length (decode_pool sessions) \<le> 2 ^ 64"
    and rp: "rp + length (prefill_pool sessions) \<le> 2 ^ 64"
    and p: "p = schedule_tick sessions cap tgt rd rp"
    and left: "decode_tok_count p + prefill_tok_count p < min tgt cap"
    and s: "pool_find sessions f = Some s"
  shows "(decode_ready s \<longrightarrow> decode_item f \<in> set (items p)) \<and>
         (prefill_ready s \<longrightarrow> prefill_item f (wanted s) \<in> set (items p))"
proof -
  define D where "D = decode_part sessions (min tgt cap) rd"
  define P where "P = prefill_tail sessions (min tgt cap - int (length D)) rp"
  have items: "items p = D @ P" by (simp add: p plan_items Let_def D_def P_def)
  have tok: "decode_tok_count p = int (length D)" "prefill_tok_count p = tokens_of P"
    by (simp_all add: p schedule_tick_eq plan_of_def Let_def D_def P_def prefill_tail_def)
  have "0 \<le> tokens_of P" using prefill_items_tokens
    by (simp add: P_def prefill_tail_def Let_def ttft_part_def rest_part_def add_nonneg_nonneg)
  then have less: "int (length D) < min tgt cap" "tokens_of P < min tgt cap - int (length D)"
    using left tok by linarith+
  have "(f, s) \<in> set sessions" "fd s = f"
    using s pool_find_iff [OF wf] pool_wf_find [OF wf] by auto
  then have "decode_ready s \<longrightarrow> f \<in> set (decode_pool sessions)"
    and "prefill_ready s \<longrightarrow> f \<in> set (prefill_pool sessions)"
    by (force simp: decode_pool_def prefill_pool_def decode_ready_def prefill_ready_def)+
  then show ?thesis
    using decode_part_all [OF rd less(1) [unfolded D_def]] prefill_tail_all [OF wf rp less(2) [unfolded P_def] _ s]
    by (auto simp: items D_def P_def)
qed

lemma first_item:
  assumes "decode_pool sessions \<noteq> []" and "0 < min tgt cap"
  shows "hd (items (schedule_tick sessions cap tgt rd rp)) = decode_item (rr_pick (decode_pool sessions) rd 0)"
proof -
  obtain n where "nat (min tgt cap) = Suc n" using assms(2) by (metis gr0_implies_Suc zero_less_nat_eq)
  moreover obtain m where "length (decode_pool sessions) = Suc m" using assms(1) by (cases "decode_pool sessions") auto
  ultimately show ?thesis
    by (simp add: plan_items Let_def decode_part_def rr_order_def upt_conv_Cons del: upt_Suc)
qed

lemma cursor_advances:
  assumes "decode_pool sessions \<noteq> []" and "0 < min tgt cap" and "rd + 1 < 2 ^ 64"
  shows "next_rr_decode_idx (schedule_tick sessions cap tgt rd rp) = (rd + 1) mod length (decode_pool sessions)"
  using assms by (simp add: schedule_tick_eq plan_of_def Let_def size_add_small)

text \<open>
  C21. Round robin: while the set of decoding sessions stays the same and some budget exists,
  every decoding session is served first within as many consecutive ticks as there are
  decoding sessions, whatever the budget of each tick, so none starves.
\<close>

theorem schedule_tick_round_robin:
  assumes pool: "\<And>k. decode_pool (S k) = P" and budget: "\<And>k. 0 < min (tgt k) cap"
    and small: "length P < 2 ^ 63" and start: "c 0 < length P"
    and cursor: "\<And>k. c (Suc k) = next_rr_decode_idx (schedule_tick (S k) cap (tgt k) (c k) (rp k))"
    and f: "f \<in> set P"
  shows "\<exists>k < length P. hd (items (schedule_tick (S k) cap (tgt k) (c k) (rp k))) = decode_item f"
proof -
  let ?N = "length P"
  have P: "P \<noteq> []" using f by auto
  have c: "c k = (c 0 + k) mod ?N" for k
  proof (induction k)
    case 0
    show ?case using start by simp
  next
    case (Suc k)
    have "c k < ?N" using Suc P by simp
    then have "c (Suc k) = (c k + 1) mod ?N"
      using cursor_advances [of "S k" "tgt k" cap "c k" "rp k"] P budget [of k] small
      by (simp add: pool cursor)
    then show ?case by (simp add: Suc mod_simps)
  qed
  obtain i where i: "i < ?N" "P ! i = f" using f by (auto simp: in_set_conv_nth)
  define k where "k = (i + ?N - c 0) mod ?N"
  have k: "k < ?N" using P by (simp add: k_def)
  have "c k = (c 0 + k) mod ?N" by (rule c)
  also have "\<dots> = (c 0 + (i + ?N - c 0)) mod ?N" by (simp add: k_def mod_add_right_eq)
  finally have "c k = (c 0 + (i + ?N - c 0)) mod ?N" .
  then have ck: "c k = i" using i(1) start by simp
  then have "rr_pick P (c k) 0 = f" using i small by (simp add: rr_pick_def size_add_small)
  then show ?thesis using first_item [of "S k" "tgt k" cap "c k" "rp k"] pool P budget [of k] k by metis
qed

section \<open>Witnesses\<close>

definition decoding :: "int \<Rightarrow> ClientSession" where
  "decoding f = new_session\<lparr>fd := f, seq := f, state := DECODE, has_pending_tok := True, n_past := 4\<rparr>"

definition prompting :: "int \<Rightarrow> nat \<Rightarrow> ClientSession" where
  "prompting f n = new_session\<lparr>fd := f, seq := f, state := PREFILL, prompt_tokens := replicate n 7\<rparr>"

definition demo_pool :: SessionPool where
  "demo_pool = [(3, decoding 3), (4, decoding 4), (5, prompting 5 20)]"

lemma demo_ready [simp]:
  "decode_ready (decoding f)" "\<not> decode_ready (prompting f n)"
  "prefill_ready (prompting f n) \<longleftrightarrow> 0 < n" "fd (decoding f) = f" "fd (prompting f n) = f"
  "first_emit_ns (prompting f n) = 0" "remaining (prompting f n) = int n"
  by (simp_all add: decoding_def prompting_def decode_ready_def prefill_ready_def new_session_def remaining_def)

lemma demo_pool_facts:
  "pool_wf demo_pool" "decode_pool demo_pool = [3, 4]" "prefill_pool demo_pool = [5]"
  "pool_find demo_pool 5 = Some (prompting 5 20)" "pool_find demo_pool 3 = Some (decoding 3)"
  by (simp_all add: demo_pool_def pool_wf_def decode_pool_def prefill_pool_def pool_find_def)

lemma demo_plan:
  "schedule_tick demo_pool 32 32 0 0 =
     \<lparr>items = [decode_item 3, decode_item 4, prefill_item 5 16], next_rr_decode_idx = 1,
      next_rr_prefill_idx = 0, decode_tok_count = 2, prefill_tok_count = 16\<rparr>"
proof -
  have "rr_order [3, 4] 0 = [3, 4 :: int]" "rr_order [5] 0 = [5 :: int]"
    by (simp_all add: rr_order_def rr_pick_def size_add_def upt_rec)
  moreover have "awaiting_first demo_pool 5 = Some True"
    by (simp add: awaiting_first_def demo_pool_facts)
  moreover have "prefill_chunk (prompting 5 20) 30 = 16"
    by (simp add: prefill_chunk_ready wanted_def kBurst_def INT_MAX_def)
  ultimately show ?thesis
    by (simp add: schedule_tick_eq plan_of_def Let_def decode_part_def ttft_part_def rest_part_def
        demo_pool_facts size_add_def)
qed

theorem schedule_tick_decode_first_witness:
  "\<exists>P. items (schedule_tick demo_pool 32 32 0 0) =
     map decode_item (take (nat (min 32 32)) (rotate 0 (decode_pool demo_pool))) @ P \<and>
     (\<forall>x \<in> set P. it_phase x = Phase_PREFILL)"
  by (rule schedule_tick_decode_first) (simp add: demo_pool_facts)

theorem schedule_tick_items_sound_witness:
  "distinct (map it_fd [decode_item 3, decode_item 4, prefill_item 5 16]) \<and>
   (\<exists>s. pool_find demo_pool 5 = Some s \<and> prefill_ready s \<and> 16 \<le> remaining s)"
  using schedule_tick_items_sound [OF _ _ _ refl, of demo_pool 0 0 32 32]
  by (simp add: demo_pool_facts demo_plan)

theorem schedule_tick_work_conserving_witness:
  "decode_item 3 \<in> set (items (schedule_tick demo_pool 32 32 0 0))"
proof -
  have "(decode_ready (decoding 3) \<longrightarrow> decode_item 3 \<in> set (items (schedule_tick demo_pool 32 32 0 0))) \<and>
    (prefill_ready (decoding 3) \<longrightarrow>
       prefill_item 3 (wanted (decoding 3)) \<in> set (items (schedule_tick demo_pool 32 32 0 0)))"
    by (rule schedule_tick_work_conserving [OF _ _ _ refl]) (simp_all add: demo_pool_facts demo_plan)
  then show ?thesis by simp
qed

theorem schedule_tick_round_robin_witness:
  "\<exists>k < length [3, 4 :: int]. hd (items (schedule_tick demo_pool 8 1 (k mod 2) 0)) = decode_item 4"
proof (rule schedule_tick_round_robin [where S = "\<lambda>k. demo_pool" and tgt = "\<lambda>k. 1" and c = "\<lambda>k. k mod 2" and rp = "\<lambda>k. 0"])
  show "Suc k mod 2 = next_rr_decode_idx (schedule_tick demo_pool 8 1 (k mod 2) 0)" for k
  proof -
    have "k mod 2 < 2" by simp
    then have "k mod 2 < 18446744073709551615" by linarith
    then have "k mod 2 + 1 < 2 ^ 64" by simp
    then have "next_rr_decode_idx (schedule_tick demo_pool 8 1 (k mod 2) 0) = (k mod 2 + 1) mod length [3, 4 :: int]"
      using cursor_advances [of demo_pool 1 8 "k mod 2" 0] by (simp only: demo_pool_facts) simp
    moreover have "length [3, 4 :: int] = 2" by simp
    ultimately show ?thesis by presburger
  qed
qed (simp_all add: demo_pool_facts)

end
