(* ===== verification/Bmt.thy ===== *)
theory Bmt
  imports Policy
begin

text \<open>
  The bandwidth guard: the cost estimator of \<open>src/src/sched/bmt.{h,cpp}\<close> and the trimming
  loop at the head of \<open>Scheduler::tick\<close> (\<open>src/src/sched/scheduler.cpp\<close>). Costs are
  \<open>uint64_t\<close> and wrap; the theory relates them to the mathematical cost of a plan (one
  unit per key-value position a token attends to) and proves that the running estimate of the
  trimming loop stays the estimate of the trimmed plan.
\<close>

section \<open>The estimator\<close>

definition sum_arith :: "u64 \<Rightarrow> u64 \<Rightarrow> u64 \<Rightarrow> u64" where
  "sum_arith a0 d n = (n * (2 * a0 + (n - 1) * d)) div 2"

definition item_units :: "ClientSession \<Rightarrow> BatchItem \<Rightarrow> u64" where
  "item_units s it =
     (case it_phase it of
        Phase_DECODE \<Rightarrow> u64_of_int (i32 (n_past s + 1))
      | Phase_PREFILL \<Rightarrow>
          (let base = u64_of_int (n_past s);
               m = u64_of_int (if it_n_tokens it > 0 then it_n_tokens it else 0)
           in sum_arith (base + 1) 1 m))"

fun estimate_items :: "SessionPool \<Rightarrow> BatchItem list \<Rightarrow> u64 \<Rightarrow> u64" where
  "estimate_items sessions [] tot = tot"
| "estimate_items sessions (it # its) tot =
     (case pool_find sessions (it_fd it) of
        None \<Rightarrow> estimate_items sessions its tot
      | Some s \<Rightarrow> estimate_items sessions its (tot + item_units s it))"

definition estimate_units :: "SessionPool \<Rightarrow> Plan \<Rightarrow> u64" where
  "estimate_units sessions plan = estimate_items sessions (items plan) 0"

section \<open>The trimming loop\<close>

text \<open>
  \<open>trim_item\<close> is the inner loop over one prompt chunk (its state: the chunk size, the
  estimate, the plan's prompt-token counter, the flag); \<open>trim_rev\<close> the outer loop, which
  visits the items from the last to the first and stops when the estimate fits.
\<close>

function trim_item :: "u64 \<Rightarrow> u64 \<Rightarrow> int \<Rightarrow> u64 \<Rightarrow> int \<Rightarrow> bool \<Rightarrow> int \<times> u64 \<times> int \<times> bool" where
  "trim_item budget base n est pf trimmed =
     (if n > 0 \<and> est > budget then
        trim_item budget base (n - 1) (est - (base + u64_of_int n)) (pf - 1) True
      else (n, est, pf, trimmed))"
  by pat_completeness auto
termination
  by (relation "measure (\<lambda>(budget, base, n, est, pf, trimmed). nat n)") auto

declare trim_item.simps [simp del]

definition base_npast :: "SessionPool \<Rightarrow> int \<Rightarrow> u64" where
  "base_npast sessions f = (case pool_find sessions f of None \<Rightarrow> 0 | Some s \<Rightarrow> u64_of_int (n_past s))"

fun trim_rev :: "SessionPool \<Rightarrow> u64 \<Rightarrow> BatchItem list \<Rightarrow> u64 \<Rightarrow> int \<Rightarrow> bool \<Rightarrow>
    BatchItem list \<times> u64 \<times> int \<times> bool" where
  "trim_rev sessions budget [] est pf trimmed = ([], est, pf, trimmed)"
| "trim_rev sessions budget (it # its) est pf trimmed =
     (if est > budget then
        (if it_phase it \<noteq> Phase_PREFILL \<or> it_n_tokens it \<le> 0 then
           (case trim_rev sessions budget its est pf trimmed of (its', r) \<Rightarrow> (it # its', r))
         else
           (case trim_item budget (base_npast sessions (it_fd it)) (it_n_tokens it) est pf trimmed of
              (n', est', pf', trimmed') \<Rightarrow>
                (case trim_rev sessions budget its est' pf' trimmed' of
                   (its', r) \<Rightarrow> (it\<lparr>it_n_tokens := n'\<rparr> # its', r))))
      else (it # its, est, pf, trimmed))"

definition bmt_trim :: "SessionPool \<Rightarrow> u64 \<Rightarrow> Plan \<Rightarrow> Plan \<times> u64 \<times> bool" where
  "bmt_trim sessions budget plan =
     (let est = estimate_units sessions plan in
        if est > budget then
          (case trim_rev sessions budget (rev (items plan)) est (prefill_tok_count plan) False of
             (its, est', pf', trimmed) \<Rightarrow>
               (plan\<lparr>items := rev its, prefill_tok_count := pf'\<rparr>, est', trimmed))
        else (plan, est, False))"

section \<open>The cost model\<close>

text \<open>Cost in \<open>nat\<close>: a token at position \<open>p\<close> attends to \<open>p + 1\<close> positions.\<close>

definition item_cost :: "ClientSession \<Rightarrow> BatchItem \<Rightarrow> nat" where
  "item_cost s it =
     (case it_phase it of
        Phase_DECODE \<Rightarrow> nat (n_past s) + 1
      | Phase_PREFILL \<Rightarrow> (\<Sum>j < nat (it_n_tokens it). nat (n_past s) + j + 1))"

definition plan_cost :: "SessionPool \<Rightarrow> BatchItem list \<Rightarrow> nat" where
  "plan_cost sessions its =
     (\<Sum>it \<leftarrow> its. case pool_find sessions (it_fd it) of None \<Rightarrow> 0 | Some s \<Rightarrow> item_cost s it)"

definition positions_ok :: "SessionPool \<Rightarrow> bool" where
  "positions_ok sessions \<longleftrightarrow>
     (\<forall>f s. pool_find sessions f = Some s \<longrightarrow> 0 \<le> n_past s \<and> n_past s < INT_MAX)"

definition chunk_ok :: "BatchItem \<Rightarrow> bool" where
  "chunk_ok it \<longleftrightarrow> it_n_tokens it \<le> INT_MAX"

lemma gauss_shift: "(\<Sum>j < n. b + j + 1) = n * (2 * b + n + 1) div 2" for b :: nat
proof -
  have "2 * (\<Sum>j < n. b + j + 1) = n * (2 * b + n + 1)"
    by (induction n) (simp_all add: algebra_simps)
  then show ?thesis by (metis nonzero_mult_div_cancel_left zero_neq_numeral)
qed

lemma sum_arith_correct:
  assumes "b < 2 ^ 31" and "n < 2 ^ 31"
  shows "sum_arith (word_of_nat b + 1) 1 (word_of_nat n) = word_of_nat (\<Sum>j < n. b + j + 1)"
proof -
  have prod: "word_of_nat n * (2 * (word_of_nat b + 1) + (word_of_nat n - 1) * 1)
      = (word_of_nat (n * (2 * b + n + 1)) :: u64)"
    by (simp add: algebra_simps)
  have "n * (2 * b + n + 1) \<le> 2 ^ 31 * (2 * 2 ^ 31 + 2 ^ 31 + 1)"
    using assms by (intro mult_le_mono add_le_mono) simp_all
  also have "\<dots> < 2 ^ 64" by simp
  finally have fits: "n * (2 * b + n + 1) < 2 ^ 64" .
  have half: "unat (word_of_nat x div 2 :: u64) = x div 2" if "x < 2 ^ 64" for x
    using that by (simp add: unat_div unat_of_nat)
  have "unat (sum_arith (word_of_nat b + 1) 1 (word_of_nat n)) = n * (2 * b + n + 1) div 2"
    unfolding sum_arith_def prod by (rule half [OF fits])
  moreover have "n * (2 * b + n + 1) div 2 < 2 ^ 64"
    using fits by (meson div_le_dividend le_less_trans)
  ultimately have "unat (sum_arith (word_of_nat b + 1) 1 (word_of_nat n)) =
      unat (word_of_nat (n * (2 * b + n + 1) div 2) :: u64)"
    by (simp only: unat_of_nat) simp
  then show ?thesis unfolding gauss_shift by (simp only: unsigned_word_eqI)
qed

lemma u64_of_int_nat: "0 \<le> x \<Longrightarrow> u64_of_int x = word_of_nat (nat x)"
  by (simp add: u64_of_int_def)

lemma item_units_cost:
  assumes "0 \<le> n_past s" "n_past s < INT_MAX" "chunk_ok it"
  shows "item_units s it = word_of_nat (item_cost s it)"
proof (cases "it_phase it")
  case Phase_DECODE
  have "u64_of_int (i32 (n_past s + 1)) = word_of_nat (nat (n_past s + 1))"
    using assms by (simp add: i32_id u64_of_int_nat INT_MAX_def)
  moreover have "nat (n_past s + 1) = nat (n_past s) + 1" using assms(1) by simp
  ultimately show ?thesis by (simp add: item_units_def item_cost_def Phase_DECODE)
next
  case Phase_PREFILL
  define m where "m = nat (it_n_tokens it)"
  have "u64_of_int (if it_n_tokens it > 0 then it_n_tokens it else 0) = word_of_nat m"
    by (auto simp: m_def u64_of_int_nat)
  moreover have "sum_arith (word_of_nat (nat (n_past s)) + 1) 1 (word_of_nat m) =
      word_of_nat (\<Sum>j < m. nat (n_past s) + j + 1)"
    using assms by (intro sum_arith_correct) (auto simp: m_def chunk_ok_def INT_MAX_def)
  ultimately show ?thesis
    using assms(1) by (simp add: item_units_def item_cost_def Phase_PREFILL Let_def m_def u64_of_int_nat)
qed

lemma estimate_items_cost:
  assumes "positions_ok sessions" and "\<forall>it \<in> set its. chunk_ok it"
  shows "estimate_items sessions its tot = tot + word_of_nat (plan_cost sessions its)"
  using assms(2)
proof (induction its arbitrary: tot)
  case (Cons it its)
  then show ?case
    using item_units_cost assms(1)
    by (auto simp: plan_cost_def positions_ok_def split: option.splits)
qed (simp add: plan_cost_def)

section \<open>The trimming loop keeps its estimate exact\<close>

definition chunk_cost :: "nat \<Rightarrow> int \<Rightarrow> nat" where
  "chunk_cost b n = (\<Sum>j < nat n. b + j + 1)"

lemma chunk_cost_step: "0 < n \<Longrightarrow> chunk_cost b n = chunk_cost b (n - 1) + (b + nat n)"
proof -
  assume "0 < n"
  then have "nat n = Suc (nat (n - 1))" by simp
  then show ?thesis by (simp add: chunk_cost_def)
qed

lemma trim_item_spec:
  assumes "0 \<le> n" and "est = K + word_of_nat (chunk_cost b n)"
    and "trim_item budget (word_of_nat b) n est pf tr = (n', est', pf', tr')"
  shows "0 \<le> n' \<and> n' \<le> n \<and> est' = K + word_of_nat (chunk_cost b n') \<and> pf' = pf - (n - n') \<and>
         (tr' \<longleftrightarrow> tr \<or> n' < n) \<and> (n' = 0 \<or> est' \<le> budget)"
  using assms
proof (induction budget "word_of_nat b :: u64" n est pf tr rule: trim_item.induct)
  case (1 budget n est pf tr)
  show ?case
  proof (cases "n > 0 \<and> est > budget")
    case True
    let ?est = "est - (word_of_nat b + u64_of_int n)"
    have "?est = K + word_of_nat (chunk_cost b (n - 1))"
      using True "1.prems"(2) by (simp add: chunk_cost_step u64_of_int_nat)
    moreover have "trim_item budget (word_of_nat b) (n - 1) ?est (pf - 1) True = (n', est', pf', tr')"
      using "1.prems"(3) True by (simp add: trim_item.simps [of budget "word_of_nat b" n])
    ultimately show ?thesis using "1.hyps" [OF True] True by auto
  next
    case False
    then show ?thesis using "1.prems" by (auto simp: trim_item.simps [of budget "word_of_nat b" n])
  qed
qed

definition trimmed_to :: "BatchItem \<Rightarrow> BatchItem \<Rightarrow> bool" where
  "trimmed_to x y \<longleftrightarrow>
     y = x \<or> (it_phase x = Phase_PREFILL \<and> 0 \<le> it_n_tokens y \<and> it_n_tokens y < it_n_tokens x \<and>
              y = x\<lparr>it_n_tokens := it_n_tokens y\<rparr>)"

lemma trimmed_sel: "trimmed_to x y \<Longrightarrow> it_fd y = it_fd x \<and> it_phase y = it_phase x \<and> it_n_tokens y \<le> it_n_tokens x"
proof -
  assume "trimmed_to x y"
  then have "y = x \<or> (it_n_tokens y < it_n_tokens x \<and> y = x\<lparr>it_n_tokens := it_n_tokens y\<rparr>)"
    by (auto simp: trimmed_to_def)
  moreover have "it_fd y = it_fd x \<and> it_phase y = it_phase x" if "y = x\<lparr>it_n_tokens := it_n_tokens y\<rparr>"
    using arg_cong [OF that, of it_fd] arg_cong [OF that, of it_phase] by simp
  ultimately show ?thesis by auto
qed

definition no_prefill_left :: "BatchItem list \<Rightarrow> bool" where
  "no_prefill_left its \<longleftrightarrow> (\<forall>x \<in> set its. it_phase x = Phase_PREFILL \<longrightarrow> it_n_tokens x \<le> 0)"

lemma plan_cost_Cons:
  "plan_cost sessions (x # xs) =
     (case pool_find sessions (it_fd x) of None \<Rightarrow> 0 | Some s \<Rightarrow> item_cost s x) + plan_cost sessions xs"
  by (simp add: plan_cost_def)

lemma plan_cost_rev [simp]: "plan_cost sessions (rev xs) = plan_cost sessions xs"
  by (simp add: plan_cost_def sum_list_rev rev_map [symmetric])

lemma tokens_of_rev [simp]: "tokens_of (rev xs) = tokens_of xs"
  by (simp add: tokens_of_def sum_list_rev rev_map [symmetric])

lemma trim_rev_fits: "est \<le> budget \<Longrightarrow> trim_rev sessions budget its est pf tr = (its, est, pf, tr)"
  by (cases its) (simp_all add: leD)

lemma trim_chunk_spec:
  assumes s: "pool_find sessions (it_fd x) = Some s" and pos: "0 \<le> n_past s"
    and x: "it_phase x = Phase_PREFILL" "0 < it_n_tokens x"
    and est: "est = K + word_of_nat (item_cost s x)"
    and t: "trim_item budget (base_npast sessions (it_fd x)) (it_n_tokens x) est pf tr = (n', est', pf', tr')"
  defines "y \<equiv> x\<lparr>it_n_tokens := n'\<rparr>"
  shows "trimmed_to x y \<and> est' = K + word_of_nat (item_cost s y) \<and> pf' = pf - (it_n_tokens x - n') \<and>
         (tr' \<longleftrightarrow> tr \<or> y \<noteq> x) \<and> (n' = 0 \<or> est' \<le> budget)"
proof -
  define b where "b = nat (n_past s)"
  have base: "base_npast sessions (it_fd x) = word_of_nat b"
    using pos by (simp add: base_npast_def s b_def u64_of_int_nat)
  have cost: "item_cost s x = chunk_cost b (it_n_tokens x)" "item_cost s y = chunk_cost b n'"
    using x by (simp_all add: item_cost_def chunk_cost_def b_def y_def)
  from trim_item_spec [OF _ est [unfolded cost] t [unfolded base]] x
  have sp: "0 \<le> n'" "n' \<le> it_n_tokens x" "est' = K + word_of_nat (item_cost s y)"
    "pf' = pf - (it_n_tokens x - n')" "tr' \<longleftrightarrow> tr \<or> n' < it_n_tokens x" "n' = 0 \<or> est' \<le> budget"
    by (auto simp: cost)
  moreover have "trimmed_to x y" "n' = it_n_tokens x \<longleftrightarrow> y = x"
    using x sp(1,2)
    by (auto simp: y_def trimmed_to_def order_less_le intro: BatchItem.equality dest: arg_cong [of _ _ it_n_tokens])
  ultimately show ?thesis by auto
qed

text \<open>The head of the reversed plan while the estimate is too large: left alone, or cut.\<close>

lemma trim_rev_head:
  assumes big: "est > budget" and tr: "trim_rev sessions budget (x # its) est pf tr = (its', est', pf', tr')"
    and s: "pool_find sessions (it_fd x) = Some s" and pos: "0 \<le> n_past s"
    and est: "est = K + word_of_nat (plan_cost sessions (x # its))"
  obtains y r e1 p1 t1 where "its' = y # r" and "trim_rev sessions budget its e1 p1 t1 = (r, est', pf', tr')" and "trimmed_to x y"
    and "e1 = (K + word_of_nat (item_cost s y)) + word_of_nat (plan_cost sessions its)"
    and "p1 = pf - (it_n_tokens x - it_n_tokens y)" and "t1 \<longleftrightarrow> tr \<or> y \<noteq> x"
    and "it_phase y \<noteq> Phase_PREFILL \<or> it_n_tokens y \<le> 0 \<or> e1 \<le> budget"
proof (cases "it_phase x \<noteq> Phase_PREFILL \<or> it_n_tokens x \<le> 0")
  case True
  obtain r where r: "trim_rev sessions budget its est pf tr = (r, est', pf', tr')" "its' = x # r"
    using tr big True by (auto split: prod.splits)
  have "est = (K + word_of_nat (item_cost s x)) + word_of_nat (plan_cost sessions its)" using est by (simp add: plan_cost_Cons s)
  then show ?thesis using that [OF r(2,1)] True by (auto simp: trimmed_to_def)
next
  case False
  obtain n' e1 p1 t1 where t: "trim_item budget (base_npast sessions (it_fd x)) (it_n_tokens x) est pf tr = (n', e1, p1, t1)"
    by (metis prod_cases4)
  obtain r where r: "trim_rev sessions budget its e1 p1 t1 = (r, est', pf', tr')" "its' = x\<lparr>it_n_tokens := n'\<rparr> # r"
    using tr big False t by (auto split: prod.splits)
  have "est = (K + word_of_nat (plan_cost sessions its)) + word_of_nat (item_cost s x)" using est by (simp add: plan_cost_Cons s)
  from trim_chunk_spec [OF s pos _ _ this t] False show ?thesis by (intro that [OF r(2,1)]) auto
qed

lemma trim_rev_spec:
  assumes "positions_ok sessions" and "\<forall>x \<in> set its. pool_find sessions (it_fd x) \<noteq> None"
    and "est = K + word_of_nat (plan_cost sessions its)"
    and "trim_rev sessions budget its est pf tr = (its', est', pf', tr')"
  shows "list_all2 trimmed_to its its' \<and> est' = K + word_of_nat (plan_cost sessions its') \<and>
         pf' = pf - (tokens_of its - tokens_of its') \<and> (tr' \<longleftrightarrow> tr \<or> its' \<noteq> its) \<and>
         (est' \<le> budget \<or> no_prefill_left its')"
  using assms(2-4)
proof (induction its arbitrary: K est pf tr its')
  case Nil
  then show ?case by (auto simp: no_prefill_left_def)
next
  case (Cons x its)
  obtain s where s: "pool_find sessions (it_fd x) = Some s" using Cons.prems(1) by auto
  have pos: "0 \<le> n_past s" using assms(1) s by (auto simp: positions_ok_def)
  show ?case
  proof (cases "est > budget")
    case False
    then show ?thesis using Cons.prems by (auto simp: list_all2_refl trimmed_to_def)
  next
    case True
    from trim_rev_head [OF True Cons.prems(3) s pos Cons.prems(2)] obtain y r e1 p1 t1 where
      y: "its' = y # r" "trim_rev sessions budget its e1 p1 t1 = (r, est', pf', tr')" "trimmed_to x y"
        "e1 = (K + word_of_nat (item_cost s y)) + word_of_nat (plan_cost sessions its)"
        "p1 = pf - (it_n_tokens x - it_n_tokens y)" "t1 \<longleftrightarrow> tr \<or> y \<noteq> x"
        "it_phase y \<noteq> Phase_PREFILL \<or> it_n_tokens y \<le> 0 \<or> e1 \<le> budget" by blast
    have "e1 \<le> budget \<Longrightarrow> est' = e1" using y(2) trim_rev_fits by auto
    moreover have "pool_find sessions (it_fd y) = Some s" using trimmed_sel [OF y(3)] s by simp
    ultimately show ?thesis using Cons.IH [OF _ y(4,2)] Cons.prems(1) y
      by (auto simp: plan_cost_Cons no_prefill_left_def)
  qed
qed

section \<open>Correctness of the guard\<close>

definition demo_mixed :: Plan where
  "demo_mixed = empty_plan\<lparr>items := [decode_item 3, prefill_item 5 16], decode_tok_count := 1, prefill_tok_count := 16\<rparr>"

lemma demo_positions_ok: "positions_ok demo_pool"
  by (auto simp: positions_ok_def demo_pool_def pool_find_def decoding_def prompting_def new_session_def
      INT_MAX_def split: if_splits)

lemma bmt_trim_spec:
  assumes "positions_ok sessions"
    and "\<forall>it \<in> set (items plan). chunk_ok it \<and> pool_find sessions (it_fd it) \<noteq> None"
    and "bmt_trim sessions budget plan = (plan', est', trimmed)"
  shows "(est' \<le> budget \<or> no_prefill_left (items plan')) \<and>
         est' = estimate_units sessions plan' \<and>
         list_all2 trimmed_to (items plan) (items plan') \<and>
         prefill_tok_count plan' =
           prefill_tok_count plan - (tokens_of (items plan) - tokens_of (items plan')) \<and>
         decode_tok_count plan' = decode_tok_count plan \<and>
         (trimmed \<longleftrightarrow> items plan' \<noteq> items plan)"
proof (cases "estimate_units sessions plan > budget")
  case False
  then show ?thesis using assms(3)
    by (auto simp: bmt_trim_def Let_def list_all2_refl trimmed_to_def)
next
  case True
  obtain its pf' where t: "trim_rev sessions budget (rev (items plan)) (estimate_units sessions plan)
      (prefill_tok_count plan) False = (its, est', pf', trimmed)"
    and p: "plan' = plan\<lparr>items := rev its, prefill_tok_count := pf'\<rparr>"
    using assms(3) True by (auto simp: bmt_trim_def Let_def split: prod.splits)
  have "estimate_units sessions plan = 0 + word_of_nat (plan_cost sessions (rev (items plan)))"
    using estimate_items_cost [OF assms(1), of "items plan" 0] assms(2) by (simp add: estimate_units_def)
  from trim_rev_spec [OF assms(1) _ this t] assms(2)
  have sp: "list_all2 trimmed_to (rev (items plan)) its" "est' = word_of_nat (plan_cost sessions its)"
    "pf' = prefill_tok_count plan - (tokens_of (items plan) - tokens_of its)"
    "trimmed \<longleftrightarrow> its \<noteq> rev (items plan)" "est' \<le> budget \<or> no_prefill_left its"
    by auto
  have rel: "list_all2 trimmed_to (items plan) (rev its)"
    using sp(1) by (metis list_all2_rev rev_rev_ident)
  have "chunk_ok y" if "trimmed_to x y" "chunk_ok x" for x y
    using that by (auto simp: trimmed_to_def chunk_ok_def)
  then have "\<forall>y \<in> set (rev its). chunk_ok y"
    using rel assms(2) by (metis list_all2_in_set2)
  then have "estimate_units sessions plan' = word_of_nat (plan_cost sessions its)"
    using estimate_items_cost [OF assms(1), of "rev its" 0] by (simp add: estimate_units_def p)
  then show ?thesis using sp rel by (auto simp: p no_prefill_left_def rev_swap)
qed

text \<open>
  The guard does not starve a tick: of prompt chunks that start at position 0 it always leaves a token, which costs
  one unit.
\<close>

definition fresh_chunk :: "SessionPool \<Rightarrow> BatchItem \<Rightarrow> bool" where
  "fresh_chunk sessions x \<longleftrightarrow>
     it_phase x = Phase_PREFILL \<and> 0 < it_n_tokens x \<and>
     (case pool_find sessions (it_fd x) of None \<Rightarrow> False | Some s \<Rightarrow> n_past s = 0)"

lemma trim_item_leaves_one:
  assumes "1 \<le> budget" and "1 \<le> n" and "est = word_of_nat (chunk_cost 0 n)" and "trim_item budget 0 n est pf tr = (n', r)"
  shows "1 \<le> n'"
  using assms(2-4)
proof (induction "nat n" arbitrary: n est pf tr)
  case (Suc k)
  show ?case
  proof (cases "est > budget")
    case False
    then show ?thesis using Suc.prems(1,3) by (auto simp: trim_item.simps [of budget 0 n])
  next
    case True
    have "n \<noteq> 1"
    proof
      assume "n = 1"
      then have "est = 1" using Suc.prems(2) by (simp add: chunk_cost_def)
      then show False using True assms(1) by (simp add: leD)
    qed
    then have n: "1 \<le> n - 1" "k = nat (n - 1)" using Suc.prems(1) Suc.hyps(2) by simp_all
    have "est - (0 + u64_of_int n) = word_of_nat (chunk_cost 0 (n - 1))"
      using Suc.prems(1,2) by (simp add: chunk_cost_step [of n] u64_of_int_nat)
    moreover have "trim_item budget 0 (n - 1) (est - (0 + u64_of_int n)) (pf - 1) True = (n', r)"
      using Suc.prems(1,3) True by (simp add: trim_item.simps [of budget 0 n])
    ultimately show ?thesis by (rule Suc.hyps(1) [OF n(2,1)])
  qed
qed simp

lemma trim_rev_leaves_one:
  assumes "1 \<le> budget" and "its \<noteq> []" and "\<forall>x \<in> set its. fresh_chunk sessions x"
    and "est = word_of_nat (plan_cost sessions its)" and "trim_rev sessions budget its est pf tr = (its', r)"
  shows "\<exists>y \<in> set its'. 0 < it_n_tokens y"
  using assms(2-5)
proof (induction its arbitrary: est pf tr its')
  case (Cons x its)
  obtain s where s: "pool_find sessions (it_fd x) = Some s" "n_past s = 0" and x: "it_phase x = Phase_PREFILL" "0 < it_n_tokens x"
    using Cons.prems(2) by (auto simp: fresh_chunk_def split: option.splits)
  show ?case
  proof (cases "est > budget")
    case False
    then show ?thesis using Cons.prems(4) x by auto
  next
    case True
    obtain n' e1 p1 t1 where t: "trim_item budget (base_npast sessions (it_fd x)) (it_n_tokens x) est pf tr = (n', e1, p1, t1)"
      by (metis prod_cases4)
    obtain its1 where r: "trim_rev sessions budget its e1 p1 t1 = (its1, r)" "its' = x\<lparr>it_n_tokens := n'\<rparr> # its1"
      using Cons.prems(4) True x t by (auto split: prod.splits)
    have est: "est = word_of_nat (plan_cost sessions its) + word_of_nat (item_cost s x)"
      using Cons.prems(3) by (simp add: plan_cost_Cons s)
    have cost: "item_cost s (x\<lparr>it_n_tokens := n\<rparr>) = chunk_cost 0 n" for n using x s(2) by (simp add: item_cost_def chunk_cost_def)
    note sp = trim_chunk_spec [OF s(1) _ x est t]
    consider "0 < n'" | "n' \<le> 0" "its = []" | "n' \<le> 0" "its \<noteq> []" by fastforce
    then show ?thesis
    proof cases
      case 2
      have e: "est = word_of_nat (chunk_cost 0 (it_n_tokens x))"
        using est 2 x s(2) by (simp add: plan_cost_def item_cost_def chunk_cost_def)
      have i: "trim_item budget 0 (it_n_tokens x) est pf tr = (n', e1, p1, t1)" using t by (simp add: base_npast_def s u64_of_int_def)
      have "1 \<le> n'" by (rule trim_item_leaves_one [OF assms(1) _ e i]) (use x(2) in simp)
      then show ?thesis using 2 by simp
    next
      case 3
      have "e1 = word_of_nat (plan_cost sessions its)" using sp s(2) 3(1) by (simp add: cost) (simp add: chunk_cost_def)
      from Cons.IH [OF 3(2) _ this r(1)] Cons.prems(2) show ?thesis by (simp add: r(2))
    qed (simp add: r(2))
  qed
qed simp

lemma bmt_trim_leaves_one:
  assumes "positions_ok sessions" and "1 \<le> budget" and "items plan \<noteq> []" and "\<forall>x \<in> set (items plan). fresh_chunk sessions x \<and> chunk_ok x"
    and "bmt_trim sessions budget plan = (plan', est', trimmed)"
  shows "\<exists>y \<in> set (items plan'). 0 < it_n_tokens y"
proof (cases "estimate_units sessions plan > budget")
  case False
  then have "items plan' = items plan" using assms(5) by (auto simp: bmt_trim_def Let_def)
  then show ?thesis using assms(3,4) by (cases "items plan") (auto simp: fresh_chunk_def)
next
  case True
  obtain its r where t: "trim_rev sessions budget (rev (items plan)) (estimate_units sessions plan) (prefill_tok_count plan) False = (its, r)"
    and p: "items plan' = rev its"
    using assms(5) True by (auto simp: bmt_trim_def Let_def split: prod.splits)
  have "estimate_units sessions plan = word_of_nat (plan_cost sessions (rev (items plan)))"
    using estimate_items_cost [OF assms(1), of "items plan" 0] assms(4) by (simp add: estimate_units_def)
  from trim_rev_leaves_one [OF assms(2) _ _ this t] assms(3,4) show ?thesis by (simp add: p)
qed

text \<open>
  C28. The estimator computes the attention cost of a plan: the sum over its tokens of the
  number of positions each attends to, modulo 64 bits (so exactly, whenever that sum is below
  \<open>2^64\<close>), for all session positions and chunk sizes that fit an \<open>int32_t\<close>.
\<close>

theorem estimate_units_correct:
  assumes "positions_ok sessions" and "\<forall>it \<in> set (items plan). chunk_ok it"
  shows "unat (estimate_units sessions plan) = plan_cost sessions (items plan) mod 2 ^ 64"
  using estimate_items_cost [OF assms, of 0] by (simp add: estimate_units_def unat_of_nat)

theorem estimate_units_correct_witness:
  "unat (estimate_units demo_pool demo_mixed) = plan_cost demo_pool (items demo_mixed) mod 2 ^ 64"
  by (rule estimate_units_correct [OF demo_positions_ok]) (simp add: demo_mixed_def chunk_ok_def INT_MAX_def)

text \<open>
  C19. The guard: after trimming, the plan's estimate fits the budget or no prompt token is left
  in it; the estimate the guard publishes is the estimate of the trimmed plan; decode items are
  untouched, prompt items only shrink and keep their place, and the plan's prompt counter is
  reduced by exactly the tokens removed.
\<close>

theorem bmt_trim_correct:
  assumes "positions_ok sessions"
    and "\<forall>it \<in> set (items plan). chunk_ok it \<and> pool_find sessions (it_fd it) \<noteq> None"
    and "bmt_trim sessions budget plan = (plan', est', trimmed)"
  shows "(est' \<le> budget \<or> no_prefill_left (items plan')) \<and>
         est' = estimate_units sessions plan' \<and>
         list_all2 trimmed_to (items plan) (items plan') \<and>
         prefill_tok_count plan' =
           prefill_tok_count plan - (tokens_of (items plan) - tokens_of (items plan')) \<and>
         decode_tok_count plan' = decode_tok_count plan \<and>
         (trimmed \<longleftrightarrow> items plan' \<noteq> items plan)"
  by (rule bmt_trim_spec [OF assms])

theorem bmt_trim_correct_witness:
  "\<exists>plan' est' trimmed. bmt_trim demo_pool 20 demo_mixed = (plan', est', trimmed) \<and>
     (est' \<le> 20 \<or> no_prefill_left (items plan')) \<and> est' = estimate_units demo_pool plan'"
proof -
  obtain plan' est' trimmed where r: "bmt_trim demo_pool 20 demo_mixed = (plan', est', trimmed)"
    by (metis prod_cases3)
  have "\<forall>it \<in> set (items demo_mixed). chunk_ok it \<and> pool_find demo_pool (it_fd it) \<noteq> None"
    by (simp add: demo_mixed_def chunk_ok_def INT_MAX_def demo_pool_facts)
  from bmt_trim_correct [OF demo_positions_ok this r] r show ?thesis by blast
qed

end
