(* ===== verification/Sampling.thy ===== *)
theory Sampling
  imports Floats "HOL-Library.Multiset"
begin

text \<open>
  Token sampling, \<open>src/src/sched/sampling.{h,cpp}\<close>: \<open>TopPSampler::sample\<close> with its greedy
  branch, the temperature-scaled softmax over the \<open>top_k\<close> largest logits, the nucleus cut
  and the draw, all in single precision. \<open>std::partial_sort\<close> leaves the order of equal
  elements and of the tail open, so it is a parameter with the standard's guarantee as its
  interface (a locale, interpreted on an insertion sort): it sorts when the comparison is a strict
  weak order, and nothing is known of it otherwise. The comparison of logits is one exactly when
  NaN does not stand among other numbers, so the theorems about sorted logits exclude NaN. The
  draw from \<open>std::mt19937\<close>, seeded by \<open>std::random_device\<close>, is a parameter too.
\<close>

record SamplingParams =
  sp_temperature :: fl
  sp_top_p :: fl
  sp_top_k :: int

section \<open>std::partial\_sort\<close>

type_synonym psort = "(nat \<Rightarrow> nat \<Rightarrow> bool) \<Rightarrow> nat \<Rightarrow> nat list \<Rightarrow> nat list"

definition strict_weak_on :: "nat set \<Rightarrow> (nat \<Rightarrow> nat \<Rightarrow> bool) \<Rightarrow> bool" where
  "strict_weak_on A lt \<longleftrightarrow>
     (\<forall>a \<in> A. \<not> lt a a) \<and>
     (\<forall>a \<in> A. \<forall>b \<in> A. \<forall>c \<in> A. lt a b \<longrightarrow> lt b c \<longrightarrow> lt a c) \<and>
     (\<forall>a \<in> A. \<forall>b \<in> A. \<forall>c \<in> A. \<not> lt a b \<longrightarrow> \<not> lt b c \<longrightarrow> \<not> lt a c)"

lemma strict_weak_asym: "strict_weak_on A lt \<Longrightarrow> a \<in> A \<Longrightarrow> b \<in> A \<Longrightarrow> lt a b \<Longrightarrow> \<not> lt b a"
  unfolding strict_weak_on_def by blast

lemma strict_weak_irrefl: "strict_weak_on A lt \<Longrightarrow> a \<in> A \<Longrightarrow> \<not> lt a a"
  unfolding strict_weak_on_def by blast

lemma strict_weak_not_trans:
  "strict_weak_on A lt \<Longrightarrow> a \<in> A \<Longrightarrow> b \<in> A \<Longrightarrow> c \<in> A \<Longrightarrow> \<not> lt a b \<Longrightarrow> \<not> lt b c \<Longrightarrow> \<not> lt a c"
  unfolding strict_weak_on_def by blast

locale partial_sort =
  fixes psort :: psort
  assumes psort_mset: "strict_weak_on (set xs) lt \<Longrightarrow> k \<le> length xs \<Longrightarrow> mset (psort lt k xs) = mset xs"
    and psort_front: "strict_weak_on (set xs) lt \<Longrightarrow> k \<le> length xs \<Longrightarrow>
          i < j \<Longrightarrow> j < length xs \<Longrightarrow> i < k \<Longrightarrow> \<not> lt (psort lt k xs ! j) (psort lt k xs ! i)"

section \<open>TopPSampler::sample\<close>

fun greedy_loop :: "fl list \<Rightarrow> nat list \<Rightarrow> nat \<Rightarrow> fl \<Rightarrow> nat" where
  "greedy_loop logits [] best_id bestv = best_id"
| "greedy_loop logits (i # is) best_id bestv =
     (if fless bestv (logits ! i) then greedy_loop logits is i (logits ! i)
      else greedy_loop logits is best_id bestv)"

fun nucleus_cut :: "fl \<Rightarrow> fl list \<Rightarrow> fl \<Rightarrow> nat \<Rightarrow> nat" where
  "nucleus_cut p [] c n_cut = n_cut"
| "nucleus_cut p (q # qs) c n_cut =
     (let c' = fadd f32 c q in if fle p c' then n_cut + 1 else nucleus_cut p qs c' (n_cut + 1))"

fun draw_loop :: "fl \<Rightarrow> (nat \<times> fl) list \<Rightarrow> fl \<Rightarrow> nat option" where
  "draw_loop r [] acc = None"
| "draw_loop r ((t, q) # rest) acc =
     (let acc' = fadd f32 acc q in if fle r acc' \<or> rest = [] then Some t else draw_loop r rest acc')"

text \<open>The top-p cut, the renormalisation of the kept prefix and the draw.\<close>

definition kept_prefix :: "fl \<Rightarrow> fl list \<Rightarrow> nat" where
  "kept_prefix top_p probs =
     (let top = fmin (fmax top_p (Fin 0)) (Fin 1) in
        if fless top (fround f32 (9999 / 10000))
        then max 1 (nucleus_cut top probs (Fin 0) 0)
        else length probs)"

definition draw :: "('r \<Rightarrow> fl \<times> 'r) \<Rightarrow> nat list \<Rightarrow> fl \<Rightarrow> fl list \<Rightarrow> 'r \<Rightarrow> int \<times> 'r" where
  "draw uni idx top_p probs rng =
     (let kept = take (kept_prefix top_p probs) probs;
          csum = foldl (fadd f32) (Fin 0) kept;
          (r, rng') = uni rng
      in case draw_loop r (zip idx (map (\<lambda>q. fdiv f32 q csum) kept)) (Fin 0) of
           Some t \<Rightarrow> (int t, rng')
         | None \<Rightarrow> (int (idx ! 0), rng'))"

definition use_count :: "SamplingParams \<Rightarrow> int \<Rightarrow> nat" where
  "use_count p n_vocab =
     nat (if sp_top_k p > 0 \<and> sp_top_k p < n_vocab then sp_top_k p else n_vocab)"

definition sorted_idx :: "psort \<Rightarrow> fl list \<Rightarrow> int \<Rightarrow> SamplingParams \<Rightarrow> nat list" where
  "sorted_idx psort logits n_vocab p =
     psort (\<lambda>a b. fless (logits ! b) (logits ! a)) (use_count p n_vocab) [0..<nat n_vocab]"

text \<open>The sort rearranges the token ids when it is given these logits, whatever order it makes of them.\<close>

definition sortable :: "psort \<Rightarrow> fl list \<Rightarrow> nat \<Rightarrow> bool" where
  "sortable psort logits n \<longleftrightarrow> (\<forall>k \<le> n. mset (psort (\<lambda>a b. fless (logits ! b) (logits ! a)) k [0..<n]) = mset [0..<n])"

definition sample :: "platform \<Rightarrow> psort \<Rightarrow> ('r \<Rightarrow> fl \<times> 'r) \<Rightarrow> fl list \<Rightarrow> int \<Rightarrow> SamplingParams \<Rightarrow> 'r \<Rightarrow> int \<times> 'r" where
  "sample P psort uni logits n_vocab p rng =
     (if n_vocab \<le> 0 then (0, rng)
      else if fle (sp_temperature p) (Fin 0) then
        (int (greedy_loop logits [1..<nat n_vocab] 0 (logits ! 0)), rng)
      else
        let idx = sorted_idx psort logits n_vocab p;
            inv_t = fdiv f32 (Fin 1) (sp_temperature p);
            scaled = map (\<lambda>i. fmul f32 (logits ! i) inv_t) (take (use_count p n_vocab) idx);
            max_logit = foldl fmax NInf scaled;
            vs = map (\<lambda>x. expf P (fsub f32 x max_logit)) scaled;
            sm = foldl (fadd f32) (Fin 0) vs
        in if fle sm (Fin 0) \<or> \<not> is_finite sm then (int (idx ! 0), rng)
           else draw uni idx (sp_top_p p) (map (\<lambda>v. fdiv f32 v sm) vs) rng)"

section \<open>The sampled token\<close>

lemma greedy_loop_in: "greedy_loop logits is b v \<in> insert b (set is)"
  by (induction "is" arbitrary: b v) (auto split: if_splits)

lemma draw_loop_in: "draw_loop r xs acc = Some t \<Longrightarrow> t \<in> fst ` set xs"
  by (induction xs arbitrary: acc) (force simp: Let_def split: if_splits)+

lemma draw_in_prefix:
  assumes "0 < length probs" and "length probs \<le> length idx"
  shows "\<exists>i < length probs. fst (draw uni idx top_p probs rng) = int (idx ! i)"
proof -
  define kept where "kept = take (kept_prefix top_p probs) probs"
  define ws where "ws = map (\<lambda>q. fdiv f32 q (foldl (fadd f32) (Fin 0) kept)) kept"
  obtain r rng' where u: "uni rng = (r, rng')" by fastforce
  have len: "length ws \<le> length probs" by (simp add: ws_def kept_def)
  have eq: "fst (draw uni idx top_p probs rng) =
      (case draw_loop r (zip idx ws) (Fin 0) of Some t \<Rightarrow> int t | None \<Rightarrow> int (idx ! 0))"
    by (simp add: draw_def Let_def u kept_def [symmetric] ws_def split: option.split)
  show ?thesis
  proof (cases "draw_loop r (zip idx ws) (Fin 0)")
    case None
    then show ?thesis using eq assms by auto
  next
    case (Some t)
    from draw_loop_in [OF this] obtain i where "i < length (zip idx ws)" "t = fst (zip idx ws ! i)"
      by (metis imageE in_set_conv_nth)
    then show ?thesis using eq Some len by (intro exI [of _ i]) simp
  qed
qed

lemma mset_sorted_idx: "sortable psort logits (nat n_vocab) \<Longrightarrow> mset (sorted_idx psort logits n_vocab p) = mset [0..<nat n_vocab]"
  by (auto simp: sorted_idx_def sortable_def use_count_def)

lemma length_sorted_idx: "sortable psort logits (nat n_vocab) \<Longrightarrow> length (sorted_idx psort logits n_vocab p) = nat n_vocab"
  using mset_eq_length [OF mset_sorted_idx] by simp

lemma set_sorted_idx: "sortable psort logits (nat n_vocab) \<Longrightarrow> set (sorted_idx psort logits n_vocab p) = {0..<nat n_vocab}"
  using mset_eq_setD [OF mset_sorted_idx] by simp

text \<open>Every token comes from the sorted prefix the source allows.\<close>

lemma sample_from_prefix:
  assumes "0 < n_vocab" and "\<not> fle (sp_temperature p) (Fin 0)" and "sortable psort logits (nat n_vocab)"
  shows "\<exists>i < use_count p n_vocab.
     fst (sample P psort uni logits n_vocab p rng) = int (sorted_idx psort logits n_vocab p ! i)"
proof -
  let ?n = "use_count p n_vocab" and ?idx = "sorted_idx psort logits n_vocab p"
  have pos: "0 < ?n" "?n \<le> length ?idx"
    using assms(1) by (auto simp: use_count_def length_sorted_idx [OF assms(3)])
  have lift: "\<exists>i < ?n. fst (draw uni ?idx (sp_top_p p) probs rng) = int (?idx ! i)"
    if "length probs = ?n" for probs
    using draw_in_prefix [of probs ?idx] pos that by simp
  have "fst (sample P psort uni logits n_vocab p rng) = int (?idx ! 0) \<or>
    (\<exists>probs. length probs = ?n \<and>
       sample P psort uni logits n_vocab p rng = draw uni ?idx (sp_top_p p) probs rng)"
    using assms(1,2) pos(2)
    by (simp add: sample_def Let_def) (intro impI disjI2 exI conjI [rotated], rule refl, simp)
  then show ?thesis using lift pos(1) by metis
qed

lemma sample_bounded:
  assumes "0 < n_vocab" and "fle (sp_temperature p) (Fin 0) \<or> sortable psort logits (nat n_vocab)"
  shows "0 \<le> fst (sample P psort uni logits n_vocab p rng) \<and>
         fst (sample P psort uni logits n_vocab p rng) < n_vocab"
proof (cases "fle (sp_temperature p) (Fin 0)")
  case True
  have "greedy_loop logits [1..<nat n_vocab] 0 (logits ! 0) < nat n_vocab"
    using greedy_loop_in [of logits "[1..<nat n_vocab]" 0 "logits ! 0"] assms(1) by auto
  then show ?thesis using True assms(1) by (simp add: sample_def)
next
  case False
  let ?idx = "sorted_idx psort logits n_vocab p"
  have sorts: "sortable psort logits (nat n_vocab)" using assms(2) False by simp
  obtain i where i: "i < use_count p n_vocab"
    "fst (sample P psort uni logits n_vocab p rng) = int (?idx ! i)"
    using sample_from_prefix [OF assms(1) False sorts] by metis
  have "use_count p n_vocab \<le> length ?idx" using assms(1) by (auto simp: use_count_def length_sorted_idx [OF sorts])
  then have "?idx ! i \<in> set ?idx" using i(1) by simp
  then have "?idx ! i < nat n_vocab" by (simp add: set_sorted_idx [OF sorts])
  then show ?thesis using i(2) by simp
qed

context partial_sort
begin

lemma sortable_ordered: "strict_weak_on {0..<n} (\<lambda>a b. fless (logits ! b) (logits ! a)) \<Longrightarrow> sortable psort logits n"
  by (simp add: sortable_def psort_mset)

lemma sample_among_largest:
  assumes "0 < sp_top_k p" and "sp_top_k p < n_vocab" and "\<not> fle (sp_temperature p) (Fin 0)"
    and swo: "strict_weak_on {0..<nat n_vocab} (\<lambda>a b. fless (logits ! b) (logits ! a))"
  shows "card {j. j < nat n_vocab \<and>
      fless (logits ! nat (fst (sample P psort uni logits n_vocab p rng))) (logits ! j)} < nat (sp_top_k p)"
proof -
  let ?lt = "\<lambda>a b. fless (logits ! b) (logits ! a)" and ?k = "nat (sp_top_k p)"
  define idx where "idx = sorted_idx psort logits n_vocab p"
  have k: "use_count p n_vocab = ?k" using assms by (simp add: use_count_def)
  have sorts: "sortable psort logits (nat n_vocab)" by (rule sortable_ordered [OF swo])
  have "0 < n_vocab" using assms by simp
  from sample_from_prefix [OF this assms(3) sorts]
  obtain i where i: "i < ?k" "fst (sample P psort uni logits n_vocab p rng) = int (idx ! i)"
    unfolding k idx_def by metis
  have len: "length idx = nat n_vocab" and set: "set idx = {0..<nat n_vocab}"
    by (simp_all add: idx_def length_sorted_idx [OF sorts] set_sorted_idx [OF sorts])
  have "{j. j < nat n_vocab \<and> ?lt j (idx ! i)} \<subseteq> (!) idx ` {0..<i}"
  proof
    fix j assume "j \<in> {j. j < nat n_vocab \<and> ?lt j (idx ! i)}"
    then have j: "j \<in> set idx" "?lt j (idx ! i)" by (auto simp: set)
    then obtain m where m: "m < length idx" "j = idx ! m" by (auto simp: in_set_conv_nth)
    have "\<not> i < m"
    proof
      assume "i < m"
      then have "\<not> ?lt (psort ?lt ?k [0..<nat n_vocab] ! m) (psort ?lt ?k [0..<nat n_vocab] ! i)"
        using swo i(1) m(1) assms(1,2) len by (intro psort_front) simp_all
      then show False using j(2) m(2) by (simp add: idx_def sorted_idx_def k)
    qed
    moreover have "m \<noteq> i"
      using j m strict_weak_irrefl [OF swo] by (metis set)
    ultimately show "j \<in> (!) idx ` {0..<i}" using m by auto
  qed
  then have "card {j. j < nat n_vocab \<and> ?lt j (idx ! i)} \<le> card {0..<i}"
    by (meson card_image_le card_mono finite_atLeastLessThan finite_imageI le_trans)
  then show ?thesis using i by simp
qed

end

section \<open>A reference sort\<close>

fun insert_by :: "(nat \<Rightarrow> nat \<Rightarrow> bool) \<Rightarrow> nat \<Rightarrow> nat list \<Rightarrow> nat list" where
  "insert_by lt x [] = [x]"
| "insert_by lt x (y # ys) = (if lt y x then y # insert_by lt x ys else x # y # ys)"

definition full_sort :: psort where
  "full_sort lt k xs = foldr (insert_by lt) xs []"

lemma mset_insert_by: "mset (insert_by lt x ys) = add_mset x (mset ys)"
  by (induction ys) auto

lemma mset_full_sort: "mset (full_sort lt k xs) = mset xs"
  by (induction xs) (simp_all add: full_sort_def mset_insert_by)

lemma sortable_full [simp]: "sortable full_sort logits n"
  by (simp add: sortable_def mset_full_sort)

lemma set_insert_by: "set (insert_by lt x ys) = insert x (set ys)"
  by (induction ys) auto

lemma sorted_insert_by:
  assumes "strict_weak_on A lt" and "insert x (set ys) \<subseteq> A" and "sorted_wrt (\<lambda>a b. \<not> lt b a) ys"
  shows "sorted_wrt (\<lambda>a b. \<not> lt b a) (insert_by lt x ys)"
  using assms(2,3)
proof (induction ys)
  case (Cons y ys)
  show ?case
  proof (cases "lt y x")
    case True
    have "\<not> lt x y" using strict_weak_asym [OF assms(1)] True Cons.prems(1) by simp
    then show ?thesis using True Cons by (auto simp: set_insert_by)
  next
    case False
    have "\<not> lt z x" if z: "z \<in> set ys" for z
    proof -
      have "\<not> lt z y" "z \<in> A" "y \<in> A" "x \<in> A" using z Cons.prems by auto
      then show ?thesis using False strict_weak_not_trans [OF assms(1), of z y x] by simp
    qed
    then show ?thesis using False Cons.prems by auto
  qed
qed simp

lemma set_foldr_insert_by: "set (foldr (insert_by lt) ys []) = set ys"
  by (induction ys) (simp_all add: set_insert_by)

lemma sorted_full_sort:
  assumes "strict_weak_on (set xs) lt"
  shows "sorted_wrt (\<lambda>a b. \<not> lt b a) (full_sort lt k xs)"
proof -
  have "sorted_wrt (\<lambda>a b. \<not> lt b a) (foldr (insert_by lt) ys [])" if "set ys \<subseteq> set xs" for ys
    using that
  proof (induction ys)
    case (Cons y ys)
    have "insert y (set (foldr (insert_by lt) ys [])) \<subseteq> set xs"
      using Cons.prems by (simp add: set_foldr_insert_by)
    then show ?case using sorted_insert_by [OF assms] Cons by simp
  qed simp
  then show ?thesis by (simp add: full_sort_def)
qed

interpretation full: partial_sort full_sort
proof unfold_locales
  fix lt k xs i j
  show "mset (full_sort lt k xs) = mset xs" by (rule mset_full_sort)
  assume "strict_weak_on (set xs) lt" "i < j" "j < length xs"
  then show "\<not> lt (full_sort lt k xs ! j) (full_sort lt k xs ! i)"
    using sorted_full_sort sorted_wrt_nth_less mset_full_sort by (metis size_mset)
qed

section \<open>Correctness of the sampler\<close>

lemma fless_strict_weak:
  assumes "\<forall>i < n. logits ! i \<noteq> NaN"
  shows "strict_weak_on {0..<n} (\<lambda>a b. fless (logits ! b) (logits ! a))"
proof -
  have irr: "\<not> fless a a" for a by (cases a) auto
  have tr: "fless a b \<Longrightarrow> fless b c \<Longrightarrow> fless a c" for a b c
    by (cases a; cases b; cases c) auto
  have ntr: "a \<noteq> NaN \<Longrightarrow> b \<noteq> NaN \<Longrightarrow> c \<noteq> NaN \<Longrightarrow> \<not> fless a b \<Longrightarrow> \<not> fless b c \<Longrightarrow> \<not> fless a c" for a b c
    by (cases a; cases b; cases c) auto
  have nan: "logits ! i \<noteq> NaN" if "i \<in> {0..<n}" for i using assms that by simp
  show ?thesis unfolding strict_weak_on_def
  proof (intro conjI ballI impI)
    fix a b c
    assume abc: "a \<in> {0..<n}" "b \<in> {0..<n}" "c \<in> {0..<n}"
      and "\<not> fless (logits ! b) (logits ! a)" "\<not> fless (logits ! c) (logits ! b)"
    then show "\<not> fless (logits ! c) (logits ! a)" using ntr [OF nan nan nan] by blast
  qed (use irr tr in blast)+
qed

lemma fless_trans_not:
  "x \<noteq> NaN \<Longrightarrow> y \<noteq> NaN \<Longrightarrow> z \<noteq> NaN \<Longrightarrow> \<not> fless y x \<Longrightarrow> fless y z \<Longrightarrow> fless x z"
  by (cases x; cases y; cases z) auto

text \<open>The loop of the greedy branch keeps the first index of the largest logit so far.\<close>

definition first_max :: "fl list \<Rightarrow> nat \<Rightarrow> nat \<Rightarrow> bool" where
  "first_max logits i b \<longleftrightarrow>
     b < i \<and> (\<forall>j < i. \<not> fless (logits ! b) (logits ! j)) \<and> (\<forall>j < b. fless (logits ! j) (logits ! b))"

lemma first_max_step:
  assumes "first_max logits i b" and "\<forall>j \<le> i. logits ! j \<noteq> NaN"
  shows "first_max logits (Suc i) (if fless (logits ! b) (logits ! i) then i else b)"
proof (cases "fless (logits ! b) (logits ! i)")
  case True
  have "fless (logits ! j) (logits ! i)" if "j < i" for j
    using fless_trans_not [of "logits ! j" "logits ! b" "logits ! i"] assms that True
    by (simp add: first_max_def)
  moreover have "\<not> fless x x" for x by (cases x) auto
  moreover have "fless x y \<Longrightarrow> \<not> fless y x" for x y by (cases x; cases y) auto
  ultimately show ?thesis using True by (simp add: first_max_def less_Suc_eq_le le_less)
next
  case False
  then show ?thesis using assms by (simp add: first_max_def less_Suc_eq)
qed

lemma greedy_loop_first_max:
  assumes "first_max logits i b" and "i \<le> n" and "\<forall>j < n. logits ! j \<noteq> NaN"
  shows "first_max logits n (greedy_loop logits [i..<n] b (logits ! b))"
  using assms
proof (induction "n - i" arbitrary: i b)
  case 0
  then show ?case by simp
next
  case (Suc d)
  let ?b = "if fless (logits ! b) (logits ! i) then i else b"
  have "first_max logits (Suc i) ?b" using first_max_step [of logits i b] Suc by simp
  then have "first_max logits n (greedy_loop logits [Suc i..<n] ?b (logits ! ?b))"
    using Suc by (intro Suc.hyps(1)) simp_all
  moreover have "[i..<n] = i # [Suc i..<n]" using Suc by (simp add: upt_conv_Cons)
  ultimately show ?case by (simp split: if_splits)
qed

text \<open>The nucleus loop stops at the first prefix whose running sum reaches the threshold.\<close>

definition run_sum :: "fl \<Rightarrow> fl list \<Rightarrow> nat \<Rightarrow> fl" where
  "run_sum c qs k = foldl (fadd f32) c (take k qs)"

lemma nucleus_cut_spec:
  fixes p :: fl and qs :: "fl list" and c :: fl and n :: nat
  defines "k \<equiv> nucleus_cut p qs c n - n"
  shows "n \<le> nucleus_cut p qs c n \<and> (qs \<noteq> [] \<longrightarrow> 0 < k) \<and> k \<le> length qs \<and>
     (k < length qs \<longrightarrow> fle p (run_sum c qs k)) \<and> (\<forall>j. 0 < j \<and> j < k \<longrightarrow> \<not> fle p (run_sum c qs j))"
  unfolding k_def
proof (induction qs arbitrary: c n)
  case (Cons q qs)
  let ?c = "fadd f32 c q"
  let ?k = "nucleus_cut p qs ?c (Suc n)"
  show ?case
  proof (cases "fle p ?c")
    case True
    then show ?thesis by (simp add: run_sum_def Let_def)
  next
    case False
    have eq: "nucleus_cut p (q # qs) c n = ?k" using False by (simp add: Let_def)
    have IH: "Suc n \<le> ?k" "?k - Suc n \<le> length qs"
      "?k - Suc n < length qs \<longrightarrow> fle p (run_sum ?c qs (?k - Suc n))"
      "\<forall>j. 0 < j \<and> j < ?k - Suc n \<longrightarrow> \<not> fle p (run_sum ?c qs j)"
      using Cons.IH [of "Suc n" ?c] by blast+
    have shift: "run_sum c (q # qs) (Suc j) = run_sum ?c qs j" for j by (simp add: run_sum_def)
    have d: "?k - n = Suc (?k - Suc n)" using IH(1) by simp
    have "\<not> fle p (run_sum c (q # qs) j)" if "0 < j" "j < ?k - n" for j
    proof (cases j)
      case (Suc m)
      then show ?thesis using that d shift IH(4) False
        by (cases m) (simp_all add: run_sum_def)
    qed (use that in simp)
    moreover have "?k - n < length (q # qs) \<longrightarrow> fle p (run_sum c (q # qs) (?k - n))"
      using IH(3) by (simp only: d shift) simp
    ultimately show ?thesis using IH(1,2) unfolding eq by auto
  qed
qed simp

section \<open>The properties of the sampler\<close>

text \<open>A concrete sampler for the examples: a constant exponential and a constant draw.\<close>

definition demo_platform :: platform where
  "demo_platform = \<lparr>oob = (\<lambda>_. 0), expf = (\<lambda>_. Fin 1)\<rparr>"

definition demo_uniform :: "nat \<Rightarrow> fl \<times> nat" where
  "demo_uniform r = (Fin (1 / 2), r + 1)"

definition demo_logits :: "fl list" where
  "demo_logits = [Fin 1, Fin 3, Fin 2]"

lemma demo_logits_not_nan: "i < 3 \<Longrightarrow> demo_logits ! i \<noteq> NaN"
  by (auto simp: demo_logits_def less_Suc_eq numeral_3_eq_3)

text \<open>C25. The sampler returns a token id of the vocabulary: for every logit vector without a NaN,
  infinities included, every temperature, \<open>top_p\<close> and \<open>top_k\<close>, NaN included, every exponential and
  every draw; and in the greedy branch for every logit vector, NaN included. With a NaN among the
  logits the sorting branch has no guarantee, since the comparison is then no strict weak order.\<close>

theorem sample_in_vocabulary:
  assumes "partial_sort psort" and "0 < n_vocab"
    and "fle (sp_temperature p) (Fin 0) \<or> (\<forall>i < nat n_vocab. logits ! i \<noteq> NaN)"
  shows "0 \<le> fst (sample P psort uni logits n_vocab p rng) \<and>
         fst (sample P psort uni logits n_vocab p rng) < n_vocab"
proof (rule sample_bounded [OF assms(2)])
  show "fle (sp_temperature p) (Fin 0) \<or> sortable psort logits (nat n_vocab)"
    using assms(3) partial_sort.sortable_ordered [OF assms(1) fless_strict_weak] by blast
qed

theorem sample_in_vocabulary_witness:
  "0 \<le> fst (sample demo_platform full_sort demo_uniform demo_logits 3 \<lparr>sp_temperature = Fin 1, sp_top_p = NaN, sp_top_k = 2\<rparr> 0) \<and>
   fst (sample demo_platform full_sort demo_uniform demo_logits 3 \<lparr>sp_temperature = Fin 1, sp_top_p = NaN, sp_top_k = 2\<rparr> 0) < 3"
  by (rule sample_in_vocabulary [OF full.partial_sort_axioms]) (simp_all add: demo_logits_not_nan)

text \<open>C39. Top-k: with a positive temperature and \<open>top_k\<close> below the vocabulary size, fewer
  than \<open>top_k\<close> tokens have a strictly larger logit than the sampled one.\<close>

theorem sample_within_top_k:
  assumes "partial_sort psort" and "0 < sp_top_k p" and "sp_top_k p < n_vocab"
    and "\<not> fle (sp_temperature p) (Fin 0)" and "\<forall>i < nat n_vocab. logits ! i \<noteq> NaN"
  shows "card {j. j < nat n_vocab \<and>
      fless (logits ! nat (fst (sample P psort uni logits n_vocab p rng))) (logits ! j)} < nat (sp_top_k p)"
  by (rule partial_sort.sample_among_largest [OF assms(1-4) fless_strict_weak [OF assms(5)]])

theorem sample_within_top_k_witness:
  "card {j. j < 3 \<and> fless (demo_logits ! nat (fst (sample demo_platform full_sort demo_uniform demo_logits 3
      \<lparr>sp_temperature = Fin 1, sp_top_p = Fin 1, sp_top_k = 2\<rparr> 0))) (demo_logits ! j)} < 2"
  using sample_within_top_k [OF full.partial_sort_axioms,
      of "\<lparr>sp_temperature = Fin 1, sp_top_p = Fin 1, sp_top_k = 2\<rparr>" 3 demo_logits demo_platform demo_uniform 0]
    demo_logits_not_nan
  by (simp add: fle_def)

text \<open>C38. Temperature zero or below is greedy: the token with the largest logit, the first
  one among equals, and the random generator is not consumed.\<close>

theorem sample_greedy_argmax:
  assumes "0 < n_vocab" and "fle (sp_temperature p) (Fin 0)" and "\<forall>i < nat n_vocab. logits ! i \<noteq> NaN"
  shows "\<exists>t < nat n_vocab. sample P psort uni logits n_vocab p rng = (int t, rng) \<and>
    (\<forall>j < nat n_vocab. \<not> fless (logits ! t) (logits ! j)) \<and> (\<forall>j < t. fless (logits ! j) (logits ! t))"
proof -
  have "\<not> fless x x" for x by (cases x) auto
  then have "first_max logits 1 0" by (simp add: first_max_def)
  then have "first_max logits (nat n_vocab) (greedy_loop logits [1..<nat n_vocab] 0 (logits ! 0))"
    using assms(1,3) by (intro greedy_loop_first_max) simp_all
  then show ?thesis using assms(1,2) by (simp add: sample_def first_max_def)
qed

theorem sample_greedy_argmax_witness:
  "\<exists>t < 3. sample demo_platform full_sort demo_uniform demo_logits 3
      \<lparr>sp_temperature = Fin 0, sp_top_p = Fin 1, sp_top_k = 2\<rparr> 7 = (int t, 7) \<and>
    (\<forall>j < 3. \<not> fless (demo_logits ! t) (demo_logits ! j)) \<and> (\<forall>j < t. fless (demo_logits ! j) (demo_logits ! t))"
  using sample_greedy_argmax [of 3 "\<lparr>sp_temperature = Fin 0, sp_top_p = Fin 1, sp_top_k = 2\<rparr>" demo_logits
      demo_platform full_sort demo_uniform 7] demo_logits_not_nan
  by (simp add: fle_def)

text \<open>Top-p: below 0.9999 the kept prefix is the shortest non-empty prefix of the sorted
  probabilities whose running single-precision sum reaches \<open>top_p\<close> clamped to the unit
  interval, or all of them when none does.\<close>

lemma kept_prefix_shortest:
  assumes "fless (fmin (fmax top_p (Fin 0)) (Fin 1)) (fround f32 (9999 / 10000))" and "probs \<noteq> []"
  defines "k \<equiv> kept_prefix top_p probs" and "thr \<equiv> fmin (fmax top_p (Fin 0)) (Fin 1)"
  shows "0 < k \<and> k \<le> length probs \<and> (k < length probs \<longrightarrow> fle thr (run_sum (Fin 0) probs k)) \<and>
    (\<forall>j. 0 < j \<and> j < k \<longrightarrow> \<not> fle thr (run_sum (Fin 0) probs j))"
proof -
  have "k = nucleus_cut thr probs (Fin 0) 0"
    using assms nucleus_cut_spec [of 0 thr probs "Fin 0"] by (simp add: kept_prefix_def Let_def)
  then show ?thesis using nucleus_cut_spec [of 0 thr probs "Fin 0"] assms(2) by simp
qed

section \<open>An unused helper\<close>

text \<open>\<open>stable_max\<close>, which nothing calls: on logits without a NaN it is a largest element.\<close>

definition stable_max :: "fl list \<Rightarrow> nat \<Rightarrow> fl" where
  "stable_max x n = foldl (\<lambda>m i. fmax m (x ! i)) (x ! 0) [1..<n]"

lemma foldl_fmax_element: "foldl (\<lambda>m i. fmax m (x ! i)) a is \<in> insert a ((!) x ` set is)"
  by (induction "is" arbitrary: a) (auto simp: fmax_def)

lemma foldl_fmax_upper:
  assumes "a \<noteq> NaN" and "\<forall>i \<in> set is. x ! i \<noteq> NaN"
  shows "\<not> fless (foldl (\<lambda>m i. fmax m (x ! i)) a is) a \<and>
    (\<forall>i \<in> set is. \<not> fless (foldl (\<lambda>m i. fmax m (x ! i)) a is) (x ! i))"
  using assms
proof (induction "is" arbitrary: a)
  case Nil
  then show ?case by (cases a) auto
next
  case (Cons i "is")
  define b where "b = fmax a (x ! i)"
  have b: "b \<noteq> NaN" "\<not> fless b a" "\<not> fless b (x ! i)"
    using Cons.prems by (cases a; cases "x ! i"; auto simp: b_def fmax_def)+
  define r where "r = foldl (\<lambda>m i. fmax m (x ! i)) b is"
  have r: "\<not> fless r b" "\<forall>i \<in> set is. \<not> fless r (x ! i)" using Cons.IH [OF b(1)] Cons.prems(2) by (auto simp: r_def)
  have "r \<noteq> NaN" using foldl_fmax_element [of x b "is"] b(1) Cons.prems(2) by (auto simp: r_def)
  then have "\<not> fless r a" "\<not> fless r (x ! i)"
    using r(1) b Cons.prems by (cases r; cases b; cases a; cases "x ! i"; auto)+
  then show ?case using r(2) by (simp add: b_def [symmetric] r_def [symmetric])
qed

lemma stable_max_correct:
  assumes "0 < n" and "\<forall>i < n. x ! i \<noteq> NaN"
  shows "\<exists>i < n. stable_max x n = x ! i \<and> (\<forall>j < n. \<not> fless (stable_max x n) (x ! j))"
proof -
  have "stable_max x n \<in> insert (x ! 0) ((!) x ` set [1..<n])" unfolding stable_max_def by (rule foldl_fmax_element)
  then obtain i where i: "i < n" "stable_max x n = x ! i" using assms(1) by auto
  have "\<not> fless (stable_max x n) (x ! j)" if "j < n" for j
    using foldl_fmax_upper [of "x ! 0" "[1..<n]" x] assms that by (cases "j = 0") (auto simp: stable_max_def)
  then show ?thesis using i by blast
qed

end
