(* ===== verification/Metrics.thy ===== *)
theory Metrics
  imports Protocol Floats
begin

text \<open>
  The metrics of \<open>src/src/metrics/metrics.{h,cpp}\<close>: the counters (atomics with a single
  writer, so plain words), the fixed-point moving average and the JSON snapshot. The format of
  \<open>long double\<close> differs between platforms and is a parameter of the snapshot.
\<close>

section \<open>The counters\<close>

record Metrics =
  m_tokens_generated_total :: u64
  m_batch_calls_total :: u64
  m_last_batch_size :: u32
  m_decode_ms_last :: u32
  m_decode_ms_ewma_x1000 :: u32
  m_decode_ns_total :: u64
  m_decode_calls :: u64
  m_decode_tokens_total :: u64
  m_decode_ms_min :: u32
  m_decode_ms_max :: u32
  m_decode_phase_tokens_total :: u64
  m_prefill_tokens_total :: u64
  m_decode_ns_total_gen :: u64
  m_prefill_ns_total :: u64
  m_last_decode_tokens :: u32
  m_last_prefill_tokens :: u32
  m_max_batch_size_seen :: u32
  m_prefill_calls :: u64
  m_eval_ms_last :: u32
  m_p_eval_ms_last :: u32
  m_eval_ns_total :: u64
  m_p_eval_ns_total :: u64
  m_eval_calls :: u64
  m_p_eval_calls :: u64
  m_bmt_units_last :: u64
  m_bmt_budget_units :: u64
  m_bmt_guard_activations :: u32
  m_bmt_guard_active :: byte

definition new_metrics :: Metrics where
  "new_metrics =
     \<lparr>m_tokens_generated_total = 0, m_batch_calls_total = 0, m_last_batch_size = 0, m_decode_ms_last = 0,
      m_decode_ms_ewma_x1000 = 0, m_decode_ns_total = 0, m_decode_calls = 0, m_decode_tokens_total = 0,
      m_decode_ms_min = 0xFFFFFFFF, m_decode_ms_max = 0, m_decode_phase_tokens_total = 0,
      m_prefill_tokens_total = 0, m_decode_ns_total_gen = 0, m_prefill_ns_total = 0,
      m_last_decode_tokens = 0, m_last_prefill_tokens = 0, m_max_batch_size_seen = 0, m_prefill_calls = 0,
      m_eval_ms_last = 0, m_p_eval_ms_last = 0, m_eval_ns_total = 0, m_p_eval_ns_total = 0,
      m_eval_calls = 0, m_p_eval_calls = 0, m_bmt_units_last = 0, m_bmt_budget_units = 0,
      m_bmt_guard_activations = 0, m_bmt_guard_active = 0\<rparr>"

definition set_decode_ms_ewma :: "platform \<Rightarrow> Metrics \<Rightarrow> fl \<Rightarrow> Metrics" where
  "set_decode_ms_ewma P m ms =
     (let ms' = (if fless ms (Fin 0) then Fin 0 else ms)
      in m\<lparr>m_decode_ms_ewma_x1000 := cast_u32 P (fmul f64 ms' (Fin 1000))\<rparr>)"

definition get_decode_ms_ewma :: "Metrics \<Rightarrow> fl" where
  "get_decode_ms_ewma m = fdiv f64 (of_integer f64 (uint (m_decode_ms_ewma_x1000 m))) (Fin 1000)"

section \<open>The snapshot\<close>

text \<open>\<open>std::fixed << std::setprecision(3)\<close>, which stays in force for the rest of the stream.\<close>

definition fixed3 :: "fl \<Rightarrow> string" where
  "fixed3 x =
     (case x of
        NaN \<Rightarrow> ''nan'' | PInf \<Rightarrow> ''inf'' | NInf \<Rightarrow> ''-inf''
      | Fin r \<Rightarrow>
          (let n = nat (round_half_even (\<bar>r\<bar> * 1000))
           in (if r < 0 then ''-'' else []) @ string_of_nat (n div 1000) @ ''.'' @
              [digit_char (n div 100 mod 10), digit_char (n div 10 mod 10), digit_char (n mod 10)]))"

definition num :: "'a::len word \<Rightarrow> string" where
  "num w = string_of_nat (unat w)"

definition mean_of :: "fmt \<Rightarrow> u64 \<Rightarrow> u64 \<Rightarrow> string" where
  "mean_of LD tot n =
     (if n = 0 then fixed3 (Fin 0)
      else fixed3 (fcvt f64 (fdiv LD (of_integer LD (uint tot)) (of_integer LD (uint n)))))"

definition mean_ms_of :: "fmt \<Rightarrow> u64 \<Rightarrow> u64 \<Rightarrow> string" where
  "mean_ms_of LD tot n =
     (if n = 0 then fixed3 (Fin 0)
      else fixed3 (fcvt f64 (fdiv LD (fdiv LD (of_integer LD (uint tot)) (of_integer LD (uint n))) (Fin 1000000))))"

definition base_fields :: "fmt \<Rightarrow> Metrics \<Rightarrow> (string \<times> string) list" where
  "base_fields LD m =
     [(''tokens_generated_total'', num (m_tokens_generated_total m)),
      (''batch_calls_total'', num (m_batch_calls_total m)),
      (''last_batch_size'', num (m_last_batch_size m)),
      (''decode_ms_last'', num (m_decode_ms_last m)),
      (''decode_ms_ewma'', fixed3 (get_decode_ms_ewma m)),
      (''decode_calls'', num (m_decode_calls m)),
      (''decode_ns_total'', num (m_decode_ns_total m)),
      (''decode_tokens_total'', num (m_decode_tokens_total m)),
      (''decode_ms_min'', num (m_decode_ms_min m)),
      (''decode_ms_max'', num (m_decode_ms_max m)),
      (''decode_ms_mean'', mean_ms_of LD (m_decode_ns_total m) (m_decode_calls m)),
      (''decode_tokens_per_call_mean'', mean_of LD (m_decode_tokens_total m) (m_decode_calls m)),
      (''decode_phase_tokens_total'', num (m_decode_phase_tokens_total m)),
      (''prefill_tokens_total'', num (m_prefill_tokens_total m)),
      (''decode_ns_total_gen'', num (m_decode_ns_total_gen m)),
      (''prefill_ns_total'', num (m_prefill_ns_total m)),
      (''gen_ms_per_token_mean'', mean_ms_of LD (m_decode_ns_total_gen m) (m_decode_phase_tokens_total m)),
      (''prefill_ms_per_token_mean'', mean_ms_of LD (m_prefill_ns_total m) (m_prefill_tokens_total m))]"

definition perf_fields :: "fmt \<Rightarrow> Metrics \<Rightarrow> (string \<times> string) list" where
  "perf_fields LD m =
     [(''eval_ms_last'', num (m_eval_ms_last m)),
      (''p_eval_ms_last'', num (m_p_eval_ms_last m)),
      (''eval_calls'', num (m_eval_calls m)),
      (''p_eval_calls'', num (m_p_eval_calls m)),
      (''eval_ns_total'', num (m_eval_ns_total m)),
      (''p_eval_ns_total'', num (m_p_eval_ns_total m)),
      (''eval_ms_mean'', mean_ms_of LD (m_eval_ns_total m) (m_eval_calls m)),
      (''p_eval_ms_mean'', mean_ms_of LD (m_p_eval_ns_total m) (m_p_eval_calls m))]"

definition shape_fields :: "Metrics \<Rightarrow> (string \<times> string) list" where
  "shape_fields m =
     [(''last_decode_tokens'', num (m_last_decode_tokens m)),
      (''last_prefill_tokens'', num (m_last_prefill_tokens m)),
      (''max_batch_size_seen'', num (m_max_batch_size_seen m)),
      (''prefill_calls'', num (m_prefill_calls m)),
      (''bmt_units_last'', num (m_bmt_units_last m)),
      (''bmt_budget_units'', num (m_bmt_budget_units m)),
      (''bmt_guard_active'', num (m_bmt_guard_active m)),
      (''bmt_guard_activations'', num (m_bmt_guard_activations m))]"

definition field :: "string \<times> string \<Rightarrow> string" where
  "field kv = dquote @ fst kv @ dquote @ '':'' @ snd kv"

fun comma_sep :: "string list \<Rightarrow> string" where
  "comma_sep [] = []"
| "comma_sep [x] = x"
| "comma_sep (x # xs) = x @ '','' @ comma_sep xs"

definition snapshot_fields :: "fmt \<Rightarrow> Metrics \<Rightarrow> u32 \<Rightarrow> bool \<Rightarrow> (string \<times> string) list" where
  "snapshot_fields LD m active_sessions debug =
     base_fields LD m @ (if debug then perf_fields LD m else []) @
     [(''active_sessions'', num active_sessions)] @ (if debug then shape_fields m else [])"

definition to_json :: "fmt \<Rightarrow> Metrics \<Rightarrow> u32 \<Rightarrow> bool \<Rightarrow> string" where
  "to_json LD m active_sessions debug =
     ''{'' @ comma_sep (map field (snapshot_fields LD m active_sessions debug)) @ ''}''"

section \<open>Escaping\<close>

text \<open>
  The file's own escaper, which nothing calls: a control character is printed in hexadecimal,
  padded on the left to four digits. It agrees with the escaper of the protocol.
\<close>

fun hex_digits :: "nat \<Rightarrow> string" where
  "hex_digits n = (if n < 16 then [hex_char n] else hex_digits (n div 16) @ [hex_char (n mod 16)])"

declare hex_digits.simps [simp del]

definition setw4 :: "string \<Rightarrow> string" where
  "setw4 ds = replicate (4 - length ds) (CHR ''0'') @ ds"

definition metrics_json_escape :: "string \<Rightarrow> string" where
  "metrics_json_escape s =
     concat (map (\<lambda>c.
       if c = CHR 0x22 then [CHR 0x5C, CHR 0x22]
       else if c = CHR 0x5C then [CHR 0x5C, CHR 0x5C]
       else if c = CHR 0x0A then [CHR 0x5C, CHR ''n'']
       else if c = CHR 0x0D then [CHR 0x5C, CHR ''r'']
       else if c = CHR 0x09 then [CHR 0x5C, CHR ''t'']
       else if (of_char c :: nat) < 0x20 then [CHR 0x5C, CHR ''u''] @ setw4 (hex_digits (of_char c))
       else [c]) s)"

lemma setw4_control: "n < 0x20 \<Longrightarrow> setw4 (hex_digits n) = [CHR ''0'', CHR ''0'', hex_char (n div 16), hex_char (n mod 16)]"
proof -
  assume n: "n < 0x20"
  then have d: "n div 16 < 16" by simp
  show ?thesis
  proof (cases "n < 16")
    case True
    then show ?thesis by (simp add: setw4_def hex_digits.simps [of n] numeral_3_eq_3 hex_char_def)
  next
    case False
    then show ?thesis using d by (simp add: setw4_def hex_digits.simps [of n] hex_digits.simps [of "n div 16"] numeral_2_eq_2)
  qed
qed

lemma metrics_json_escape_same: "metrics_json_escape s = json_escape s"
  unfolding metrics_json_escape_def json_escape_def escape_char_def
  by (rule arg_cong [where f = concat], rule map_cong [OF refl]) (simp add: setw4_control)

end
