(* ===== verification/Scheduler.thy ===== *)
theory Scheduler
  imports Bmt Sampling Tokens Metrics Config
begin

text \<open>
  The scheduler, \<open>src/src/sched/scheduler.{h,cpp}\<close>: one \<open>tick\<close> plans a batch with the
  policy, trims it to the bandwidth budget, builds the batch arrays, calls llama.cpp, accounts
  for the time, adapts the target batch size, and samples one token for every session whose
  last token was in the batch. Every assertion of the source, the prompt read out of range and
  the reallocation that would leave the batch's sequence pointers dangling are error values, so
  that their absence is a theorem.
\<close>

section \<open>State\<close>

datatype tick_error = Length_error | Reallocated | Out_of_range | Assert_failed string

record 'r Scheduler =
  batch_cap :: int
  target_batch :: int
  rr_decode_idx :: nat
  rr_prefill_idx :: nat
  sch_config :: RuntimeConfig
  sch_metrics :: "Metrics option"
  decode_ms_ewma :: fl
  sch_rng :: 'r

text \<open>What the scheduler is given: the platform, the standard library's sort and uniform draw,
  llama.cpp and its vocabulary.\<close>

record ('c, 'r) env =
  env_platform :: platform
  env_psort :: psort
  env_uniform :: "'r \<Rightarrow> fl \<times> 'r"
  env_llama :: "'c llama"
  env_vocab :: llama_vocab

definition tick_budget_ms :: fl where
  "tick_budget_ms = Fin 30"

definition new_scheduler :: "('c, 'r) env \<Rightarrow> 'c \<Rightarrow> RuntimeConfig \<Rightarrow> Metrics option \<Rightarrow> 'r \<Rightarrow> 'r Scheduler" where
  "new_scheduler E c cfg m seed =
     (let cap = sint (llama_n_batch (env_llama E) c)
      in \<lparr>batch_cap = cap, target_batch = cap, rr_decode_idx = 0, rr_prefill_idx = 0, sch_config = cfg,
          sch_metrics = map_option (\<lambda>m. set_decode_ms_ewma (env_platform E) m tick_budget_ms) m,
          decode_ms_ewma = tick_budget_ms, sch_rng = seed\<rparr>)"

section \<open>The guard\<close>

definition publish_guard :: "u64 \<Rightarrow> u64 \<Rightarrow> bool \<Rightarrow> Metrics \<Rightarrow> Metrics" where
  "publish_guard budget est trimmed m =
     (let m1 = m\<lparr>m_bmt_budget_units := budget, m_bmt_units_last := est\<rparr>
      in if trimmed
         then m1\<lparr>m_bmt_guard_active := 1, m_bmt_guard_activations := m_bmt_guard_activations m1 + 1\<rparr>
         else m1\<lparr>m_bmt_guard_active := 0\<rparr>)"

definition bmt_guard :: "RuntimeConfig \<Rightarrow> SessionPool \<Rightarrow> Plan \<Rightarrow> Metrics option \<Rightarrow> Plan \<times> Metrics option" where
  "bmt_guard cfg sessions plan m =
     (if bmt_budget_units cfg > 0 then
        (case bmt_trim sessions (bmt_budget_units cfg) plan of
           (plan', est, trimmed) \<Rightarrow>
             (plan', map_option (publish_guard (bmt_budget_units cfg) est trimmed) m))
      else (plan, m))"

section \<open>Enacting the plan\<close>

record SampleRef =
  sr_fd :: int
  sr_batch_index :: int
  sr_state_before :: SessionState

definition empty_batch :: llama_batch where
  "empty_batch = \<lparr>b_token = [], b_pos = [], b_n_seq_id = [], b_seq_id = [], b_logits = []\<rparr>"

text \<open>
  One round of \<open>push_back\<close>s. The batch keeps pointers to the elements of \<open>seq_id_vals\<close>,
  whose capacity is only known to be what was reserved: growing beyond it would move them.
\<close>

definition push_token :: "int \<Rightarrow> llama_batch \<Rightarrow> int \<Rightarrow> int \<Rightarrow> int \<Rightarrow> int \<Rightarrow> tick_error + llama_batch" where
  "push_token cap b t sq p lg =
     (if cap \<le> int (length (b_seq_id b)) then Inl Reallocated
      else Inr (b\<lparr>b_token := b_token b @ [t], b_n_seq_id := b_n_seq_id b @ [1],
                  b_seq_id := b_seq_id b @ [sq], b_pos := b_pos b @ [p], b_logits := b_logits b @ [lg]\<rparr>))"

definition prefill_step :: "int \<Rightarrow> int \<Rightarrow> int \<Rightarrow> nat \<Rightarrow>
    ClientSession \<times> llama_batch \<times> SampleRef list \<Rightarrow> tick_error + ClientSession \<times> llama_batch \<times> SampleRef list" where
  "prefill_step cap chunk base_pos j = (\<lambda>(s, b, samples).
     if length (prompt_tokens s) \<le> prefill_idx s then Inl Out_of_range
     else
       let t = prompt_tokens s ! prefill_idx s;
           s' = s\<lparr>prefill_idx := prefill_idx s + 1\<rparr>;
           lg = (if int j = chunk - 1 then 1 else 0)
       in bindE (push_token cap b t (seq s) (i32 (base_pos + int j)) lg) (\<lambda>b'.
            Inr (s', b',
              if lg \<noteq> 0
              then samples @ [\<lparr>sr_fd = fd s, sr_batch_index = int (length (b_token b')) - 1, sr_state_before = PREFILL\<rparr>]
              else samples)))"

definition enact_item :: "int \<Rightarrow> BatchItem \<Rightarrow> SessionPool \<times> llama_batch \<times> SampleRef list \<Rightarrow>
    tick_error + SessionPool \<times> llama_batch \<times> SampleRef list" where
  "enact_item cap item = (\<lambda>(sessions, b, samples).
     case pool_find sessions (it_fd item) of
       None \<Rightarrow> Inr (sessions, b, samples)
     | Some s \<Rightarrow>
         (case it_phase item of
            Phase_DECODE \<Rightarrow>
              bindE (push_token cap b (pending_tok s) (seq s) (n_past s) 1) (\<lambda>b'.
                Inr (pool_set sessions (it_fd item) (s\<lparr>has_pending_tok := False\<rparr>), b',
                     samples @ [\<lparr>sr_fd = fd s, sr_batch_index = int (length (b_token b')) - 1, sr_state_before = DECODE\<rparr>]))
          | Phase_PREFILL \<Rightarrow>
              (let chunk = it_n_tokens item; base_pos = n_past s in
                 if chunk < 0 then Inl (Assert_failed ''prefill chunk size is less than 0'')
                 else bindE (foldE (prefill_step cap chunk base_pos) [0..<nat chunk] (s, b, samples))
                        (\<lambda>(s', b', samples').
                           Inr (pool_set sessions (it_fd item) (s'\<lparr>n_past := i32 (base_pos + chunk)\<rparr>), b', samples')))))"

definition enact :: "int \<Rightarrow> SessionPool \<Rightarrow> BatchItem list \<Rightarrow> tick_error + SessionPool \<times> llama_batch \<times> SampleRef list" where
  "enact cap sessions its = foldE (enact_item cap) its (sessions, empty_batch, [])"

definition check_batch :: "int \<Rightarrow> llama_batch \<Rightarrow> SampleRef list \<Rightarrow> tick_error + unit" where
  "check_batch cap b samples =
     (let n = length (b_token b) in
        if length (b_n_seq_id b) \<noteq> n \<or> length (b_seq_id b) \<noteq> n \<or> length (b_logits b) \<noteq> n
        then Inl (Assert_failed ''lockstep'')
        else if int n > cap then Inl (Assert_failed ''batch exceeds llama_n_batch'')
        else if int n > INT_MAX then Inl (Assert_failed ''n_tokens must fit int32'')
        else if length (filter (\<lambda>x. x = 1) (b_logits b)) \<noteq> length samples
        then Inl (Assert_failed ''logits==1 count must equal samples'')
        else Inr ())"

section \<open>Accounting and tuning\<close>

text \<open>\<open>dur_ns\<close> is the difference of two readings of a steady clock, so not negative.\<close>

definition split_ns :: "nat \<Rightarrow> u64 \<Rightarrow> u64 \<Rightarrow> u64 \<times> u64" where
  "split_ns dur_ns gen_tok tot_tok =
     (if tot_tok > 0 then
        (let gen_ns = word_of_nat (dur_ns * unat gen_tok div unat tot_tok)
         in (gen_ns, word_of_nat dur_ns - gen_ns))
      else (0, 0))"

definition account_gen :: "platform \<Rightarrow> u64 \<Rightarrow> u64 \<Rightarrow> Metrics \<Rightarrow> Metrics" where
  "account_gen P gen_tok gen_ns m =
     (if gen_tok > 0 then
        (let gen_ms = cast_u32 P (fadd f64 (fdiv f64 (of_integer f64 (uint gen_ns)) (Fin 1000000)) (Fin (1 / 2)))
         in m\<lparr>m_decode_ms_last := gen_ms, m_decode_ns_total := m_decode_ns_total m + gen_ns,
              m_decode_calls := m_decode_calls m + 1, m_decode_tokens_total := m_decode_tokens_total m + gen_tok,
              m_decode_ms_min := (if gen_ms < m_decode_ms_min m then gen_ms else m_decode_ms_min m),
              m_decode_ms_max := (if gen_ms > m_decode_ms_max m then gen_ms else m_decode_ms_max m)\<rparr>)
      else m)"

definition account_perf :: "platform \<Rightarrow> perf_data \<Rightarrow> Metrics \<Rightarrow> Metrics" where
  "account_perf P pdata m =
     m\<lparr>m_eval_ms_last := cast_u32 P (fadd f64 (t_eval_ms pdata) (Fin (1 / 2))),
       m_p_eval_ms_last := cast_u32 P (fadd f64 (t_p_eval_ms pdata) (Fin (1 / 2))),
       m_eval_ns_total := m_eval_ns_total m + cast_u64 P (fmul f64 (t_eval_ms pdata) (Fin 1000000)),
       m_p_eval_ns_total := m_p_eval_ns_total m + cast_u64 P (fmul f64 (t_p_eval_ms pdata) (Fin 1000000)),
       m_eval_calls := m_eval_calls m + (if n_eval pdata > 0 then 1 else 0),
       m_p_eval_calls := m_p_eval_calls m + (if n_p_eval pdata > 0 then 1 else 0)\<rparr>"

definition account :: "platform \<Rightarrow> RuntimeConfig \<Rightarrow> Plan \<Rightarrow> nat \<Rightarrow> nat \<Rightarrow> perf_data \<Rightarrow> Metrics \<Rightarrow> Metrics" where
  "account P cfg plan n_tokens dur_ns pdata m =
     (let tot_tok = word_of_nat n_tokens;
          gen_tok = u64_of_int (decode_tok_count plan);
          pf_tok = u64_of_int (prefill_tok_count plan);
          (gen_ns, pf_ns) = split_ns dur_ns gen_tok tot_tok;
          m1 = m\<lparr>m_batch_calls_total := m_batch_calls_total m + 1, m_last_batch_size := word_of_nat n_tokens,
                 m_decode_phase_tokens_total := m_decode_phase_tokens_total m + gen_tok,
                 m_prefill_tokens_total := m_prefill_tokens_total m + pf_tok,
                 m_decode_ns_total_gen := m_decode_ns_total_gen m + gen_ns,
                 m_prefill_ns_total := m_prefill_ns_total m + pf_ns\<rparr>;
          m2 = account_gen P gen_tok gen_ns m1
      in if enable_perf cfg then account_perf P pdata m2 else m2)"

definition next_ewma :: "fl \<Rightarrow> nat \<Rightarrow> fl" where
  "next_ewma ewma dur_ns =
     (let ms = fdiv f64 (of_integer f64 (int dur_ns)) (Fin 1000000)
      in fadd f64 (fmul f64 (fround f64 (8 / 10)) ewma) (fmul f64 (fround f64 (2 / 10)) ms))"

definition tune_target :: "platform \<Rightarrow> int \<Rightarrow> fl \<Rightarrow> int \<Rightarrow> int" where
  "tune_target P cap ewma target =
     (if fless (fmul f64 (fround f64 (13 / 10)) tick_budget_ms) ewma then
        max 8 (cast_i32 P (fmul f64 (of_integer f64 target) (fround f64 (7 / 10))))
      else if fless ewma (fmul f64 (fround f64 (8 / 10)) tick_budget_ms) then
        min cap (i32 (target + max 1 (if 0 \<le> target then target div 8 else - (- target div 8))))
      else target)"

section \<open>After the decode\<close>

definition fail_sample :: "SampleRef \<Rightarrow> SessionPool \<Rightarrow> SessionPool" where
  "fail_sample sr sessions =
     (case pool_find sessions (sr_fd sr) of
        None \<Rightarrow> sessions
      | Some s \<Rightarrow>
          pool_set sessions (sr_fd sr)
            (s\<lparr>last_error := ''decode error'', state := ERRORED,
               tx := append_error_event (tx s) (request_id s) ''E_RUNTIME_DECODE'' ''decode failed'',
               read_closed := True\<rparr>))"

definition sampling_params :: "ClientSession \<Rightarrow> SamplingParams" where
  "sampling_params s =
     \<lparr>sp_temperature = fcvt f32 (temperature s), sp_top_p = fcvt f32 (top_p s), sp_top_k = top_k s\<rparr>"

definition emit_piece :: "llama_vocab \<Rightarrow> int \<Rightarrow> ClientSession \<Rightarrow> ClientSession" where
  "emit_piece v new_id s =
     (let piece = token_to_piece_str (Some v) new_id True
      in if piece \<noteq> [] then s\<lparr>tx := append_token_event (tx s) (request_id s) piece new_id\<rparr> else s)"

definition stamp_emit :: "u64 \<Rightarrow> ClientSession \<Rightarrow> ClientSession" where
  "stamp_emit now_ns s =
     s\<lparr>first_emit_ns := (if first_emit_ns s = 0 then now_ns else first_emit_ns s), last_emit_ns := now_ns\<rparr>"

definition first_token :: "llama_vocab \<Rightarrow> u64 \<Rightarrow> int \<Rightarrow> ClientSession \<Rightarrow> ClientSession" where
  "first_token v now_ns new_id s =
     stamp_emit now_ns (emit_piece v new_id (s\<lparr>pending_tok := new_id, has_pending_tok := True, state := DECODE\<rparr>))"

definition ends_stream :: "llama_vocab \<Rightarrow> RuntimeConfig \<Rightarrow> int \<Rightarrow> ClientSession \<Rightarrow> bool" where
  "ends_stream v cfg new_id s \<longleftrightarrow> vocab_is_eog v new_id \<or> generated_count s \<ge> max_tokens cfg"

definition end_stream :: "RuntimeConfig \<Rightarrow> u64 \<Rightarrow> ClientSession \<Rightarrow> ClientSession" where
  "end_stream cfg now_ns s =
     stamp_emit now_ns
       (s\<lparr>tx := append_eos_event (tx s) (request_id s) (if generated_count s \<ge> max_tokens cfg then ''length'' else ''stop''),
          state := STREAM, n_past := 0\<rparr>)"

definition next_token :: "llama_vocab \<Rightarrow> u64 \<Rightarrow> int \<Rightarrow> ClientSession \<Rightarrow> ClientSession" where
  "next_token v now_ns new_id s =
     stamp_emit now_ns
       ((emit_piece v new_id s)\<lparr>generated_count := generated_count s + 1, pending_tok := new_id,
          has_pending_tok := True, n_past := i32 (n_past s + 1), state := DECODE\<rparr>)"

definition count_token :: "Metrics option \<Rightarrow> Metrics option" where
  "count_token m = map_option (\<lambda>m. m\<lparr>m_tokens_generated_total := m_tokens_generated_total m + 1\<rparr>) m"

type_synonym ('c, 'r) sample_state = "SessionPool \<times> 'c \<times> 'r \<times> Metrics option \<times> int list"

definition sample_step :: "('c, 'r) env \<Rightarrow> RuntimeConfig \<Rightarrow> u64 \<Rightarrow> SampleRef \<Rightarrow>
    ('c, 'r) sample_state \<Rightarrow> ('c, 'r) sample_state" where
  "sample_step E cfg now_ns sr = (\<lambda>(sessions, c, rng, m, fds).
     case pool_find sessions (sr_fd sr) of
       None \<Rightarrow> (sessions, c, rng, m, fds)
     | Some s \<Rightarrow>
         (case llama_get_logits_ith (env_llama E) c (sr_batch_index sr) of
            None \<Rightarrow> (sessions, c, rng, m, fds)
          | Some row \<Rightarrow>
              let v = env_vocab E;
                  fds' = (if tx s = [] then fds @ [fd s] else fds);
                  (new_id, rng') = sample (env_platform E) (env_psort E) (env_uniform E) row
                                     (vocab_n_tokens v) (sampling_params s) rng
              in if sr_state_before sr = PREFILL then
                   (pool_set sessions (sr_fd sr) (first_token v now_ns new_id s), c, rng', count_token m, fds')
                 else if ends_stream v cfg new_id s then
                   (pool_set sessions (sr_fd sr) (end_stream cfg now_ns s),
                    llama_memory_seq_rm (env_llama E) c (seq s) (- 1) (- 1), rng', m, fds')
                 else
                   (pool_set sessions (sr_fd sr) (next_token v now_ns new_id s), c, rng', count_token m, fds')))"

section \<open>Scheduler::tick\<close>

definition run_batch :: "('c, 'r) env \<Rightarrow> u64 \<Rightarrow> nat \<Rightarrow> Plan \<Rightarrow> llama_batch \<Rightarrow> SampleRef list \<Rightarrow>
    'r Scheduler \<Rightarrow> 'c \<Rightarrow> SessionPool \<Rightarrow> int list \<times> 'r Scheduler \<times> 'c \<times> SessionPool" where
  "run_batch E now_ns dur_ns plan b samples sch c sessions =
     (let L = env_llama E; P = env_platform E; cfg = sch_config sch;
          c1 = (if enable_perf cfg then llama_perf_context_reset L c else c);
          (dec_rc, c2) = llama_decode L c1 b;
          m1 = map_option (account P cfg plan (length (b_token b)) dur_ns (llama_perf_context L c2)) (sch_metrics sch);
          ewma = next_ewma (decode_ms_ewma sch) dur_ns;
          m2 = map_option (\<lambda>m. set_decode_ms_ewma P m ewma) m1;
          sch1 = sch\<lparr>decode_ms_ewma := ewma,
                     target_batch := tune_target P (batch_cap sch) ewma (target_batch sch)\<rparr>
      in if dec_rc \<noteq> 0 then ([], sch1\<lparr>sch_metrics := m2\<rparr>, c2, fold fail_sample samples sessions)
         else
           (case fold (sample_step E cfg now_ns) samples (sessions, c2, sch_rng sch, m2, []) of
              (sessions', c3, rng', m3, fds) \<Rightarrow>
                (fds, sch1\<lparr>sch_metrics := m3, sch_rng := rng'\<rparr>, c3, sessions')))"

definition tick :: "('c, 'r) env \<Rightarrow> u64 \<Rightarrow> nat \<Rightarrow> 'r Scheduler \<Rightarrow> 'c \<Rightarrow> SessionPool \<Rightarrow>
    tick_error + int list \<times> 'r Scheduler \<times> 'c \<times> SessionPool" where
  "tick E now_ns dur_ns sch c sessions =
     (if batch_cap sch < 0 then Inl Length_error
      else
        let plan0 = schedule_tick sessions (batch_cap sch) (target_batch sch) (rr_decode_idx sch) (rr_prefill_idx sch);
            (plan, m) = bmt_guard (sch_config sch) sessions plan0 (sch_metrics sch);
            sch0 = sch\<lparr>sch_metrics := m, rr_decode_idx := next_rr_decode_idx plan,
                       rr_prefill_idx := next_rr_prefill_idx plan\<rparr>
        in bindE (enact (batch_cap sch) sessions (items plan)) (\<lambda>(sessions', b, samples).
             if b_token b = [] then Inr ([], sch0, c, sessions')
             else bindE (check_batch (batch_cap sch) b samples) (\<lambda>_.
                    Inr (run_batch E now_ns dur_ns plan b samples sch0 c sessions'))))"

end
