(* ===== verification/Tick_Batch.thy ===== *)
theory Tick_Batch
  imports Scheduler
begin

text \<open>
  The batch a tick submits. The policy's contract is a locale, interpreted on
  \<open>schedule_tick\<close>; under it the plan stays executable after the bandwidth guard, enacting it
  never fails, and the arrays handed to llama.cpp are those of a reference definition that lists
  the rows of each session in turn.
\<close>

section \<open>Rows of a batch\<close>

record row =
  r_token :: int
  r_seq :: int
  r_pos :: int
  r_logits :: int

definition item_rows :: "ClientSession \<Rightarrow> BatchItem \<Rightarrow> row list" where
  "item_rows s x =
     (case it_phase x of
        Phase_DECODE \<Rightarrow> [\<lparr>r_token = pending_tok s, r_seq = seq s, r_pos = n_past s, r_logits = 1\<rparr>]
      | Phase_PREFILL \<Rightarrow>
          map (\<lambda>j. \<lparr>r_token = prompt_tokens s ! (prefill_idx s + j), r_seq = seq s, r_pos = n_past s + int j,
                    r_logits = (if int j = it_n_tokens x - 1 then 1 else 0)\<rparr>) [0..<nat (it_n_tokens x)])"

definition append_rows :: "llama_batch \<Rightarrow> row list \<Rightarrow> llama_batch" where
  "append_rows b rs =
     b\<lparr>b_token := b_token b @ map r_token rs, b_n_seq_id := b_n_seq_id b @ map (\<lambda>_. 1) rs,
       b_seq_id := b_seq_id b @ map r_seq rs, b_pos := b_pos b @ map r_pos rs,
       b_logits := b_logits b @ map r_logits rs\<rparr>"

definition enacted :: "ClientSession \<Rightarrow> BatchItem \<Rightarrow> ClientSession" where
  "enacted s x =
     (case it_phase x of
        Phase_DECODE \<Rightarrow> s\<lparr>has_pending_tok := False\<rparr>
      | Phase_PREFILL \<Rightarrow> s\<lparr>prefill_idx := prefill_idx s + nat (it_n_tokens x), n_past := n_past s + it_n_tokens x\<rparr>)"

definition item_refs :: "ClientSession \<Rightarrow> BatchItem \<Rightarrow> nat \<Rightarrow> SampleRef list" where
  "item_refs s x off =
     (if it_n_tokens x \<le> 0 then []
      else [\<lparr>sr_fd = fd s, sr_batch_index = int off + it_n_tokens x - 1,
             sr_state_before = (case it_phase x of Phase_DECODE \<Rightarrow> DECODE | Phase_PREFILL \<Rightarrow> PREFILL)\<rparr>])"

lemma append_rows_Nil [simp]: "append_rows b [] = b"
  by (simp add: append_rows_def)

lemma append_rows_append: "append_rows (append_rows b rs) ss = append_rows b (rs @ ss)"
  by (simp add: append_rows_def)

lemma append_rows_sel [simp]:
  "b_token (append_rows b rs) = b_token b @ map r_token rs"
  "b_seq_id (append_rows b rs) = b_seq_id b @ map r_seq rs"
  "b_pos (append_rows b rs) = b_pos b @ map r_pos rs"
  "b_logits (append_rows b rs) = b_logits b @ map r_logits rs"
  "b_n_seq_id (append_rows b rs) = b_n_seq_id b @ replicate (length rs) 1"
  by (simp_all add: append_rows_def map_replicate_const)

lemma push_token_row:
  "int (length (b_seq_id b)) < cap \<Longrightarrow>
   push_token cap b t sq p lg = Inr (append_rows b [\<lparr>r_token = t, r_seq = sq, r_pos = p, r_logits = lg\<rparr>])"
  by (simp add: push_token_def append_rows_def)

lemma length_item_rows:
  "runnable s x \<Longrightarrow> length (item_rows s x) = nat (it_n_tokens x)"
  by (auto simp: item_rows_def runnable_def split: Phase.splits)

definition fits :: "ClientSession \<Rightarrow> BatchItem \<Rightarrow> bool" where
  "fits s x \<longleftrightarrow> 0 \<le> n_past s \<and> n_past s + it_n_tokens x \<le> INT_MAX"

lemma prefill_loop:
  assumes "k \<le> nat chunk" and "prefill_idx s + nat chunk \<le> length (prompt_tokens s)"
    and "0 \<le> n_past s" and "n_past s + chunk \<le> INT_MAX"
    and "length (b_token b) = length (b_seq_id b)" and "int (length (b_seq_id b)) + chunk \<le> cap"
  shows "foldE (prefill_step cap chunk (n_past s)) [0..<k] (s, b, smp) =
    Inr (s\<lparr>prefill_idx := prefill_idx s + k\<rparr>,
         append_rows b (map (\<lambda>j. \<lparr>r_token = prompt_tokens s ! (prefill_idx s + j), r_seq = seq s,
           r_pos = n_past s + int j, r_logits = (if int j = chunk - 1 then 1 else 0)\<rparr>) [0..<k]),
         smp @ (if 0 < k \<and> k = nat chunk
                then [\<lparr>sr_fd = fd s, sr_batch_index = int (length (b_token b)) + chunk - 1, sr_state_before = PREFILL\<rparr>]
                else []))"
  using assms(1)
proof (induction k)
  case (Suc k)
  have pos: "i32 (n_past s + int k) = n_past s + int k"
    using Suc.prems assms(3,4) by (intro i32_id) auto
  have room: "int (length (b_seq_id b) + k) < cap" using Suc.prems assms(6) by auto
  have idx: "prefill_idx s + k < length (prompt_tokens s)" using Suc.prems assms(2) by auto
  have last: "int k = chunk - 1 \<longleftrightarrow> Suc k = nat chunk" using Suc.prems by auto
  have "k < nat chunk" using Suc.prems by simp
  then show ?case
    using Suc.IH Suc.prems room idx assms(5)
    by (simp add: foldE_append prefill_step_def Let_def push_token_row append_rows_append pos last)
qed simp

lemma enact_item_ok:
  assumes s: "pool_find sessions (it_fd x) = Some s" and run: "runnable s x" and fit: "fits s x"
    and lock: "length (b_token b) = length (b_seq_id b)"
    and room: "int (length (b_seq_id b)) + it_n_tokens x \<le> cap"
  shows "enact_item cap x (sessions, b, smp) =
    Inr (pool_set sessions (it_fd x) (enacted s x), append_rows b (item_rows s x),
         smp @ item_refs s x (length (b_token b)))"
proof (cases "it_phase x")
  case Phase_DECODE
  then have "it_n_tokens x = 1" using run by (simp add: runnable_def)
  then show ?thesis
    using room lock by (simp add: enact_item_def s Phase_DECODE push_token_row enacted_def item_rows_def item_refs_def)
next
  case Phase_PREFILL
  let ?n = "it_n_tokens x"
  have n: "0 \<le> ?n" "prefill_idx s + nat ?n \<le> length (prompt_tokens s)"
    using runnable_remaining [OF run Phase_PREFILL] run by (auto simp: runnable_def Phase_PREFILL prefill_ready_def remaining_def)
  have np: "i32 (n_past s + ?n) = n_past s + ?n" using fit n(1) by (auto simp: fits_def intro: i32_id)
  have "0 < ?n \<longleftrightarrow> 0 < nat ?n" by simp
  then show ?thesis
    using prefill_loop [OF le_refl n(2) _ _ lock room, of smp] fit n(1)
    by (auto simp: enact_item_def s Phase_PREFILL fits_def np enacted_def item_rows_def item_refs_def Let_def)
qed

section \<open>The whole plan\<close>

definition session_of :: "SessionPool \<Rightarrow> BatchItem \<Rightarrow> ClientSession" where
  "session_of sessions x = (case pool_find sessions (it_fd x) of Some s \<Rightarrow> s | None \<Rightarrow> new_session)"

definition rows_of :: "SessionPool \<Rightarrow> BatchItem list \<Rightarrow> row list" where
  "rows_of sessions its = concat (map (\<lambda>x. item_rows (session_of sessions x) x) its)"

fun refs_of :: "SessionPool \<Rightarrow> nat \<Rightarrow> BatchItem list \<Rightarrow> SampleRef list" where
  "refs_of sessions off [] = []"
| "refs_of sessions off (x # its) =
     item_refs (session_of sessions x) x off @ refs_of sessions (off + nat (it_n_tokens x)) its"

definition enacted_pool :: "SessionPool \<Rightarrow> BatchItem list \<Rightarrow> SessionPool" where
  "enacted_pool sessions its =
     fold (\<lambda>x p. pool_set p (it_fd x) (enacted (session_of sessions x) x)) its sessions"

definition executable :: "SessionPool \<Rightarrow> BatchItem list \<Rightarrow> bool" where
  "executable sessions its \<longleftrightarrow>
     distinct (map it_fd its) \<and>
     (\<forall>x \<in> set its. \<exists>s. pool_find sessions (it_fd x) = Some s \<and> runnable s x \<and> fits s x)"

lemma runnable_nonneg: "runnable s x \<Longrightarrow> 0 \<le> it_n_tokens x"
  by (auto simp: runnable_def split: Phase.splits)

lemma tokens_of_nonneg: "(\<And>x. x \<in> set its \<Longrightarrow> 0 \<le> it_n_tokens x) \<Longrightarrow> 0 \<le> tokens_of its"
  by (induction its) simp_all

lemma executable_nonneg: "executable sessions its \<Longrightarrow> x \<in> set its \<Longrightarrow> 0 \<le> it_n_tokens x"
  by (auto simp: executable_def dest: runnable_nonneg)

lemma enact_fold:
  assumes "executable sessions its" and "\<And>x. x \<in> set its \<Longrightarrow> pool_find p (it_fd x) = pool_find sessions (it_fd x)"
    and "length (b_token b) = length (b_seq_id b)" and "int (length (b_seq_id b)) + tokens_of its \<le> cap"
  shows "foldE (enact_item cap) its (p, b, smp) =
    Inr (fold (\<lambda>x p. pool_set p (it_fd x) (enacted (session_of sessions x) x)) its p,
         append_rows b (rows_of sessions its), smp @ refs_of sessions (length (b_token b)) its)"
  using assms
proof (induction its arbitrary: p b smp)
  case (Cons x its)
  obtain s where s: "pool_find sessions (it_fd x) = Some s" and run: "runnable s x" and fit: "fits s x"
    using Cons.prems(1) by (auto simp: executable_def)
  have so: "session_of sessions x = s" by (simp add: session_of_def s)
  have len: "length (item_rows s x) = nat (it_n_tokens x)" by (rule length_item_rows [OF run])
  have ex: "executable sessions its" using Cons.prems(1) by (auto simp: executable_def)
  have "0 \<le> tokens_of its" using executable_nonneg [OF ex] by (rule tokens_of_nonneg)
  then have room: "int (length (b_seq_id b)) + it_n_tokens x \<le> cap" using Cons.prems(4) by simp
  have step: "enact_item cap x (p, b, smp) =
      Inr (pool_set p (it_fd x) (enacted s x), append_rows b (item_rows s x), smp @ item_refs s x (length (b_token b)))"
    using enact_item_ok [OF _ run fit Cons.prems(3) room] Cons.prems(2) s by simp
  have other: "pool_find (pool_set p (it_fd x) (enacted s x)) (it_fd y) = pool_find sessions (it_fd y)" if "y \<in> set its" for y
  proof -
    have "it_fd y \<noteq> it_fd x" using that Cons.prems(1) by (auto simp: executable_def image_iff)
    then show ?thesis using that Cons.prems(2) by (simp add: pool_simps)
  qed
  show ?case
    using Cons.IH [OF ex other, of "append_rows b (item_rows s x)"] Cons.prems(3,4) runnable_nonneg [OF run]
    by (simp add: step so rows_of_def len append_rows_append)
qed (simp add: rows_of_def)

lemma enact_ok:
  assumes "executable sessions its" and "tokens_of its \<le> cap"
  shows "enact cap sessions its =
    Inr (enacted_pool sessions its, append_rows empty_batch (rows_of sessions its), refs_of sessions 0 its)"
  using enact_fold [OF assms(1), of sessions empty_batch cap "[]"] assms(2)
  by (simp add: enact_def enacted_pool_def empty_batch_def)

section \<open>The policy's contract\<close>

text \<open>
  A session is sound for a configuration when the positions its request can still reach fit an
  \<open>int32_t\<close> and, while it reads its prompt, its prompt index is within the prompt.
\<close>

definition sess_ok :: "RuntimeConfig \<Rightarrow> ClientSession \<Rightarrow> bool" where
  "sess_ok cfg s \<longleftrightarrow>
     0 \<le> n_past s \<and> generated_count s \<le> max_tokens cfg \<and>
     (state s = PREFILL \<longrightarrow> prefill_idx s \<le> length (prompt_tokens s)) \<and>
     n_past s + (if state s = PREFILL then remaining s else 0) +
       (uint (max_tokens cfg) - uint (generated_count s)) < INT_MAX"

definition pool_ok :: "RuntimeConfig \<Rightarrow> SessionPool \<Rightarrow> bool" where
  "pool_ok cfg sessions \<longleftrightarrow>
     pool_wf sessions \<and> length sessions \<le> 2 ^ 63 \<and> (\<forall>f s. pool_find sessions f = Some s \<longrightarrow> sess_ok cfg s)"

lemma sess_ok_room:
  "sess_ok cfg s \<Longrightarrow> 0 \<le> n_past s \<and> n_past s < INT_MAX \<and>
   (state s = PREFILL \<longrightarrow> 0 \<le> remaining s \<and> n_past s + remaining s < INT_MAX)"
  by (auto simp: sess_ok_def remaining_def word_le_def split: if_splits)

lemma sess_ok_leave:
  "sess_ok cfg s \<Longrightarrow> n_past s' = n_past s \<Longrightarrow> generated_count s' = generated_count s \<Longrightarrow> state s' \<noteq> PREFILL \<Longrightarrow>
   sess_ok cfg s'"
  using sess_ok_room [of cfg s] by (auto simp: sess_ok_def split: if_splits)

lemma sess_ok_fits: "sess_ok cfg s \<Longrightarrow> runnable s x \<Longrightarrow> fits s x"
  using sess_ok_room [of cfg s] runnable_remaining [of s x] by (cases "it_phase x") (auto simp: runnable_def fits_def prefill_ready_def)

lemma pool_ok_positions: "pool_ok cfg sessions \<Longrightarrow> positions_ok sessions"
  using sess_ok_room by (fastforce simp: pool_ok_def positions_ok_def)

lemma trimmed_runnable: "trimmed_to x y \<Longrightarrow> runnable s x \<Longrightarrow> runnable s y"
proof -
  assume t: "trimmed_to x y" and r: "runnable s x"
  from t have "y = x \<or> (it_phase x = Phase_PREFILL \<and> 0 \<le> it_n_tokens y)" unfolding trimmed_to_def by blast
  then show ?thesis using trimmed_sel [OF t] r by (auto simp: runnable_def)
qed

lemma trimmed_fds: "list_all2 trimmed_to xs ys \<Longrightarrow> map it_fd ys = map it_fd xs"
  by (induction rule: list_all2_induct) (simp_all add: trimmed_sel)

lemma trimmed_tokens: "list_all2 trimmed_to xs ys \<Longrightarrow> tokens_of ys \<le> tokens_of xs"
  by (induction rule: list_all2_induct) (simp_all add: add_mono trimmed_sel)

lemma trimmed_executable:
  assumes "list_all2 trimmed_to xs ys" and "executable sessions xs"
  shows "executable sessions ys"
proof -
  have "\<exists>s. pool_find sessions (it_fd y) = Some s \<and> runnable s y \<and> fits s y" if y: "y \<in> set ys" for y
  proof -
    obtain x where x: "x \<in> set xs" "trimmed_to x y" using list_all2_in_set2 [OF assms(1) y] by blast
    then obtain s where "pool_find sessions (it_fd x) = Some s" "runnable s x" "fits s x"
      using assms(2) by (auto simp: executable_def)
    then show ?thesis
      using x(2) trimmed_sel [OF x(2)] trimmed_runnable [OF x(2)] by (intro exI [of _ s]) (auto simp: fits_def)
  qed
  then show ?thesis using assms by (auto simp: executable_def trimmed_fds)
qed

text \<open>
  What the scheduler relies on: a planner whose items are distinct and runnable, within the
  capacity, and counted by the plan's two counters.
\<close>

locale batch_policy =
  fixes plan :: "SessionPool \<Rightarrow> int \<Rightarrow> int \<Rightarrow> nat \<Rightarrow> nat \<Rightarrow> Plan"
    and cursor_ok :: "SessionPool \<Rightarrow> nat \<Rightarrow> nat \<Rightarrow> bool"
  assumes distinct_items: "pool_wf S \<Longrightarrow> cursor_ok S rd rp \<Longrightarrow> distinct (map it_fd (items (plan S cap tgt rd rp)))"
    and items_runnable: "pool_wf S \<Longrightarrow> cursor_ok S rd rp \<Longrightarrow> x \<in> set (items (plan S cap tgt rd rp)) \<Longrightarrow>
          \<exists>s. pool_find S (it_fd x) = Some s \<and> runnable s x"
    and within_capacity: "0 \<le> cap \<Longrightarrow> tokens_of (items (plan S cap tgt rd rp)) \<le> cap"
    and counted: "decode_tok_count (plan S cap tgt rd rp) + prefill_tok_count (plan S cap tgt rd rp) =
          tokens_of (items (plan S cap tgt rd rp)) \<and> 0 \<le> decode_tok_count (plan S cap tgt rd rp)"
begin

lemma plan_executable:
  assumes "pool_ok cfg S" and "cursor_ok S rd rp"
  shows "executable S (items (plan S cap tgt rd rp))"
  unfolding executable_def
proof (intro conjI ballI)
  show "distinct (map it_fd (items (plan S cap tgt rd rp)))"
    using assms by (simp add: pool_ok_def distinct_items)
  fix x assume "x \<in> set (items (plan S cap tgt rd rp))"
  then obtain s where "pool_find S (it_fd x) = Some s" "runnable s x"
    using items_runnable [of S rd rp x cap tgt] assms by (auto simp: pool_ok_def)
  then show "\<exists>s. pool_find S (it_fd x) = Some s \<and> runnable s x \<and> fits s x"
    using assms(1) by (auto simp: pool_ok_def dest: sess_ok_fits)
qed

lemma plan_chunks:
  assumes "pool_ok cfg S" and "cursor_ok S rd rp" and "x \<in> set (items (plan S cap tgt rd rp))"
  shows "chunk_ok x \<and> pool_find S (it_fd x) \<noteq> None"
  using plan_executable [OF assms(1,2), of cap tgt] assms(3)
  by (fastforce simp: executable_def fits_def chunk_ok_def)

text \<open>The guard only shrinks prompt chunks, so the guarded plan is executable too.\<close>

lemma guarded_decode:
  assumes ok: "pool_ok cfg S" and cur: "cursor_ok S rd rp" and g: "bmt_guard conf S (plan S cap tgt rd rp) m = (p, m')"
    and x: "x \<in> set (items (plan S cap tgt rd rp))" "it_phase x = Phase_DECODE"
  shows "x \<in> set (items p)"
proof (cases "bmt_budget_units conf > 0")
  case False
  then show ?thesis using g x by (auto simp: bmt_guard_def)
next
  case True
  then obtain est tr where t: "bmt_trim S (bmt_budget_units conf) (plan S cap tgt rd rp) = (p, est, tr)"
    using g by (auto simp: bmt_guard_def split: prod.splits)
  have ch: "\<forall>x \<in> set (items (plan S cap tgt rd rp)). chunk_ok x \<and> pool_find S (it_fd x) \<noteq> None"
    using plan_chunks [OF ok cur] by blast
  from bmt_trim_spec [OF pool_ok_positions [OF ok] ch t]
  have "list_all2 trimmed_to (items (plan S cap tgt rd rp)) (items p)" by blast
  then obtain y where "y \<in> set (items p)" "trimmed_to x y"
    using x(1) by (metis in_set_conv_nth list_all2_conv_all_nth)
  then show ?thesis using x(2) by (auto simp: trimmed_to_def)
qed

lemma guarded_plan:
  assumes ok: "pool_ok cfg S" and cur: "cursor_ok S rd rp" and cap: "0 \<le> cap"
    and g: "bmt_guard conf S (plan S cap tgt rd rp) m = (p, m')"
  shows "executable S (items p) \<and> tokens_of (items p) \<le> cap \<and> 0 \<le> decode_tok_count p \<and>
    decode_tok_count p + prefill_tok_count p = tokens_of (items p)"
proof (cases "bmt_budget_units conf > 0")
  case False
  then have "p = plan S cap tgt rd rp" using g by (auto simp: bmt_guard_def)
  then show ?thesis using plan_executable [OF ok cur, of cap tgt] within_capacity [OF cap, of S tgt rd rp]
    counted [of S cap tgt rd rp] by simp
next
  case True
  then obtain est tr where t: "bmt_trim S (bmt_budget_units conf) (plan S cap tgt rd rp) = (p, est, tr)"
    using g by (auto simp: bmt_guard_def split: prod.splits)
  have ch: "\<forall>x \<in> set (items (plan S cap tgt rd rp)). chunk_ok x \<and> pool_find S (it_fd x) \<noteq> None"
    using plan_chunks [OF ok cur] by blast
  note sp = bmt_trim_spec [OF pool_ok_positions [OF ok] ch t]
  from sp have rel: "list_all2 trimmed_to (items (plan S cap tgt rd rp)) (items p)" by blast
  show ?thesis
    using trimmed_executable [OF rel plan_executable [OF ok cur]] trimmed_tokens [OF rel]
      within_capacity [OF cap, of S tgt rd rp] counted [of S cap tgt rd rp] sp by auto
qed

end

definition cursor_ok :: "SessionPool \<Rightarrow> nat \<Rightarrow> nat \<Rightarrow> bool" where
  "cursor_ok S rd rp \<longleftrightarrow> rd < 2 ^ 63 \<and> rp < 2 ^ 63 \<and> length S \<le> 2 ^ 63"

lemma pool_lengths: "length (decode_pool S) \<le> length S" "length (prefill_pool S) \<le> length S"
  by (induction S) (auto simp: decode_pool_def prefill_pool_def)

lemma cursor_bounds:
  assumes "cursor_ok S rd rp"
  shows "rd + length (decode_pool S) \<le> 2 ^ 64" "rp + length (prefill_pool S) \<le> 2 ^ 64"
  using assms pool_lengths [of S] by (simp_all add: cursor_ok_def)

lemma plan_counts:
  "decode_tok_count (schedule_tick S cap tgt rd rp) + prefill_tok_count (schedule_tick S cap tgt rd rp) =
     tokens_of (items (schedule_tick S cap tgt rd rp)) \<and> 0 \<le> decode_tok_count (schedule_tick S cap tgt rd rp)"
proof -
  let ?p = "schedule_tick S cap tgt rd rp"
  obtain D P where "items ?p = D @ P" "decode_tok_count ?p = tokens_of D" "prefill_tok_count ?p = tokens_of P"
    "\<forall>x \<in> set D. it_phase x = Phase_DECODE \<and> it_n_tokens x = 1"
    using plan_parts [OF refl, of S cap tgt rd rp] by blast
  moreover from this have "0 \<le> tokens_of D" by (intro tokens_of_nonneg) simp
  ultimately show ?thesis by simp
qed

interpretation baseline: batch_policy schedule_tick cursor_ok
proof unfold_locales
  fix S :: SessionPool and rd rp :: nat and cap tgt :: int and x
  assume "pool_wf S" "cursor_ok S rd rp"
  then show "distinct (map it_fd (items (schedule_tick S cap tgt rd rp)))"
    by (intro plan_distinct cursor_bounds)
  assume "x \<in> set (items (schedule_tick S cap tgt rd rp))"
  then show "\<exists>s. pool_find S (it_fd x) = Some s \<and> runnable s x"
    using plan_item_sound [OF \<open>pool_wf S\<close> cursor_bounds(1) [OF \<open>cursor_ok S rd rp\<close>]] by blast
next
  fix S :: SessionPool and rd rp :: nat and cap tgt :: int
  assume "0 \<le> cap"
  then show "tokens_of (items (schedule_tick S cap tgt rd rp)) \<le> cap"
    using plan_tokens_le [of S cap tgt rd rp] by simp
qed (rule plan_counts)

end
