(* ===== verification/Tick.thy ===== *)
theory Tick
  imports Tick_Batch
begin

text \<open>
  What a tick does to the sessions: it never fails on a sound state, every session makes one
  transition of a small state machine (an inductive relation), and soundness of the table and
  of the scheduler is an invariant. The properties of the whole tick follow by case analysis on
  that relation.
\<close>

section \<open>The batch passes its assertions\<close>

lemma ones_last:
  assumes "0 < n"
  shows "filter (\<lambda>x. x = 1) (map (\<lambda>j. if int j = n - 1 then 1 else 0 :: int) [0..<nat n]) = [1]"
proof -
  have "[0..<nat n] = [0..<nat (n - 1)] @ [nat (n - 1)]"
    using assms by (metis Suc_nat_eq_nat_zadd1 diff_add_cancel le_add1 upt_Suc_append zle_diff1_eq zero_le
        add.commute)
  moreover have "filter (\<lambda>x. x = 1) (map (\<lambda>j. if int j = n - 1 then 1 else 0 :: int) [0..<nat (n - 1)]) = []"
    by (auto simp: filter_empty_conv)
  ultimately show ?thesis using assms by simp
qed

lemma count_item_rows:
  assumes "runnable s x"
  shows "length (filter (\<lambda>l. l = 1) (map r_logits (item_rows s x))) = length (item_refs s x off)"
proof (cases "it_phase x = Phase_PREFILL \<and> 0 < it_n_tokens x")
  case True
  then have "map r_logits (item_rows s x) =
      map (\<lambda>j. if int j = it_n_tokens x - 1 then 1 else 0) [0..<nat (it_n_tokens x)]"
    by (simp add: item_rows_def)
  then show ?thesis using ones_last [of "it_n_tokens x"] True by (simp add: item_refs_def)
next
  case False
  then show ?thesis using assms
    by (auto simp: item_rows_def item_refs_def runnable_def split: Phase.splits)
qed

lemma rows_Cons: "rows_of S (x # its) = item_rows (session_of S x) x @ rows_of S its"
  by (simp add: rows_of_def)

lemma executable_Cons:
  assumes "executable S (x # its)"
  shows "executable S its" "runnable (session_of S x) x" "fits (session_of S x) x"
    "pool_find S (it_fd x) = Some (session_of S x)"
  using assms by (auto simp: executable_def session_of_def)

lemma count_rows:
  "executable S its \<Longrightarrow>
   length (filter (\<lambda>l. l = 1) (map r_logits (rows_of S its))) = length (refs_of S off its)"
proof (induction its arbitrary: off)
  case (Cons x its)
  then show ?case
    using executable_Cons [OF Cons.prems] count_item_rows [of "session_of S x" x off]
    by (simp add: rows_Cons)
qed (simp add: rows_of_def)

lemma length_rows:
  "executable S its \<Longrightarrow> int (length (rows_of S its)) = tokens_of its"
proof (induction its)
  case (Cons x its)
  then show ?case
    using executable_Cons [OF Cons.prems] length_item_rows runnable_nonneg
    by (fastforce simp: rows_Cons)
qed (simp add: rows_of_def)

lemma check_batch_ok:
  assumes "executable S its" and "tokens_of its \<le> cap" and "cap \<le> INT_MAX"
  shows "check_batch cap (append_rows empty_batch (rows_of S its)) (refs_of S 0 its) = Inr ()"
  using length_rows [OF assms(1)] count_rows [OF assms(1), of 0] assms(2,3)
  by (simp add: check_batch_def Let_def empty_batch_def)

section \<open>A tick on a sound state\<close>

text \<open>
  The scheduler's own invariant: a capacity within range, cursors far from the wrap-around, and
  a target batch that never drops below the smaller of 8 and the capacity.
\<close>

definition sch_ok :: "'r Scheduler \<Rightarrow> bool" where
  "sch_ok sch \<longleftrightarrow>
     0 \<le> batch_cap sch \<and> batch_cap sch < 2 ^ 30 \<and> rr_decode_idx sch < 2 ^ 63 \<and> rr_prefill_idx sch < 2 ^ 63 \<and>
     min 8 (batch_cap sch) \<le> target_batch sch \<and> target_batch sch \<le> max 8 (batch_cap sch)"

text \<open>
  What a tick relies on of its surroundings: a vocabulary that is not empty, and a sort that
  rearranges the token ids for the logits the model returns. The standard guarantees the latter
  when no NaN is among them (\<open>sorts_numbers\<close>); nothing else is asked of either.
\<close>

definition sorts_logits :: "psort \<Rightarrow> 'c llama \<Rightarrow> int \<Rightarrow> bool" where
  "sorts_logits psort L n_vocab \<longleftrightarrow>
     (\<forall>c i row. llama_get_logits_ith L c i = Some row \<longrightarrow> sortable psort row (nat n_vocab))"

lemma sorts_numbers:
  assumes "partial_sort psort"
    and "\<And>c i row j. llama_get_logits_ith L c i = Some row \<Longrightarrow> j < nat n_vocab \<Longrightarrow> row ! j \<noteq> NaN"
  shows "sorts_logits psort L n_vocab"
  using assms(2) by (auto simp: sorts_logits_def intro!: partial_sort.sortable_ordered [OF assms(1) fless_strict_weak])

definition env_ok :: "('c, 'r) env \<Rightarrow> bool" where
  "env_ok E \<longleftrightarrow> sorts_logits (env_psort E) (env_llama E) (vocab_n_tokens (env_vocab E)) \<and> 0 < vocab_n_tokens (env_vocab E)"

definition tick_plan :: "'r Scheduler \<Rightarrow> SessionPool \<Rightarrow> Plan \<times> Metrics option" where
  "tick_plan sch S =
     bmt_guard (sch_config sch) S
       (schedule_tick S (batch_cap sch) (target_batch sch) (rr_decode_idx sch) (rr_prefill_idx sch)) (sch_metrics sch)"

lemma tick_eq:
  assumes sch: "sch_ok sch" and ok: "pool_ok cfg S" and tp: "tick_plan sch S = (p, m)"
  shows "executable S (items p)" "tokens_of (items p) \<le> batch_cap sch"
    "decode_tok_count p + prefill_tok_count p = tokens_of (items p)" "0 \<le> decode_tok_count p"
    and "tick E now_ns dur_ns sch c S =
      (let sch0 = sch\<lparr>sch_metrics := m, rr_decode_idx := next_rr_decode_idx p, rr_prefill_idx := next_rr_prefill_idx p\<rparr>
       in if rows_of S (items p) = [] then Inr ([], sch0, c, enacted_pool S (items p))
          else Inr (run_batch E now_ns dur_ns p (append_rows empty_batch (rows_of S (items p)))
                      (refs_of S 0 (items p)) sch0 c (enacted_pool S (items p))))"
proof -
  have cur: "cursor_ok S (rr_decode_idx sch) (rr_prefill_idx sch)"
    using sch ok by (simp add: cursor_ok_def sch_ok_def pool_ok_def)
  have cap: "0 \<le> batch_cap sch" "batch_cap sch \<le> INT_MAX" using sch by (auto simp: sch_ok_def INT_MAX_def)
  note g = baseline.guarded_plan [OF ok cur cap(1) tp [unfolded tick_plan_def]]
  then show ex: "executable S (items p)" and tok: "tokens_of (items p) \<le> batch_cap sch"
    and "decode_tok_count p + prefill_tok_count p = tokens_of (items p)" "0 \<le> decode_tok_count p"
    by simp_all
  show "tick E now_ns dur_ns sch c S =
      (let sch0 = sch\<lparr>sch_metrics := m, rr_decode_idx := next_rr_decode_idx p, rr_prefill_idx := next_rr_prefill_idx p\<rparr>
       in if rows_of S (items p) = [] then Inr ([], sch0, c, enacted_pool S (items p))
          else Inr (run_batch E now_ns dur_ns p (append_rows empty_batch (rows_of S (items p)))
                      (refs_of S 0 (items p)) sch0 c (enacted_pool S (items p))))"
    using cap tp check_batch_ok [OF ex tok cap(2)]
    by (simp add: tick_def tick_plan_def Let_def enact_ok [OF ex tok]) (simp add: empty_batch_def)
qed

section \<open>One session, one transition\<close>

definition advance :: "int \<Rightarrow> ClientSession \<Rightarrow> ClientSession" where
  "advance n s = s\<lparr>prefill_idx := prefill_idx s + nat n, n_past := n_past s + n\<rparr>"

definition consume :: "ClientSession \<Rightarrow> ClientSession" where
  "consume s = s\<lparr>has_pending_tok := False\<rparr>"

definition failed :: "ClientSession \<Rightarrow> ClientSession" where
  "failed s =
     s\<lparr>last_error := ''decode error'', state := ERRORED,
       tx := append_error_event (tx s) (request_id s) ''E_RUNTIME_DECODE'' ''decode failed'', read_closed := True\<rparr>"

definition in_vocab :: "llama_vocab \<Rightarrow> int \<Rightarrow> bool" where
  "in_vocab v t \<longleftrightarrow> 0 \<le> t \<and> t < vocab_n_tokens v"

definition chunk_of :: "int \<Rightarrow> ClientSession \<Rightarrow> bool" where
  "chunk_of n s \<longleftrightarrow> prefill_ready s \<and> 1 \<le> n \<and> n \<le> wanted s"

inductive tick_trans :: "llama_vocab \<Rightarrow> RuntimeConfig \<Rightarrow> u64 \<Rightarrow> ClientSession \<Rightarrow> ClientSession \<Rightarrow> bool"
  for v cfg now_ns where
  idle: "tick_trans v cfg now_ns s s"
| prefill_failed: "chunk_of n s \<Longrightarrow> tick_trans v cfg now_ns s (failed (advance n s))"
| prefill_no_logits: "chunk_of n s \<Longrightarrow> tick_trans v cfg now_ns s (advance n s)"
| prefill_first: "chunk_of n s \<Longrightarrow> in_vocab v t \<Longrightarrow> tick_trans v cfg now_ns s (first_token v now_ns t (advance n s))"
| decode_failed: "decode_ready s \<Longrightarrow> tick_trans v cfg now_ns s (failed (consume s))"
| decode_no_logits: "decode_ready s \<Longrightarrow> tick_trans v cfg now_ns s (consume s)"
| decode_next: "decode_ready s \<Longrightarrow> in_vocab v t \<Longrightarrow> \<not> ends_stream v cfg t s \<Longrightarrow>
    tick_trans v cfg now_ns s (next_token v now_ns t (consume s))"
| decode_end: "decode_ready s \<Longrightarrow> in_vocab v t \<Longrightarrow> ends_stream v cfg t s \<Longrightarrow>
    tick_trans v cfg now_ns s (end_stream cfg now_ns (consume s))"

text \<open>The two halves of a transition: enacting an item, then the outcome of its sample.\<close>

definition sample_post :: "llama_vocab \<Rightarrow> RuntimeConfig \<Rightarrow> u64 \<Rightarrow> SampleRef \<Rightarrow> ClientSession \<Rightarrow> ClientSession \<Rightarrow> bool" where
  "sample_post v cfg now_ns sr s s' \<longleftrightarrow>
     s' = s \<or> s' = failed s \<or>
     (\<exists>t. in_vocab v t \<and>
        s' = (if sr_state_before sr = PREFILL then first_token v now_ns t s
              else if ends_stream v cfg t s then end_stream cfg now_ns s else next_token v now_ns t s))"

lemma enacted_eq:
  "enacted s x = (case it_phase x of Phase_DECODE \<Rightarrow> consume s | Phase_PREFILL \<Rightarrow> advance (it_n_tokens x) s)"
  by (simp add: enacted_def consume_def advance_def split: Phase.split)

lemma ends_stream_consume [simp]: "ends_stream v cfg t (consume s) = ends_stream v cfg t s"
  by (simp add: ends_stream_def consume_def)

lemma post_trans:
  assumes "runnable s x" and "0 < it_n_tokens x"
    and "sr_state_before sr = (case it_phase x of Phase_DECODE \<Rightarrow> DECODE | Phase_PREFILL \<Rightarrow> PREFILL)"
    and "sample_post v cfg now_ns sr (enacted s x) s'"
  shows "tick_trans v cfg now_ns s s'"
proof (cases "it_phase x")
  case Phase_DECODE
  then show ?thesis using assms
    by (auto simp: enacted_eq sample_post_def runnable_def intro: tick_trans.intros)
next
  case Phase_PREFILL
  then have "chunk_of (it_n_tokens x) s" using assms(1,2) by (simp add: runnable_def chunk_of_def)
  then show ?thesis using Phase_PREFILL assms(3,4)
    by (auto simp: enacted_eq sample_post_def intro: tick_trans.intros)
qed

lemma sample_step_other:
  assumes "f \<noteq> sr_fd sr"
  shows "pool_find (fst (sample_step E cfg now_ns sr st)) f = pool_find (fst st) f"
  using assms by (cases st) (simp add: sample_step_def Let_def pool_simps split: option.split prod.split)

lemma sample_step_this:
  assumes "env_ok E" and "pool_find (fst st) (sr_fd sr) = Some s"
  shows "\<exists>s'. pool_find (fst (sample_step E cfg now_ns sr st)) (sr_fd sr) = Some s' \<and>
    sample_post (env_vocab E) cfg now_ns sr s s'"
proof -
  obtain S c rng m fds where st: "st = (S, c, rng, m, fds)" by (metis prod_cases5)
  have s: "pool_find S (sr_fd sr) = Some s" using assms(2) st by simp
  show ?thesis
  proof (cases "llama_get_logits_ith (env_llama E) c (sr_batch_index sr)")
    case None
    then show ?thesis by (simp add: st sample_step_def s sample_post_def)
  next
    case (Some row)
    obtain t rng' where smp: "sample (env_platform E) (env_psort E) (env_uniform E) row
        (vocab_n_tokens (env_vocab E)) (sampling_params s) rng = (t, rng')" by fastforce
    have "in_vocab (env_vocab E) t"
      using sample_bounded [of "vocab_n_tokens (env_vocab E)" "sampling_params s" "env_psort E" row "env_platform E"
          "env_uniform E" rng] assms(1) Some smp
      by (simp add: env_ok_def in_vocab_def sorts_logits_def)
    then show ?thesis using Some
      by (simp add: st sample_step_def s smp Let_def pool_simps sample_post_def) blast
  qed
qed

lemma fail_sample_find:
  "f \<noteq> sr_fd sr \<Longrightarrow> pool_find (fail_sample sr S) f = pool_find S f"
  "pool_find S (sr_fd sr) = Some s \<Longrightarrow> \<exists>s'. pool_find (fail_sample sr S) (sr_fd sr) = Some s' \<and> s' = failed s"
proof -
  have "fail_sample sr S = (case pool_find S (sr_fd sr) of None \<Rightarrow> S | Some s \<Rightarrow> pool_set S (sr_fd sr) (failed s))"
    by (simp add: fail_sample_def failed_def split: option.split)
  then have find: "pool_find (fail_sample sr S) g = (if g = sr_fd sr then map_option failed (pool_find S (sr_fd sr)) else pool_find S g)" for g
    by (simp only: sessions.lookup_update)
  show "f \<noteq> sr_fd sr \<Longrightarrow> pool_find (fail_sample sr S) f = pool_find S f"
    "pool_find S (sr_fd sr) = Some s \<Longrightarrow> \<exists>s'. pool_find (fail_sample sr S) (sr_fd sr) = Some s' \<and> s' = failed s"
    by (simp_all add: find)
qed

definition tick_pool :: "'f \<times> 's \<times> 'c \<times> SessionPool \<Rightarrow> SessionPool" where
  "tick_pool r = (case r of (_, _, _, S) \<Rightarrow> S)"

text \<open>After the batch: sampled sessions follow \<open>sample_post\<close>, the others are untouched.\<close>

lemma run_batch_post:
  assumes "env_ok E" and "distinct (map sr_fd samples)"
    and S'_def: "S' = tick_pool (run_batch E now_ns dur_ns p b samples sch c S)"
  shows "(\<forall>f. f \<notin> sr_fd ` set samples \<longrightarrow> pool_find S' f = pool_find S f) \<and>
    (\<forall>sr \<in> set samples. \<forall>s. pool_find S (sr_fd sr) = Some s \<longrightarrow>
       (\<exists>s'. pool_find S' (sr_fd sr) = Some s' \<and> sample_post (env_vocab E) (sch_config sch) now_ns sr s s'))"
proof -
  obtain rc c2 where dec: "llama_decode (env_llama E)
      (if enable_perf (sch_config sch) then llama_perf_context_reset (env_llama E) c else c) b = (rc, c2)" by fastforce
  show ?thesis
  proof (cases "rc = 0")
    case True
    have "\<exists>m. S' = fst (fold (sample_step E (sch_config sch) now_ns) samples (S, c2, sch_rng sch, m, []))"
      using True by (simp add: S'_def tick_pool_def run_batch_def Let_def dec case_prod_beta) (rule exI, rule refl)
    then show ?thesis
      using fold_distinct_keys [where look = "\<lambda>st. pool_find (fst st)" and key = sr_fd,
          OF sample_step_other sample_step_this [OF assms(1)] assms(2)] by fastforce
  next
    case False
    have "S' = fold fail_sample samples S"
      using False by (simp add: S'_def tick_pool_def run_batch_def Let_def dec)
    moreover have "sample_post (env_vocab E) (sch_config sch) now_ns sr s (failed s)" for sr s
      by (simp add: sample_post_def)
    ultimately show ?thesis
      using fold_distinct_keys [where look = pool_find and key = sr_fd,
          OF fail_sample_find(1) fail_sample_find(2) assms(2)] by fastforce
  qed
qed

section \<open>Every session makes one transition\<close>

lemma refs_fds: "executable S its \<Longrightarrow> pool_wf S \<Longrightarrow> subseq (map sr_fd (refs_of S off its)) (map it_fd its)"
proof (induction its arbitrary: off)
  case (Cons x its)
  have "fd (session_of S x) = it_fd x" using executable_Cons(4) [OF Cons.prems(1)] pool_wf_find [OF Cons.prems(2)] by blast
  then show ?case using Cons.IH [OF executable_Cons(1) [OF Cons.prems(1)] Cons.prems(2)]
    by (auto simp: item_refs_def)
qed simp

lemma refs_sound:
  assumes "executable S its" and "pool_wf S" and "sr \<in> set (refs_of S off its)"
  shows "\<exists>x \<in> set its. sr_fd sr = it_fd x \<and> 0 < it_n_tokens x \<and>
    sr_state_before sr = (case it_phase x of Phase_DECODE \<Rightarrow> DECODE | Phase_PREFILL \<Rightarrow> PREFILL)"
  using assms
proof (induction its arbitrary: off)
  case (Cons x its)
  have "fd (session_of S x) = it_fd x" using executable_Cons(4) [OF Cons.prems(1)] pool_wf_find [OF Cons.prems(2)] by blast
  then show ?case using Cons.IH [OF executable_Cons(1) [OF Cons.prems(1)] Cons.prems(2)] Cons.prems(3)
    by (auto simp: item_refs_def split: if_splits)
qed simp

lemma refs_complete:
  assumes "executable S its" and "pool_wf S" and "x \<in> set its" and "0 < it_n_tokens x"
  shows "it_fd x \<in> sr_fd ` set (refs_of S off its)"
  using assms
proof (induction its arbitrary: off)
  case (Cons y its)
  have "fd (session_of S y) = it_fd y" using executable_Cons(4) [OF Cons.prems(1)] pool_wf_find [OF Cons.prems(2)] by blast
  then show ?case using Cons.IH [OF executable_Cons(1) [OF Cons.prems(1)] Cons.prems(2)] Cons.prems(3,4)
    by (auto simp: item_refs_def)
qed simp

lemma enacted_pool_find:
  assumes "executable S its"
  shows "(\<forall>f. f \<notin> it_fd ` set its \<longrightarrow> pool_find (enacted_pool S its) f = pool_find S f) \<and>
    (\<forall>x \<in> set its. pool_find (enacted_pool S its) (it_fd x) = Some (enacted (session_of S x) x))"
proof -
  have "(\<forall>f. f \<notin> it_fd ` set its \<longrightarrow> pool_find (enacted_pool S its) f = pool_find S f) \<and>
    (\<forall>x \<in> set its. \<forall>v. pool_find S (it_fd x) = Some v \<longrightarrow>
       (\<exists>v'. pool_find (enacted_pool S its) (it_fd x) = Some v' \<and> v' = enacted (session_of S x) x))"
    unfolding enacted_pool_def
    by (rule fold_distinct_keys) (use assms in \<open>auto simp: pool_simps executable_def\<close>)
  then show ?thesis using assms by (fastforce simp: executable_def)
qed

lemma tick_result:
  assumes sch: "sch_ok sch" and ok: "pool_ok cfg S" and tp: "tick_plan sch S = (p, m)"
    and t: "tick E now_ns dur_ns sch c S = Inr r"
  shows "(\<forall>x \<in> set (items p). it_n_tokens x \<le> 0) \<and> tick_pool r = enacted_pool S (items p) \<or>
    (\<exists>sch0 b. sch_config sch0 = sch_config sch \<and>
       tick_pool r = tick_pool (run_batch E now_ns dur_ns p b (refs_of S 0 (items p)) sch0 c (enacted_pool S (items p))))"
proof (cases "rows_of S (items p) = []")
  case True
  have "it_n_tokens x \<le> 0" if x: "x \<in> set (items p)" for x
  proof -
    obtain s where s: "pool_find S (it_fd x) = Some s" "runnable s x"
      using x tick_eq(1) [OF sch ok tp] by (auto simp: executable_def)
    have "item_rows (session_of S x) x = []" using True x by (simp add: rows_of_def)
    then show ?thesis using length_item_rows [OF s(2)] s(1) by (simp add: session_of_def)
  qed
  then show ?thesis using t tick_eq(5) [OF sch ok tp, of E now_ns dur_ns c] True
    by (auto simp: Let_def tick_pool_def)
next
  case False
  then show ?thesis using t tick_eq(5) [OF sch ok tp, of E now_ns dur_ns c]
    by (auto simp: Let_def intro!: disjI2 exI conjI [rotated])
qed

lemma tick_idle:
  assumes sch: "sch_ok sch" and ok: "pool_ok cfg S" and E: "env_ok E" and tp: "tick_plan sch S = (p, m)"
    and t: "tick E now_ns dur_ns sch c S = Inr r" and s: "pool_find S f = Some s"
    and idle: "\<forall>x \<in> set (items p). it_fd x = f \<longrightarrow> it_n_tokens x \<le> 0"
  shows "pool_find (tick_pool r) f = Some s"
proof -
  note ex = tick_eq(1) [OF sch ok tp]
  have wf: "pool_wf S" using ok by (simp add: pool_ok_def)
  have "enacted s x = s \<and> session_of S x = s" if "x \<in> set (items p)" "it_fd x = f" for x
  proof -
    have "runnable s x" "it_n_tokens x \<le> 0" "session_of S x = s"
      using that ex s idle by (force simp: executable_def session_of_def)+
    then show ?thesis by (auto simp: runnable_def enacted_def split: Phase.splits)
  qed
  then have en: "pool_find (enacted_pool S (items p)) f = Some s"
    using enacted_pool_find [OF ex] s by (cases "f \<in> it_fd ` set (items p)") auto
  have d: "distinct (map sr_fd (refs_of S 0 (items p)))"
    using subseq_distinct [OF refs_fds [OF ex wf]] ex by (auto simp: executable_def)
  have "f \<notin> sr_fd ` set (refs_of S 0 (items p))"
    using refs_sound [OF ex wf] idle by fastforce
  then show ?thesis
    using tick_result [OF sch ok tp t] en run_batch_post [OF E d refl] by fastforce
qed

text \<open>A planned item with tokens has its own sample, taken after its session was enacted.\<close>

lemma served_sample:
  assumes sch: "sch_ok sch" and ok: "pool_ok cfg S" and tp: "tick_plan sch S = (p, m)"
    and t: "tick E now_ns dur_ns sch c S = Inr r"
    and x: "x \<in> set (items p)" "0 < it_n_tokens x" and s: "pool_find S (it_fd x) = Some s"
  shows "\<exists>sr sch0 b samples S1. sr \<in> set samples \<and> sr_fd sr = it_fd x \<and> distinct (map sr_fd samples) \<and>
    sr_state_before sr = (case it_phase x of Phase_DECODE \<Rightarrow> DECODE | Phase_PREFILL \<Rightarrow> PREFILL) \<and>
    runnable s x \<and> pool_find S1 (it_fd x) = Some (enacted s x) \<and> sch_config sch0 = sch_config sch \<and>
    tick_pool r = tick_pool (run_batch E now_ns dur_ns p b samples sch0 c S1)"
proof -
  note ex = tick_eq(1) [OF sch ok tp]
  have wf: "pool_wf S" using ok by (simp add: pool_ok_def)
  have run: "runnable s x" "session_of S x = s" using x(1) ex s by (auto simp: executable_def session_of_def)
  have en: "pool_find (enacted_pool S (items p)) (it_fd x) = Some (enacted s x)"
    using enacted_pool_find [OF ex] x(1) run(2) by auto
  have d: "distinct (map sr_fd (refs_of S 0 (items p)))" "distinct (map it_fd (items p))"
    using subseq_distinct [OF refs_fds [OF ex wf]] ex by (auto simp: executable_def)
  obtain sr where sr: "sr \<in> set (refs_of S 0 (items p))" "sr_fd sr = it_fd x"
    using refs_complete [OF ex wf x] by (metis imageE)
  obtain y where "y \<in> set (items p)" "sr_fd sr = it_fd y"
    "sr_state_before sr = (case it_phase y of Phase_DECODE \<Rightarrow> DECODE | Phase_PREFILL \<Rightarrow> PREFILL)"
    using refs_sound [OF ex wf sr(1)] by blast
  then have "sr_state_before sr = (case it_phase x of Phase_DECODE \<Rightarrow> DECODE | Phase_PREFILL \<Rightarrow> PREFILL)"
    using x(1) sr(2) d(2) by (metis distinct_map inj_on_eq_iff)
  moreover obtain sch0 b where "sch_config sch0 = sch_config sch"
    "tick_pool r = tick_pool (run_batch E now_ns dur_ns p b (refs_of S 0 (items p)) sch0 c (enacted_pool S (items p)))"
    using tick_result [OF sch ok tp t] x by fastforce
  ultimately show ?thesis using sr d(1) run(1) en by blast
qed

lemma tick_served:
  assumes sch: "sch_ok sch" and ok: "pool_ok cfg S" and E: "env_ok E" and tp: "tick_plan sch S = (p, m)"
    and t: "tick E now_ns dur_ns sch c S = Inr r"
    and x: "x \<in> set (items p)" "0 < it_n_tokens x" and s: "pool_find S (it_fd x) = Some s"
  shows "\<exists>s'. pool_find (tick_pool r) (it_fd x) = Some s' \<and> tick_trans (env_vocab E) (sch_config sch) now_ns s s'"
proof -
  from served_sample [OF sch ok tp t x s] obtain sr sch0 b samples S1 where
    sr: "sr \<in> set samples" "sr_fd sr = it_fd x" "distinct (map sr_fd samples)"
      "sr_state_before sr = (case it_phase x of Phase_DECODE \<Rightarrow> DECODE | Phase_PREFILL \<Rightarrow> PREFILL)"
    and run: "runnable s x" and en: "pool_find S1 (it_fd x) = Some (enacted s x)"
    and r: "sch_config sch0 = sch_config sch" "tick_pool r = tick_pool (run_batch E now_ns dur_ns p b samples sch0 c S1)"
    by blast
  then obtain s' where "pool_find (tick_pool r) (it_fd x) = Some s'"
    "sample_post (env_vocab E) (sch_config sch) now_ns sr (enacted s x) s'"
    using run_batch_post [OF E sr(3) refl] by metis
  then show ?thesis using post_trans [OF run x(2) sr(4)] by blast
qed

lemma tick_trans_all:
  assumes "sch_ok sch" and "pool_ok cfg S" and "env_ok E" and "tick E now_ns dur_ns sch c S = Inr r"
    and "pool_find S f = Some s"
  shows "\<exists>s'. pool_find (tick_pool r) f = Some s' \<and> tick_trans (env_vocab E) (sch_config sch) now_ns s s'"
proof -
  obtain p m where tp: "tick_plan sch S = (p, m)" by fastforce
  show ?thesis
  proof (cases "\<exists>x \<in> set (items p). it_fd x = f \<and> 0 < it_n_tokens x")
    case True
    then show ?thesis using tick_served [OF assms(1-3) tp assms(4)] assms(5) by metis
  next
    case False
    then have "pool_find (tick_pool r) f = Some s"
      by (intro tick_idle [OF assms(1-3) tp assms(4,5)]) (auto simp: not_less)
    then show ?thesis by (blast intro: tick_trans.idle)
  qed
qed

section \<open>The invariant\<close>

lemma pool_set_keys: "k \<in> fst ` set p \<Longrightarrow> map fst (pool_set p k s) = map fst p"
  unfolding pool_set_def by (rule keys_update_present) (simp add: map_of_eq_None_iff)

lemma pool_find_key: "pool_find p k = Some s \<Longrightarrow> k \<in> fst ` set p"
  unfolding pool_find_def by (force dest: map_of_SomeD)

lemma fold_keys:
  assumes "\<And>x st. x \<in> set xs \<Longrightarrow> map fst (pool st) = K \<Longrightarrow> map fst (pool (g x st)) = K"
    and "map fst (pool st) = K"
  shows "map fst (pool (fold g xs st)) = K"
  using assms by (induction xs arbitrary: st) simp_all

lemma sample_step_keys: "map fst (fst (sample_step E cfg now_ns sr st)) = map fst (fst st)"
  by (cases st) (auto simp: sample_step_def Let_def pool_set_keys pool_find_key split: option.split prod.split)

lemma fail_sample_keys: "map fst (fail_sample sr S) = map fst S"
  by (auto simp: fail_sample_def pool_set_keys pool_find_key split: option.split)

lemma enacted_pool_keys:
  assumes "executable S its"
  shows "map fst (enacted_pool S its) = map fst S"
  unfolding enacted_pool_def
proof (rule fold_keys [where pool = "\<lambda>p. p"])
  fix x and p :: SessionPool assume x: "x \<in> set its" and "map fst p = map fst S"
  then have "fst ` set p = fst ` set S" by (metis set_map)
  then show "map fst (pool_set p (it_fd x) (enacted (session_of S x) x)) = map fst S"
    using x assms \<open>map fst p = map fst S\<close> pool_set_keys pool_find_key by (metis executable_def)
qed simp

lemma run_batch_keys: "map fst (tick_pool (run_batch E now_ns dur_ns p b samples sch c S)) = map fst S"
proof -
  have "map fst (fst (fold (sample_step E cfg now_ns) samples st)) = map fst (fst st)" for cfg st
    by (rule fold_keys [where pool = fst]) (simp_all add: sample_step_keys)
  moreover have "map fst (fold fail_sample samples S) = map fst S"
    by (rule fold_keys [where pool = "\<lambda>p. p"]) (simp_all add: fail_sample_keys)
  ultimately show ?thesis
    by (simp add: tick_pool_def run_batch_def Let_def case_prod_beta)
qed

lemma tick_keys:
  assumes "sch_ok sch" and "pool_ok cfg S" and "tick E now_ns dur_ns sch c S = Inr r"
  shows "map fst (tick_pool r) = map fst S"
proof -
  obtain p m where tp: "tick_plan sch S = (p, m)" by fastforce
  show ?thesis
    using tick_result [OF assms(1,2) tp assms(3)] enacted_pool_keys [OF tick_eq(1) [OF assms(1,2) tp]]
    by (auto simp: run_batch_keys)
qed

lemmas session_outcomes = failed_def advance_def consume_def first_token_def next_token_def end_stream_def
  stamp_emit_def emit_piece_def Let_def

lemma tick_trans_fd: "tick_trans v cfg now_ns s s' \<Longrightarrow> fd s' = fd s"
  by (cases rule: tick_trans.cases) (auto simp: session_outcomes)

lemma count_step:
  assumes "x < (y :: u32)"
  shows "uint (x + 1) = uint x + 1" "x + 1 \<le> y"
proof -
  show "uint (x + 1) = uint x + 1"
    using assms uint_plus_if' [of x 1] uint_lt2p [of y] by (simp add: word_less_def)
  then show "x + 1 \<le> y" using assms by (simp add: word_less_def word_le_def)
qed

lemma remaining_advance: "chunk_of n s \<Longrightarrow> remaining (advance n s) = remaining s - n"
  by (auto simp: chunk_of_def remaining_def advance_def)

lemma sess_ok_advance: "chunk_of n s \<Longrightarrow> sess_ok cfg s \<Longrightarrow> sess_ok cfg (advance n s)"
  using remaining_advance [of n s] wanted_le_remaining [of s]
  by (auto simp: sess_ok_def chunk_of_def prefill_ready_def advance_def remaining_def)

lemma sess_ok_cong:
  "state s' = state s \<Longrightarrow> n_past s' = n_past s \<Longrightarrow> prefill_idx s' = prefill_idx s \<Longrightarrow> prompt_tokens s' = prompt_tokens s \<Longrightarrow>
   generated_count s' = generated_count s \<Longrightarrow> sess_ok cfg s' = sess_ok cfg s"
  by (simp add: sess_ok_def remaining_def)

lemma outcome_fields [simp]:
  "n_past (failed s) = n_past s" "prefill_idx (failed s) = prefill_idx s"
  "prompt_tokens (failed s) = prompt_tokens s" "generated_count (failed s) = generated_count s"
  "n_past (first_token v t i s) = n_past s" "prefill_idx (first_token v t i s) = prefill_idx s"
  "prompt_tokens (first_token v t i s) = prompt_tokens s" "generated_count (first_token v t i s) = generated_count s"
  "n_past (consume s) = n_past s" "prefill_idx (consume s) = prefill_idx s"
  "prompt_tokens (consume s) = prompt_tokens s" "generated_count (consume s) = generated_count s"
  "state (consume s) = state s" "state (failed s) = ERRORED" "state (first_token v t i s) = DECODE"
  by (simp_all add: session_outcomes)

lemma sess_ok_next:
  assumes "sess_ok cfg s" and "\<not> ends_stream v cfg t s"
  shows "sess_ok cfg (next_token v now_ns t s)"
proof -
  have lt: "generated_count s < max_tokens cfg" using assms(2) by (auto simp: ends_stream_def)
  have "i32 (n_past s + 1) = n_past s + 1" using sess_ok_room [OF assms(1)] by (intro i32_id) auto
  then show ?thesis using assms(1) count_step [OF lt] sess_ok_room [OF assms(1)]
    by (auto simp: sess_ok_def session_outcomes split: if_splits)
qed

lemma sess_ok_end: "sess_ok cfg s \<Longrightarrow> sess_ok cfg (end_stream conf now_ns s)"
  using sess_ok_room [of cfg s] by (auto simp: sess_ok_def session_outcomes split: if_splits)

lemma sess_ok_consume: "sess_ok cfg (consume s) = sess_ok cfg s"
  by (rule sess_ok_cong) simp_all

lemma sess_ok_outcome: "sess_ok cfg s \<Longrightarrow> sess_ok cfg (failed s)" "sess_ok cfg s \<Longrightarrow> sess_ok cfg (first_token v now_ns t s)"
  by (rule sess_ok_leave; simp)+

lemma tick_trans_ok:
  assumes "tick_trans v cfg now_ns s s'" and "sess_ok cfg s"
  shows "sess_ok cfg s'"
  using assms
  by (cases rule: tick_trans.cases)
    (simp_all add: sess_ok_advance sess_ok_consume sess_ok_outcome sess_ok_next sess_ok_end)

lemma tick_pool_ok:
  assumes sch: "sch_ok sch" and ok: "pool_ok (sch_config sch) S" and E: "env_ok E"
    and t: "tick E now_ns dur_ns sch c S = Inr r"
  shows "pool_ok (sch_config sch) (tick_pool r)"
proof -
  note keys = tick_keys [OF sch ok t] and steps = tick_trans_all [OF sch ok E t]
  have wf: "pool_wf S" using ok by (simp add: pool_ok_def)
  have each: "fd s' = f \<and> sess_ok (sch_config sch) s'" if find: "pool_find (tick_pool r) f = Some s'" for f s'
  proof -
    have "f \<in> fst ` set S" using pool_find_key [OF find] keys by (metis set_map)
    then obtain s where s: "pool_find S f = Some s"
      unfolding pool_find_def by (metis map_of_eq_None_iff not_None_eq)
    then show ?thesis
      using steps [OF s] find tick_trans_fd tick_trans_ok ok pool_wf_find [OF wf s] by (auto simp: pool_ok_def)
  qed
  have d: "distinct (map fst (tick_pool r))" using keys wf by (simp add: pool_wf_def)
  then have "pool_wf (tick_pool r)"
    using each by (auto simp: pool_wf_def pool_find_def)
  moreover have "length (tick_pool r) = length S" using keys by (metis length_map)
  ultimately show ?thesis using each ok by (simp add: pool_ok_def)
qed

section \<open>The scheduler's own state\<close>

lemma literal_07: "\<exists>q. fround f64 (7 / 10) = Fin q \<and> 0 \<le> q \<and> q \<le> 1"
  using fround_between [of "7 / 10" 1] by simp

lemma cast_i32_between:
  assumes "0 \<le> r" and "r \<le> of_int n" and "n \<le> INT_MAX"
  shows "0 \<le> cast_i32 P (Fin r) \<and> cast_i32 P (Fin r) \<le> n"
proof -
  have "0 \<le> \<lfloor>r\<rfloor>" "\<lfloor>r\<rfloor> \<le> n" using assms(1,2) by (simp, metis floor_mono floor_of_int)
  moreover from this have "\<lfloor>r\<rfloor> \<le> 2147483647" "- 2147483648 \<le> \<lfloor>r\<rfloor>" using assms(3) unfolding INT_MAX_def by linarith+
  ultimately show ?thesis
    using assms(1) unfolding cast_i32_def cast_int_def trunc_rat_def Let_def by (simp only: fl.case if_True simp_thms)
qed

lemma shrink_between:
  assumes "0 \<le> t" and "t < 2 ^ 30"
  shows "0 \<le> cast_i32 P (fmul f64 (of_integer f64 t) (fround f64 (7 / 10))) \<and>
         cast_i32 P (fmul f64 (of_integer f64 t) (fround f64 (7 / 10))) \<le> t"
proof -
  obtain q where q: "fround f64 (7 / 10) = Fin q" "0 \<le> q" "q \<le> 1" using literal_07 by blast
  have t: "of_integer f64 t = Fin (of_int t)" using fround_int [of t] assms by (simp add: of_integer_def)
  have "0 \<le> of_int t * q" "of_int t * q \<le> of_int t"
    using assms(1) q by (simp_all add: mult_left_le)
  then obtain y where "fround f64 (of_int t * q) = Fin y" "0 \<le> y" "y \<le> of_int t"
    using fround_between [of "of_int t * q" t] assms(2) by auto
  then show ?thesis using cast_i32_between [of y t P] assms(2) by (simp add: q(1) t INT_MAX_def)
qed

lemma tune_target_range:
  assumes "1 \<le> cap" and "cap < 2 ^ 30" and "min 8 cap \<le> target" and "target \<le> max 8 cap"
  shows "min 8 cap \<le> tune_target P cap ewma target \<and> tune_target P cap ewma target \<le> max 8 cap"
proof -
  have t: "0 < target" "target < 2 ^ 30" using assms by auto
  have "target + max 1 (target div 8) \<le> INT_MAX" using t by (auto simp: INT_MAX_def)
  then have "i32 (target + max 1 (target div 8)) = target + max 1 (target div 8)"
    using t by (intro i32_id) auto
  moreover have "min cap x \<le> max 8 cap" for x :: int by simp
  ultimately show ?thesis
    using shrink_between [of target P] t assms by (auto simp: tune_target_def)
qed

lemma plan_cursors:
  assumes "length S \<le> 2 ^ 63"
  shows "next_rr_decode_idx (schedule_tick S cap tgt rd rp) < 2 ^ 63"
    and "next_rr_prefill_idx (schedule_tick S cap tgt rd rp) < 2 ^ 63"
proof -
  have m: "x mod length xs < 2 ^ 63" if "xs \<noteq> []" "length xs \<le> length S" for x and xs :: "int list"
    using that assms by (meson le_less_trans less_le_trans length_greater_0_conv mod_less_divisor)
  show "next_rr_decode_idx (schedule_tick S cap tgt rd rp) < 2 ^ 63"
    and "next_rr_prefill_idx (schedule_tick S cap tgt rd rp) < 2 ^ 63"
    using m pool_lengths [of S] by (auto simp: schedule_tick_eq plan_of_def Let_def)
qed

lemma guard_cursors:
  assumes "bmt_guard cfg S p0 m0 = (p, m)"
  shows "next_rr_decode_idx p = next_rr_decode_idx p0" "next_rr_prefill_idx p = next_rr_prefill_idx p0"
  using assms by (auto simp: bmt_guard_def bmt_trim_def Let_def split: if_splits prod.splits)

lemma run_batch_sch:
  "run_batch E now_ns dur_ns p b samples sch c S = (fds, sch', c', S') \<Longrightarrow>
   batch_cap sch' = batch_cap sch \<and> rr_decode_idx sch' = rr_decode_idx sch \<and> rr_prefill_idx sch' = rr_prefill_idx sch \<and>
   sch_config sch' = sch_config sch \<and>
   target_batch sch' = tune_target (env_platform E) (batch_cap sch) (decode_ms_ewma sch') (target_batch sch)"
  by (auto simp: run_batch_def Let_def split: prod.splits if_splits)

lemma tick_sch:
  assumes sch: "sch_ok sch" and ok: "pool_ok cfg S" and t: "tick E now_ns dur_ns sch c S = Inr (fds, sch', c', S')"
  shows "sch_ok sch' \<and> batch_cap sch' = batch_cap sch \<and> sch_config sch' = sch_config sch"
proof -
  obtain p m where tp: "tick_plan sch S = (p, m)" by fastforce
  define sch0 where "sch0 = sch\<lparr>sch_metrics := m, rr_decode_idx := next_rr_decode_idx p, rr_prefill_idx := next_rr_prefill_idx p\<rparr>"
  have cur: "next_rr_decode_idx p < 2 ^ 63" "next_rr_prefill_idx p < 2 ^ 63"
    using guard_cursors [OF tp [unfolded tick_plan_def]] plan_cursors ok by (auto simp: pool_ok_def)
  note eq = tick_eq(1-4) [OF sch ok tp] tick_eq(5) [OF sch ok tp, of E now_ns dur_ns c]
  show ?thesis
  proof (cases "rows_of S (items p) = []")
    case True
    then have "sch' = sch0" using t eq(5) by (simp add: Let_def sch0_def)
    then show ?thesis using sch cur by (simp add: sch_ok_def sch0_def)
  next
    case False
    then have "0 < int (length (rows_of S (items p)))" by simp
    then have cap: "1 \<le> batch_cap sch" using length_rows [OF eq(1)] eq(2) by simp
    have "run_batch E now_ns dur_ns p (append_rows empty_batch (rows_of S (items p))) (refs_of S 0 (items p)) sch0 c
        (enacted_pool S (items p)) = (fds, sch', c', S')"
      using t eq(5) False by (simp add: Let_def sch0_def)
    from run_batch_sch [OF this] show ?thesis
      using sch cur tune_target_range [OF cap] by (simp add: sch_ok_def sch0_def)
  qed
qed

lemma tick_Inr:
  assumes "sch_ok sch" and "pool_ok cfg S"
  shows "\<exists>fds sch' c' S'. tick E now_ns dur_ns sch c S = Inr (fds, sch', c', S')"
proof -
  obtain p m where tp: "tick_plan sch S = (p, m)" by fastforce
  show ?thesis using tick_eq(5) [OF assms tp, of E now_ns dur_ns c] by (simp add: Let_def) (metis prod_cases4)
qed

end
