(* ===== verification/Daemon.thy ===== *)
theory Daemon
  imports Session_Manager Tick
begin

text \<open>
  The daemon's event loop, \<open>src/src/umad/main.cpp\<close>: accepting, the handlers of readable and
  writable clients, the idle clean-up, the tick and the arming of its descriptors. What system
  calls return is an input of each step. The loop's invariants are proved in Daemon_Invariant and
  Daemon_Flush.
\<close>

section \<open>State and inputs\<close>

record ('k, 'c, 'r) daemon =
  d_sm :: SessionManager
  d_kq :: 'k
  d_ctx :: 'c
  d_sched :: "'r Scheduler"

text \<open>
  The fixed environment: the scheduler's, the kernel queue, the listening descriptor, the
  configuration, whether the log level is debug, the format of \<open>long double\<close>.
\<close>

record ('k, 'c, 'r) denv =
  de_env :: "('c, 'r) env"
  de_kernel :: "'k kernel"
  de_server :: int
  de_cfg :: RuntimeConfig
  de_debug :: bool
  de_ld :: fmt
  de_rehash :: "SessionPool \<Rightarrow> SessionPool"

datatype write_result = Wrote nat | Write_Again | Write_Failed

text \<open>
  What the system calls made for one ready event return: the accepted descriptor with the
  kernel's state after it, the reads, the single write after a read, the writes of a drain
  (when the list is used up the socket is full), the clock.
\<close>

record 'k io =
  io_accept :: "int \<times> 'k"
  io_reads :: "byte list list \<times> read_end"
  io_write :: write_result
  io_writes :: "write_result list"
  io_now :: u64

definition upd_session :: "int \<Rightarrow> (ClientSession \<Rightarrow> ClientSession) \<Rightarrow> ('k, 'c, 'r) daemon \<Rightarrow> ('k, 'c, 'r) daemon" where
  "upd_session f g d =
     (case find_session (d_sm d) f of
        None \<Rightarrow> d
      | Some s \<Rightarrow> d\<lparr>d_sm := (d_sm d)\<lparr>sm_sessions := pool_set (sm_sessions (d_sm d)) f (g s)\<rparr>\<rparr>)"

definition d_add :: "('k, 'c, 'r) denv \<Rightarrow> int \<Rightarrow> PollFlags \<Rightarrow> ('k, 'c, 'r) daemon \<Rightarrow> ('k, 'c, 'r) daemon" where
  "d_add D f fl d = d\<lparr>d_kq := snd (poller_add (de_kernel D) (d_kq d) f fl)\<rparr>"

definition d_remove :: "('k, 'c, 'r) denv \<Rightarrow> int \<Rightarrow> PollFlags \<Rightarrow> ('k, 'c, 'r) daemon \<Rightarrow> ('k, 'c, 'r) daemon" where
  "d_remove D f fl d = d\<lparr>d_kq := snd (poller_remove (de_kernel D) (d_kq d) f fl)\<rparr>"

definition d_close :: "('k, 'c, 'r) denv \<Rightarrow> int \<Rightarrow> ('k, 'c, 'r) daemon \<Rightarrow> ('k, 'c, 'r) daemon" where
  "d_close D f d =
     (case close_session (de_kernel D) (env_llama (de_env D)) f (d_sm d, d_kq d, d_ctx d) of
        (sm, k, c) \<Rightarrow> d\<lparr>d_sm := sm, d_kq := k, d_ctx := c\<rparr>)"

section \<open>Accepting\<close>

definition on_accept :: "('k, 'c, 'r) denv \<Rightarrow> 'k io \<Rightarrow> ('k, 'c, 'r) daemon \<Rightarrow> ('k, 'c, 'r) daemon" where
  "on_accept D io d =
     (case io_accept io of (cfd, k) \<Rightarrow>
        let d1 = d\<lparr>d_kq := k\<rparr> in
          if cfd < 0 then d1
          else if length (sm_sessions (d_sm d1)) \<ge> unat (max_sessions (de_cfg D))
          then d1\<lparr>d_kq := sys_close (de_kernel D) (d_kq d1) cfd\<rparr>
          else d_add D cfd PollFlags_Read (d1\<lparr>d_sm := add_client (de_rehash D) (d_sm d1) cfd (io_now io)\<rparr>))"

section \<open>Readable clients\<close>

definition metrics_payload :: "fmt \<Rightarrow> Metrics \<Rightarrow> u32 \<Rightarrow> bool \<Rightarrow> string" where
  "metrics_payload LD m active dbg =
     ''{'' @ dquote @ ''event'' @ dquote @ '':'' @ dquote @ ''metrics'' @ dquote @ '','' @
     dquote @ ''metrics'' @ dquote @ '':'' @ to_json LD m active dbg @ ''}''"

definition reset_session :: "ClientSession \<Rightarrow> ClientSession" where
  "reset_session s =
     s\<lparr>state := RECV_REQ, prompt_tokens := [], prefill_idx := 0, generated_count := 0, has_pending_tok := False,
       n_past := 0, req_start_ns := 0, first_emit_ns := 0, last_emit_ns := 0\<rparr>"

definition answer_admin :: "('k, 'c, 'r) denv \<Rightarrow> int \<Rightarrow> ('k, 'c, 'r) daemon \<Rightarrow> ('k, 'c, 'r) daemon" where
  "answer_admin D f d =
     (let m = (case sch_metrics (d_sched d) of Some m \<Rightarrow> m | None \<Rightarrow> new_metrics);
          active = word_of_nat (length (sm_sessions (d_sm d)))
      in d_remove D f PollFlags_Read
           (upd_session f (\<lambda>s. s\<lparr>tx := write_frame (tx s) (metrics_payload (de_ld D) m active (de_debug D)),
                                 state := STREAM, read_closed := True\<rparr>) d))"

text \<open>After the immediate write: arm what is left, or finish the response.\<close>

definition finish_read :: "('k, 'c, 'r) denv \<Rightarrow> int \<Rightarrow> ('k, 'c, 'r) daemon \<Rightarrow> ('k, 'c, 'r) daemon" where
  "finish_read D f d =
     (case find_session (d_sm d) f of
        None \<Rightarrow> d
      | Some s \<Rightarrow>
          if tx s \<noteq> [] then d_add D f PollFlags_Write d
          else if state s = ERRORED then d_close D f d
          else if state s = STREAM then
            (if read_closed s then d_close D f d else d_add D f PollFlags_Read (upd_session f reset_session d))
          else d)"

definition write_now :: "write_result \<Rightarrow> ClientSession \<Rightarrow> ClientSession" where
  "write_now w s =
     (if tx s = [] then s
      else case w of Wrote n \<Rightarrow> s\<lparr>tx := drop n (tx s)\<rparr> | _ \<Rightarrow> s)"

text \<open>
  Up to the write: the session after \<open>on_readable\<close> and, for an admin request, the answer, with
  the poller told; and whether there is something to write.
\<close>

definition read_answer :: "('k, 'c, 'r) denv \<Rightarrow> int \<Rightarrow> 'k io \<Rightarrow> ('k, 'c, 'r) daemon \<Rightarrow> ('k, 'c, 'r) daemon \<times> bool" where
  "read_answer D f io d =
     (case on_readable (env_platform (de_env D)) f (de_cfg D) (Some (env_vocab (de_env D))) (io_now io)
             (fst (io_reads io)) (snd (io_reads io)) (d_sm d) of
        (sm, rr) \<Rightarrow>
          let d1 = d\<lparr>d_sm := sm\<rparr> in
            case find_session sm f of
              None \<Rightarrow> (d1, False)
            | Some _ \<Rightarrow>
                let d2 = (if admin_request rr then answer_admin D f d1 else d1);
                    d3 = (if removed_read rr then d_remove D f PollFlags_Read d2 else d2)
                in (d3, wants_write rr \<or> admin_request rr))"

definition on_client_read :: "('k, 'c, 'r) denv \<Rightarrow> int \<Rightarrow> 'k io \<Rightarrow> ('k, 'c, 'r) daemon \<Rightarrow> ('k, 'c, 'r) daemon" where
  "on_client_read D f io d =
     (case read_answer D f io d of
        (d3, wants) \<Rightarrow> if wants then finish_read D f (upd_session f (write_now (io_write io)) d3) else d3)"

section \<open>Writable clients\<close>

text \<open>The drain: what is left of the queue, and whether a write failed.\<close>

fun drain_tx :: "u64 \<Rightarrow> write_result list \<Rightarrow> ClientSession \<Rightarrow> ClientSession \<times> bool" where
  "drain_tx now_ns [] s = (s, False)"
| "drain_tx now_ns (w # ws) s =
     (if tx s = [] then (s, False)
      else case w of
             Wrote n \<Rightarrow> drain_tx now_ns ws (s\<lparr>tx := drop n (tx s), last_activity_ns := now_ns\<rparr>)
           | Write_Again \<Rightarrow> (s, False)
           | Write_Failed \<Rightarrow> (s, True))"

definition on_client_write :: "('k, 'c, 'r) denv \<Rightarrow> int \<Rightarrow> 'k io \<Rightarrow> ('k, 'c, 'r) daemon \<Rightarrow> ('k, 'c, 'r) daemon" where
  "on_client_write D f io d =
     (case find_session (d_sm d) f of
        None \<Rightarrow> d
      | Some s \<Rightarrow>
          (case drain_tx (io_now io) (io_writes io) s of
             (s', broken) \<Rightarrow>
               let d1 = upd_session f (\<lambda>_. s') d in
                 if broken then d_close D f d1
                 else if tx s' \<noteq> [] then d1
                 else
                   let d2 = d_remove D f PollFlags_Write d1 in
                     if state s' = ERRORED then d_close D f d2
                     else if state s' = STREAM then
                       (if read_closed s' then d_close D f d2 else upd_session f reset_session d2)
                     else d2))"

definition handle_event :: "('k, 'c, 'r) denv \<Rightarrow> PollEvent \<times> 'k io \<Rightarrow> ('k, 'c, 'r) daemon \<Rightarrow> ('k, 'c, 'r) daemon" where
  "handle_event D = (\<lambda>(ev, io) d.
     if ev_fd ev = de_server D \<and> readable ev then on_accept D io d
     else if readable ev then on_client_read D (ev_fd ev) io d
     else if writable ev then on_client_write D (ev_fd ev) io d
     else d)"

section \<open>The rest of an iteration\<close>

definition has_ready_work :: "SessionPool \<Rightarrow> bool" where
  "has_ready_work sessions \<longleftrightarrow>
     list_ex (\<lambda>(k, s). (state s = PREFILL \<and> prefill_idx s < length (prompt_tokens s)) \<or>
                       (state s = DECODE \<and> has_pending_tok s)) sessions"

definition wait_time_ms :: "SessionPool \<Rightarrow> int" where
  "wait_time_ms sessions = (if has_ready_work sessions then 0 else 200 * 1000 * 1000)"

definition idle_fds :: "RuntimeConfig \<Rightarrow> u64 \<Rightarrow> SessionPool \<Rightarrow> int list" where
  "idle_fds cfg now sessions =
     (let idle_ns = ucast (idle_timeout_sec cfg) * 1000 * 1000 * 1000
      in [fd s. (k, s) \<leftarrow> sessions, idle_ns > 0 \<and> now - last_activity_ns s > idle_ns])"

definition close_idle :: "('k, 'c, 'r) denv \<Rightarrow> u64 \<Rightarrow> ('k, 'c, 'r) daemon \<Rightarrow> ('k, 'c, 'r) daemon" where
  "close_idle D now d = fold (d_close D) (idle_fds (de_cfg D) now (sm_sessions (d_sm d))) d"

definition arm :: "('k, 'c, 'r) denv \<Rightarrow> int \<Rightarrow> ('k, 'c, 'r) daemon \<Rightarrow> ('k, 'c, 'r) daemon" where
  "arm D f d =
     (case find_session (d_sm d) f of
        Some s \<Rightarrow> if tx s \<noteq> [] then d_add D f PollFlags_Write d else d
      | None \<Rightarrow> d)"

definition tick_and_arm :: "('k, 'c, 'r) denv \<Rightarrow> u64 \<Rightarrow> nat \<Rightarrow> ('k, 'c, 'r) daemon \<Rightarrow> tick_error + ('k, 'c, 'r) daemon" where
  "tick_and_arm D now dur d =
     bindE (tick (de_env D) now dur (d_sched d) (d_ctx d) (sm_sessions (d_sm d)))
       (\<lambda>(fds, sch, c, S).
          Inr (fold (arm D) fds (d\<lparr>d_sm := (d_sm d)\<lparr>sm_sessions := S\<rparr>, d_sched := sch, d_ctx := c\<rparr>)))"

definition iterate :: "('k, 'c, 'r) denv \<Rightarrow> (PollEvent \<times> 'k io) list \<Rightarrow> u64 \<Rightarrow> u64 \<Rightarrow> nat \<Rightarrow>
    ('k, 'c, 'r) daemon \<Rightarrow> tick_error + ('k, 'c, 'r) daemon" where
  "iterate D evs now_idle now_tick dur d =
     tick_and_arm D now_tick dur (close_idle D now_idle (fold (handle_event D) evs d))"

end
