(* ===== verification/Daemon_Invariant.thy ===== *)
theory Daemon_Invariant
  imports Daemon
begin

text \<open>
  The invariant of the daemon: the session table is sound and within its limit, live sessions
  hold distinct sequence ids, the scheduler is sound. Each operation of the session manager and
  of the event loop preserves it, and an iteration of the loop never fails from it.
\<close>

section \<open>The invariant of the session table\<close>

definition seq_ok :: "SessionManager \<Rightarrow> bool" where
  "seq_ok sm \<longleftrightarrow>
     1 \<le> next_seq_id sm \<and>
     (\<forall>f s. pool_find (sm_sessions sm) f = Some s \<longrightarrow> seq s < next_seq_id sm) \<and>
     (\<forall>f g s t. pool_find (sm_sessions sm) f = Some s \<longrightarrow> pool_find (sm_sessions sm) g = Some t \<longrightarrow>
        f \<noteq> g \<longrightarrow> 0 \<le> seq s \<longrightarrow> seq s \<noteq> seq t)"

definition sm_ok :: "RuntimeConfig \<Rightarrow> SessionManager \<Rightarrow> bool" where
  "sm_ok cfg sm \<longleftrightarrow>
     pool_ok cfg (sm_sessions sm) \<and> length (sm_sessions sm) \<le> unat (max_sessions cfg) \<and> seq_ok sm"

definition limits_ok :: "RuntimeConfig \<Rightarrow> llama_vocab \<Rightarrow> bool" where
  "limits_ok cfg v \<longleftrightarrow>
     uint (max_tokens cfg) < INT_MAX \<and>
     (\<forall>str. length str \<le> unat (max_prompt_bytes cfg) \<longrightarrow>
        int (length (tokenize (Some v) str True True)) + uint (max_tokens cfg) < INT_MAX)"

lemma pool_ok_set:
  assumes ok: "pool_ok cfg S" and s: "pool_find S f = Some s" and s': "fd s' = fd s" "sess_ok cfg s'"
  shows "pool_ok cfg (pool_set S f s') \<and> length (pool_set S f s') = length S"
proof -
  have wf: "pool_wf S" using ok by (simp add: pool_ok_def)
  have len: "length (pool_set S f s') = length S" using pool_keys_set [OF s, of s'] by (metis length_map)
  have "pool_wf (pool_set S f s')" by (rule sessions.wf_change [OF wf s s'(1)])
  then show ?thesis using ok s'(2) len by (auto simp: pool_ok_def pool_simps split: if_splits)
qed

lemma sm_ok_keep:
  assumes ok: "sm_ok cfg sm" and s: "pool_find (sm_sessions sm) f = Some s"
    and s': "fd s' = fd s" "seq s' = seq s" "sess_ok cfg s'"
  shows "sm_ok cfg (sm\<lparr>sm_sessions := pool_set (sm_sessions sm) f s'\<rparr>)"
  using ok s s' pool_ok_set [of cfg "sm_sessions sm" f s s'] unfolding sm_ok_def seq_ok_def
  by (auto simp: pool_simps split: if_splits)

lemma sm_ok_fresh:
  assumes ok: "sm_ok cfg sm" and s: "pool_find (sm_sessions sm) f = Some s"
    and s': "fd s' = fd s" "seq s' = next_seq_id sm" "sess_ok cfg s'"
  shows "sm_ok cfg \<lparr>sm_sessions = pool_set (sm_sessions sm) f s', next_seq_id = next_seq_id sm + 1\<rparr>"
proof -
  have sq: "seq_ok sm" using ok by (simp add: sm_ok_def)
  have lt: "seq t < next_seq_id sm" if "pool_find (sm_sessions sm) g = Some t" for g t
    using that sq by (auto simp: seq_ok_def)
  have "seq_ok \<lparr>sm_sessions = pool_set (sm_sessions sm) f s', next_seq_id = next_seq_id sm + 1\<rparr>"
    unfolding seq_ok_def
  proof (intro conjI allI impI)
    fix g h t u
    assume "pool_find (sm_sessions \<lparr>sm_sessions = pool_set (sm_sessions sm) f s', next_seq_id = next_seq_id sm + 1\<rparr>) g = Some t"
      and "pool_find (sm_sessions \<lparr>sm_sessions = pool_set (sm_sessions sm) f s', next_seq_id = next_seq_id sm + 1\<rparr>) h = Some u"
      and "g \<noteq> h" "0 \<le> seq t"
    moreover have "seq t \<noteq> seq u" if "pool_find (sm_sessions sm) g = Some t" "pool_find (sm_sessions sm) h = Some u"
      using that \<open>g \<noteq> h\<close> \<open>0 \<le> seq t\<close> sq unfolding seq_ok_def by blast
    ultimately show "seq t \<noteq> seq u"
      using lt [of g t] lt [of h u] s'(2) by (cases "g = f"; cases "h = f") (simp_all add: pool_simps)
  qed (use sq s'(2) lt in \<open>fastforce simp: pool_simps seq_ok_def split: if_splits\<close>)+
  then show ?thesis
    using ok s s' pool_ok_set [of cfg "sm_sessions sm" f s s'] by (simp add: sm_ok_def)
qed

lemma sm_ok_erase:
  assumes "sm_ok cfg sm"
  shows "sm_ok cfg (sm\<lparr>sm_sessions := pool_erase (sm_sessions sm) f\<rparr>)"
proof -
  have "length (pool_erase (sm_sessions sm) f) \<le> length (sm_sessions sm)"
    by (simp add: pool_erase_def length_delete_le)
  then show ?thesis
    using assms pool_wf_erase [of "sm_sessions sm" f] unfolding sm_ok_def pool_ok_def seq_ok_def
    by (auto simp: pool_simps split: if_splits)
qed

lemma pool_find_insert:
  assumes "pool_wf pool" and "fd s = k" and "\<And>p. mset (rehash p) = mset p"
  shows "pool_find (pool_insert rehash pool k s) f = (if f = k then Some s else pool_find pool f)"
proof (cases "map_of pool k")
  case None
  have "set (rehash ((k, s) # pool)) = set ((k, s) # pool)" using assms(3) by (metis set_mset_mset)
  moreover have "pool_wf (rehash ((k, s) # pool))"
    using pool_wf_insert [OF assms] None by (simp add: pool_insert_def)
  moreover have "pool_wf ((k, s) # pool)"
    using assms(1,2) None by (auto simp: pool_wf_def map_of_eq_None_iff)
  ultimately have "pool_find (rehash ((k, s) # pool)) f = Some t \<longleftrightarrow> pool_find ((k, s) # pool) f = Some t" for t
    by (simp add: pool_find_iff)
  then have "pool_find (rehash ((k, s) # pool)) f = pool_find ((k, s) # pool) f"
    by (metis not_None_eq)
  then show ?thesis using None by (simp add: pool_insert_def pool_find_def)
next
  case (Some s')
  then show ?thesis by (simp add: pool_insert_def pool_find_set [unfolded pool_set_def])
qed

lemma sess_ok_new: "uint (max_tokens cfg) < INT_MAX \<Longrightarrow> sess_ok cfg (new_session\<lparr>fd := f, ctx := None, last_activity_ns := t\<rparr>)"
  by (simp add: sess_ok_def new_session_def word_le_def)

lemma sm_ok_add:
  assumes ok: "sm_ok cfg sm" and perm: "\<And>p. mset (rehash p) = mset p" and lim: "limits_ok cfg v"
    and room: "length (sm_sessions sm) < unat (max_sessions cfg)"
  shows "sm_ok cfg (add_client rehash sm f now_ns)"
proof -
  let ?s = "new_session\<lparr>fd := f, ctx := None, last_activity_ns := now_ns\<rparr>"
  have wf: "pool_wf (sm_sessions sm)" using ok by (simp add: sm_ok_def pool_ok_def)
  have fd: "fd ?s = f" and seq: "seq ?s = - 1" by (simp_all add: new_session_def)
  have "length (pool_insert rehash (sm_sessions sm) f ?s) \<le> length (sm_sessions sm) + 1"
  proof -
    have "length (rehash p) = length p" for p using perm by (metis size_mset)
    then show ?thesis by (auto simp: pool_insert_def length_update_present split: option.split)
  qed
  moreover have "unat (max_sessions cfg) < 2 ^ 32" using unsigned_less [of "max_sessions cfg"] by simp
  ultimately have len: "length (pool_insert rehash (sm_sessions sm) f ?s) \<le> unat (max_sessions cfg)"
    "length (pool_insert rehash (sm_sessions sm) f ?s) \<le> 2 ^ 63" using room by auto
  have "sess_ok cfg ?s" using sess_ok_new lim by (simp add: limits_ok_def)
  then show ?thesis
    using ok seq pool_wf_insert [OF wf fd perm] len unfolding add_client_def sm_ok_def pool_ok_def seq_ok_def
    by (auto simp: pool_find_insert [OF wf fd perm] simp del: One_nat_def split: if_splits)
qed

section \<open>Reading a request keeps it\<close>

text \<open>
  The outcomes of a complete frame, as the rest of the development uses them: a rejected or
  answered request in STREAM, or a started one in PREFILL.
\<close>

inductive request_outcome :: "RuntimeConfig \<Rightarrow> llama_vocab option \<Rightarrow> int \<Rightarrow> ClientSession \<Rightarrow> ClientSession \<Rightarrow> int \<Rightarrow> bool"
  for cfg vocab next_id s where
  answered: "fd s' = fd s \<Longrightarrow> seq s' = seq s \<Longrightarrow> state s' = STREAM \<Longrightarrow> n_past s' = n_past s \<Longrightarrow>
    generated_count s' = generated_count s \<Longrightarrow> last_error s' = last_error s \<Longrightarrow> request_outcome cfg vocab next_id s s' next_id"
| started: "fd s' = fd s \<Longrightarrow> state s' = PREFILL \<Longrightarrow> n_past s' = 0 \<Longrightarrow> generated_count s' = 0 \<Longrightarrow> prefill_idx s' = 0 \<Longrightarrow>
    prompt_tokens s' = tokenize vocab prompt True True \<Longrightarrow> prompt_tokens s' \<noteq> [] \<Longrightarrow>
    length prompt \<le> unat (max_prompt_bytes cfg) \<Longrightarrow> tx s' = tx s \<Longrightarrow> last_error s' = last_error s \<Longrightarrow>
    seq s' = (if seq s < 0 then next_id else seq s) \<Longrightarrow>
    request_outcome cfg vocab next_id s s' (if seq s < 0 then i32 (next_id + 1) else next_id)"

lemma reject_outcome:
  "fd s1 = fd s \<Longrightarrow> seq s1 = seq s \<Longrightarrow> n_past s1 = n_past s \<Longrightarrow> generated_count s1 = generated_count s \<Longrightarrow>
   last_error s1 = last_error s \<Longrightarrow> request_outcome cfg vocab next_id s (fst (reject i c m (s1, rr))) next_id"
  by (rule request_outcome.answered) (simp_all add: reject_def)

lemma handle_request_outcome:
  assumes "handle_request P cfg vocab now_ns js next_id (s, rr) = ((s', rr'), n)"
  shows "request_outcome cfg vocab next_id s s' n"
  using assms
proof (cases rule: handle_request_cases)
  case admin
  then show ?thesis by (auto intro!: request_outcome.answered)
next
  case (refused rid code msg s1)
  have "s' = fst (reject rid code msg (s1, rr))" using refused(3) by simp
  then show ?thesis using refused(4,5) by (auto simp: set_sampling_keeps intro!: reject_outcome)
next
  case (nothing_to_do rid)
  then show ?thesis by (auto simp: set_sampling_keeps intro!: request_outcome.answered)
next
  case (started rid prompt)
  have n: "n = (if seq s < 0 then i32 (next_id + 1) else next_id)"
    using started(5) by (simp add: start_request_def set_sampling_keeps)
  show ?thesis unfolding n
    by (rule request_outcome.started [where prompt = prompt])
      (use started in \<open>auto simp: start_request_def set_sampling_keeps\<close>)
qed

definition same_work :: "ClientSession \<Rightarrow> ClientSession \<Rightarrow> bool" where
  "same_work s s' \<longleftrightarrow>
     fd s' = fd s \<and> seq s' = seq s \<and> state s' = state s \<and> n_past s' = n_past s \<and> prefill_idx s' = prefill_idx s \<and>
     prompt_tokens s' = prompt_tokens s \<and> generated_count s' = generated_count s \<and> tx s' = tx s \<and> last_error s' = last_error s \<and>
     has_pending_tok s' = has_pending_tok s"

lemma request_outcome_same:
  assumes "request_outcome cfg vocab next_id s1 s' n" and "same_work s s1"
  shows "request_outcome cfg vocab next_id s s' n"
  using assms(1)
proof (cases rule: request_outcome.cases)
  case answered
  then show ?thesis using assms(2) by (auto simp: same_work_def intro!: request_outcome.answered)
next
  case (started prompt)
  have "n = (if seq s < 0 then i32 (next_id + 1) else next_id)" using started(1) assms(2) by (simp add: same_work_def)
  moreover have "request_outcome cfg vocab next_id s s' (if seq s < 0 then i32 (next_id + 1) else next_id)"
    by (rule request_outcome.started [where prompt = prompt]) (use started assms(2) in \<open>simp_all add: same_work_def\<close>)
  ultimately show ?thesis by simp
qed

lemma handle_request_writes:
  "handle_request P cfg vocab now_ns js next_id (s, rr) = ((s', rr'), n) \<Longrightarrow> wants_write rr' \<or> tx s' = tx s"
  by (auto simp: handle_request_def reject_def start_request_def set_sampling_keeps Let_def split: prod.splits if_splits)

lemma on_session_outcome:
  assumes "on_session P cfg vocab now_ns chunks fin next_id s = ((s', rr), n)"
  shows "(same_work s s' \<and> n = next_id \<or> request_outcome cfg vocab next_id s s' n) \<and> (wants_write rr \<or> tx s' = tx s)"
proof -
  define s1 where "s1 = drain_reads chunks now_ns s"
  define s2 where "s2 = (if fin = Read_Eof then s1\<lparr>read_closed := True, last_activity_ns := now_ns\<rparr> else s1)"
  define rr2 where "rr2 = (if fin = Read_Eof then no_result\<lparr>removed_read := True\<rparr> else no_result)"
  have same: "same_work s s1" "same_work s s2" "same_work s (s2\<lparr>rx := b\<rparr>)" for b
    by (simp_all add: s1_def s2_def same_work_def drain_reads_keeps)
  have tx: "tx s2 = tx s" using same(2) by (simp add: same_work_def)
  show ?thesis
  proof (cases "fin = Read_Error")
    case True
    then show ?thesis using assms same(1) by (auto simp: on_session_def s1_def [symmetric] same_work_def)
  next
    case False
    note eq = on_session_frame [OF False s2_def [unfolded s1_def] rr2_def, of P cfg vocab next_id]
    show ?thesis
    proof (cases "try_read_frame (rx s2) kDefaultMaxFrameBytes")
      case NeedMore
      then show ?thesis using assms eq same(2) tx by auto
    next
      case (FrameErr e)
      define code where "code = (if str_find e ''invalid frame length 0'' 0 \<noteq> None then ''E_PROTO_INVALID_LEN'' else ''E_PROTO_FRAME_TOO_LARGE'')"
      have r: "s' = fst (reject (request_id s2) code e (s2, rr2))" "n = next_id" "wants_write rr"
        using assms eq FrameErr by (auto simp: code_def reject_def)
      then have "request_outcome cfg vocab next_id s s' n"
        using same(2) by (auto simp: same_work_def intro!: reject_outcome)
      then show ?thesis using r(3) by blast
    next
      case (Frame js rest)
      then have h: "handle_request P cfg vocab now_ns js next_id (s2\<lparr>rx := rest\<rparr>, rr2) = ((s', rr), n)"
        using assms eq by simp
      then show ?thesis
        using request_outcome_same [OF handle_request_outcome [OF h] same(3)] handle_request_writes [OF h] tx by auto
    qed
  qed
qed

lemma sess_ok_same: "same_work s s' \<Longrightarrow> sess_ok cfg s' = sess_ok cfg s"
  by (simp add: same_work_def sess_ok_def remaining_def)

lemma outcome_sess_ok:
  assumes "request_outcome cfg (Some v) next_id s s' n" and "sess_ok cfg s" and "limits_ok cfg v"
  shows "sess_ok cfg s'"
  using assms(1)
proof (cases rule: request_outcome.cases)
  case answered
  then show ?thesis by (intro sess_ok_leave [OF assms(2)]) simp_all
next
  case (started prompt)
  then have "int (length (prompt_tokens s')) + uint (max_tokens cfg) < INT_MAX"
    using assms(3) by (simp add: limits_ok_def)
  then show ?thesis using started by (simp add: sess_ok_def remaining_def word_le_def)
qed

lemma sm_ok_on_readable:
  assumes ok: "sm_ok cfg sm" and lim: "limits_ok cfg v" and room: "next_seq_id sm < INT_MAX"
    and r_def: "r = on_readable P f cfg (Some v) now_ns chunks fin sm"
  shows "sm_ok cfg (fst r) \<and> next_seq_id (fst r) \<le> next_seq_id sm + 1"
proof (cases "pool_find (sm_sessions sm) f")
  case None
  then show ?thesis using ok by (simp add: r_def on_readable_def)
next
  case (Some s)
  obtain s' rr n where o: "on_session P cfg (Some v) now_ns chunks fin (next_seq_id sm) s = ((s', rr), n)"
    by (metis prod.collapse)
  have r: "fst r = \<lparr>sm_sessions = pool_set (sm_sessions sm) f s', next_seq_id = n\<rparr>"
    by (simp add: r_def on_readable_def Some o)
  have sok: "sess_ok cfg s" using ok Some by (auto simp: sm_ok_def pool_ok_def)
  have nx: "i32 (next_seq_id sm + 1) = next_seq_id sm + 1" "1 \<le> next_seq_id sm"
    using ok room by (auto simp: sm_ok_def seq_ok_def intro: i32_id)
  have keep: "sm_ok cfg \<lparr>sm_sessions = pool_set (sm_sessions sm) f s', next_seq_id = next_seq_id sm\<rparr>"
    if "fd s' = fd s" "seq s' = seq s" "sess_ok cfg s'"
    using sm_ok_keep [OF ok Some that] by (cases sm) simp
  from on_session_outcome [OF o] consider "same_work s s'" "n = next_seq_id sm"
    | "request_outcome cfg (Some v) (next_seq_id sm) s s' n" by blast
  then show ?thesis
  proof cases
    case 1
    then show ?thesis using keep sess_ok_same [OF 1(1)] sok by (simp add: r same_work_def)
  next
    case 2
    note s' = outcome_sess_ok [OF 2 sok lim]
    from 2 show ?thesis
    proof (cases rule: request_outcome.cases)
      case answered
      then show ?thesis using keep s' by (simp add: r)
    next
      case (started prompt)
      show ?thesis
      proof (cases "seq s < 0")
        case False
        then show ?thesis using started keep s' by (simp add: r)
      next
        case True
        then show ?thesis using sm_ok_fresh [OF ok Some _ _ s'] started nx by (simp add: r)
      qed
    qed
  qed
qed

section \<open>The event loop keeps it\<close>

definition d_ok :: "('k, 'c, 'r) denv \<Rightarrow> ('k, 'c, 'r) daemon \<Rightarrow> bool" where
  "d_ok D d \<longleftrightarrow> sm_ok (de_cfg D) (d_sm d) \<and> sch_ok (d_sched d) \<and> sch_config (d_sched d) = de_cfg D"

definition denv_ok :: "('k, 'c, 'r) denv \<Rightarrow> bool" where
  "denv_ok D \<longleftrightarrow>
     env_ok (de_env D) \<and> limits_ok (de_cfg D) (env_vocab (de_env D)) \<and> (\<forall>p. mset (de_rehash D p) = mset p)"

text \<open>Preserved, without handing out a sequence id.\<close>

definition keeps :: "('k, 'c, 'r) denv \<Rightarrow> (('k, 'c, 'r) daemon \<Rightarrow> ('k, 'c, 'r) daemon) \<Rightarrow> bool" where
  "keeps D g \<longleftrightarrow> (\<forall>d. d_ok D d \<longrightarrow> d_ok D (g d) \<and> next_seq_id (d_sm (g d)) = next_seq_id (d_sm d))"

lemma keeps_comp: "keeps D g \<Longrightarrow> keeps D h \<Longrightarrow> keeps D (\<lambda>d. g (h d))"
  by (simp add: keeps_def)

lemma keeps_add: "keeps D (d_add D f fl)" and keeps_remove: "keeps D (d_remove D f fl)"
  by (simp_all add: keeps_def d_add_def d_remove_def d_ok_def)

lemma keeps_close: "keeps D (d_close D f)"
  using sm_ok_erase by (auto simp: keeps_def d_close_def close_session_def d_ok_def Let_def split: option.split)

lemma keeps_upd:
  assumes "\<And>s. fd (g s) = fd s \<and> seq (g s) = seq s \<and> (sess_ok (de_cfg D) s \<longrightarrow> sess_ok (de_cfg D) (g s))"
  shows "keeps D (upd_session f g)"
proof -
  have "sess_ok (de_cfg D) s" if "d_ok D d" "pool_find (sm_sessions (d_sm d)) f = Some s" for d :: "('a, 'b, 'c) daemon" and s
    using that by (auto simp: d_ok_def sm_ok_def pool_ok_def)
  then show ?thesis
    using assms sm_ok_keep by (auto simp: keeps_def upd_session_def find_session_def d_ok_def split: option.split)
qed

lemma keeps_reset:
  assumes "denv_ok D"
  shows "keeps D (upd_session f reset_session)"
proof (rule keeps_upd)
  fix s
  have "uint (max_tokens (de_cfg D)) < INT_MAX" using assms by (simp add: denv_ok_def limits_ok_def)
  then show "fd (reset_session s) = fd s \<and> seq (reset_session s) = seq s \<and>
      (sess_ok (de_cfg D) s \<longrightarrow> sess_ok (de_cfg D) (reset_session s))"
    by (simp add: reset_session_def sess_ok_def)
qed

lemma sess_ok_io:
  "sess_ok cfg (s\<lparr>tx := b\<rparr>) = sess_ok cfg s" "sess_ok cfg (s\<lparr>last_activity_ns := t\<rparr>) = sess_ok cfg s"
  "sess_ok cfg (s\<lparr>read_closed := r\<rparr>) = sess_ok cfg s" "sess_ok cfg (s\<lparr>rx := b\<rparr>) = sess_ok cfg s"
  by (simp_all add: sess_ok_def remaining_def)

lemma keeps_write_now: "keeps D (upd_session f (write_now w))"
  by (rule keeps_upd) (auto simp: write_now_def sess_ok_io split: write_result.split)

lemma keeps_answer: "keeps D (answer_admin D f)"
proof -
  have "keeps D (upd_session f (\<lambda>s. s\<lparr>tx := write_frame (tx s) p, state := STREAM, read_closed := True\<rparr>))" for p
  proof (rule keeps_upd, intro conjI impI)
    fix s assume "sess_ok (de_cfg D) s"
    then show "sess_ok (de_cfg D) (s\<lparr>tx := write_frame (tx s) p, state := STREAM, read_closed := True\<rparr>)"
      by (rule sess_ok_leave) simp_all
  qed simp_all
  then show ?thesis using keeps_remove [of D f PollFlags_Read] by (simp add: keeps_def answer_admin_def Let_def)
qed

lemma keeps_finish_read: "denv_ok D \<Longrightarrow> keeps D (finish_read D f)"
  using keeps_add [of D f] keeps_close [of D f] keeps_comp [OF keeps_add keeps_reset, of D f]
  by (auto simp: keeps_def finish_read_def split: option.split)

lemma drain_tx_keeps:
  "fd (fst (drain_tx t ws s)) = fd s \<and> seq (fst (drain_tx t ws s)) = seq s \<and> sess_ok cfg (fst (drain_tx t ws s)) = sess_ok cfg s"
  by (induction t ws s rule: drain_tx.induct) (auto simp: sess_ok_io split: write_result.split)

lemma keeps_client_write:
  assumes "denv_ok D"
  shows "keeps D (on_client_write D f io)"
  unfolding keeps_def
proof (intro allI impI)
  fix d assume d: "d_ok D d"
  let ?P = "\<lambda>d'. d_ok D d' \<and> next_seq_id (d_sm d') = next_seq_id (d_sm d)"
  show "?P (on_client_write D f io d)"
  proof (cases "find_session (d_sm d) f")
    case None
    then show ?thesis using d by (simp add: on_client_write_def)
  next
    case (Some s)
    obtain s' broken where dr: "drain_tx (io_now io) (io_writes io) s = (s', broken)" by fastforce
    have "sess_ok (de_cfg D) s" using d Some by (auto simp: d_ok_def sm_ok_def pool_ok_def find_session_def)
    then have s': "fd s' = fd s" "seq s' = seq s" "sess_ok (de_cfg D) s'"
      using drain_tx_keeps [of "io_now io" "io_writes io" s "de_cfg D"] dr by auto
    have "?P (upd_session f (\<lambda>_. s') d)"
      using d Some sm_ok_keep [OF _ Some [unfolded find_session_def] s']
      by (auto simp: upd_session_def d_ok_def)
    moreover have "?P (g d')" if "keeps D g" "?P d'" for g d' using that by (auto simp: keeps_def)
    ultimately show ?thesis
      using keeps_close [of D f] keeps_remove [of D f] keeps_reset [OF assms, of f]
      by (simp add: on_client_write_def Some dr Let_def)
  qed
qed

lemma d_ok_read_answer:
  assumes D: "denv_ok D" and d: "d_ok D d" and room: "next_seq_id (d_sm d) < INT_MAX"
  shows "d_ok D (fst (read_answer D f io d)) \<and> next_seq_id (d_sm (fst (read_answer D f io d))) \<le> next_seq_id (d_sm d) + 1"
proof -
  obtain sm rr where r: "on_readable (env_platform (de_env D)) f (de_cfg D) (Some (env_vocab (de_env D))) (io_now io)
             (fst (io_reads io)) (snd (io_reads io)) (d_sm d) = (sm, rr)" by fastforce
  let ?P = "\<lambda>d'. d_ok D d' \<and> next_seq_id (d_sm d') \<le> next_seq_id (d_sm d) + 1"
  have lim: "limits_ok (de_cfg D) (env_vocab (de_env D))" using D by (simp add: denv_ok_def)
  have "sm_ok (de_cfg D) (d_sm d)" using d by (simp add: d_ok_def)
  from sm_ok_on_readable [OF this lim room refl, of "env_platform (de_env D)" f "io_now io" "fst (io_reads io)" "snd (io_reads io)"]
  have start: "?P (d\<lparr>d_sm := sm\<rparr>)" using d by (simp add: r d_ok_def)
  have step: "?P (g d')" if "keeps D g" "?P d'" for g d' using that by (auto simp: keeps_def)
  show ?thesis
    using start by (auto simp: read_answer_def r Let_def split: option.split
        intro!: step [OF keeps_answer] step [OF keeps_remove])
qed

lemma d_ok_client_read:
  assumes D: "denv_ok D" and d: "d_ok D d" and room: "next_seq_id (d_sm d) < INT_MAX"
  shows "d_ok D (on_client_read D f io d) \<and> next_seq_id (d_sm (on_client_read D f io d)) \<le> next_seq_id (d_sm d) + 1"
  using d_ok_read_answer [OF assms, of f io] keeps_comp [OF keeps_finish_read [OF D] keeps_write_now, of f f "io_write io"]
  by (auto simp: on_client_read_def keeps_def split: prod.split)

lemma d_ok_accept:
  assumes D: "denv_ok D" and d: "d_ok D d"
  shows "d_ok D (on_accept D io d) \<and> next_seq_id (d_sm (on_accept D io d)) = next_seq_id (d_sm d)"
proof -
  obtain cfd k where a: "io_accept io = (cfd, k)" by fastforce
  have "sm_ok (de_cfg D) (add_client (de_rehash D) (d_sm d) cfd (io_now io))"
    if "length (sm_sessions (d_sm d)) < unat (max_sessions (de_cfg D))"
    using sm_ok_add [OF _ _ _ that] D d by (auto simp: denv_ok_def d_ok_def)
  then show ?thesis using d by (auto simp: on_accept_def a Let_def d_ok_def d_add_def add_client_def not_le)
qed

lemma d_ok_event:
  assumes "denv_ok D" and "d_ok D d" and "next_seq_id (d_sm d) < INT_MAX"
  shows "d_ok D (handle_event D ev d) \<and> next_seq_id (d_sm (handle_event D ev d)) \<le> next_seq_id (d_sm d) + 1"
  using d_ok_accept [OF assms(1,2)] d_ok_client_read [OF assms] keeps_client_write [OF assms(1)] assms(2)
  by (cases ev) (auto simp: handle_event_def keeps_def)

lemma events_room:
  assumes "denv_ok D" and "d_ok D d" and "next_seq_id (d_sm d) + int (length evs) \<le> INT_MAX"
  shows "d_ok D (fold (handle_event D) evs d) \<and>
    next_seq_id (d_sm (fold (handle_event D) evs d)) \<le> next_seq_id (d_sm d) + int (length evs)"
  using assms(2,3)
proof (induction evs arbitrary: d)
  case (Cons ev evs)
  then have "next_seq_id (d_sm d) < INT_MAX" by simp
  note step = d_ok_event [OF assms(1) Cons.prems(1) this, of ev]
  with Cons.prems(2) have "next_seq_id (d_sm (handle_event D ev d)) + int (length evs) \<le> INT_MAX" by simp
  from Cons.IH [OF conjunct1 [OF step] this] step show ?case by simp
qed simp

lemmas d_ok_events = events_room [THEN conjunct1]

lemma keeps_fold: "(\<And>x. keeps D (g x)) \<Longrightarrow> keeps D (fold g xs)"
  by (induction xs) (simp_all add: keeps_def)

lemma keeps_idle: "d_ok D d \<Longrightarrow> d_ok D (close_idle D now d)"
  and idle_room: "d_ok D d \<Longrightarrow> next_seq_id (d_sm (close_idle D now d)) = next_seq_id (d_sm d)"
  using keeps_fold [of D "d_close D", OF keeps_close] by (auto simp: close_idle_def keeps_def)

lemma keeps_arm: "keeps D (arm D f)"
  using keeps_add [of D f PollFlags_Write] by (auto simp: keeps_def arm_def split: option.split)

lemma tick_trans_seq: "tick_trans v cfg now_ns s s' \<Longrightarrow> seq s' = seq s"
  by (cases rule: tick_trans.cases) (auto simp: session_outcomes)

lemma tick_back:
  assumes "map fst S' = map fst S" and "pool_find S' f = Some s'"
  shows "\<exists>s. pool_find S f = Some s"
proof -
  have "f \<in> fst ` set S" using pool_find_key [OF assms(2)] assms(1) by (metis set_map)
  then show ?thesis unfolding pool_find_def by (metis map_of_eq_None_iff not_None_eq)
qed

lemma d_ok_tick:
  assumes D: "denv_ok D" and d: "d_ok D d"
  shows "\<exists>d'. tick_and_arm D now dur d = Inr d' \<and> d_ok D d' \<and> next_seq_id (d_sm d') = next_seq_id (d_sm d)"
proof -
  let ?S = "sm_sessions (d_sm d)"
  have sch: "sch_ok (d_sched d)" and cfg: "sch_config (d_sched d) = de_cfg D" and E: "env_ok (de_env D)"
    and ok: "pool_ok (sch_config (d_sched d)) ?S"
    using d D by (auto simp: d_ok_def denv_ok_def sm_ok_def)
  obtain fds sch' c' S' where t: "tick (de_env D) now dur (d_sched d) (d_ctx d) ?S = Inr (fds, sch', c', S')"
    using tick_Inr [OF sch ok, of "de_env D" now dur "d_ctx d"] by blast
  have keys: "map fst S' = map fst ?S" using tick_keys [OF sch ok t] by (simp add: tick_pool_def)
  then have len: "length S' = length ?S" by (metis length_map)
  have seqs: "\<exists>s. pool_find ?S f = Some s \<and> seq s = seq s'" if f: "pool_find S' f = Some s'" for f s'
  proof -
    obtain s where s: "pool_find ?S f = Some s" using tick_back [OF keys f] by blast
    then show ?thesis using tick_trans_all [OF sch ok E t s] f tick_trans_seq by (auto simp: tick_pool_def)
  qed
  have "pool_ok (de_cfg D) S'" using tick_pool_ok [OF sch ok E t] cfg by (simp add: tick_pool_def)
  moreover have "seq_ok ((d_sm d)\<lparr>sm_sessions := S'\<rparr>)"
  proof -
    have sq: "seq_ok (d_sm d)" using d by (simp add: d_ok_def sm_ok_def)
    have "seq s' < next_seq_id (d_sm d)" if "pool_find S' f = Some s'" for f s'
      using seqs [OF that] sq unfolding seq_ok_def by metis
    moreover have "seq s' \<noteq> seq t'" if "pool_find S' f = Some s'" "pool_find S' g = Some t'" "f \<noteq> g" "0 \<le> seq s'" for f g s' t'
      using seqs [OF that(1)] seqs [OF that(2)] that(3,4) sq unfolding seq_ok_def by metis
    ultimately show ?thesis using sq by (auto simp: seq_ok_def)
  qed
  ultimately have "d_ok D (d\<lparr>d_sm := (d_sm d)\<lparr>sm_sessions := S'\<rparr>, d_sched := sch', d_ctx := c'\<rparr>)"
    using d len tick_sch [OF sch ok t] cfg by (simp add: d_ok_def sm_ok_def)
  then show ?thesis using keeps_fold [of D "arm D" fds, OF keeps_arm] by (simp add: tick_and_arm_def t keeps_def)
qed

end
