(* ===== verification/Tick_Properties.thy ===== *)
theory Tick_Properties
  imports Tick
begin

text \<open>
  The properties of \<open>Scheduler::tick\<close>: totality and the invariant, the shape of the batch, the
  session state machine, the outgoing stream, arming for writing, token accounting and the
  adaptive target; and the events a failed decode leaves unarmed.
\<close>

section \<open>A concrete scheduler\<close>

definition demo_llama :: "int \<Rightarrow> unit llama" where
  "demo_llama rc =
     \<lparr>llama_n_batch = (\<lambda>_. 32), llama_decode = (\<lambda>c b. (rc, c)), llama_get_logits_ith = (\<lambda>c i. Some (replicate 258 (Fin 0))),
      llama_memory_seq_rm = (\<lambda>c s p q. c), llama_perf_context_reset = (\<lambda>c. c),
      llama_perf_context = (\<lambda>c. \<lparr>t_eval_ms = Fin 0, t_p_eval_ms = Fin 0, n_eval = 0, n_p_eval = 0\<rparr>)\<rparr>"

definition demo_env :: "int \<Rightarrow> (unit, nat) env" where
  "demo_env rc =
     \<lparr>env_platform = demo_platform, env_psort = full_sort, env_uniform = demo_uniform,
      env_llama = demo_llama rc, env_vocab = byte_vocab\<rparr>"

definition demo_sched :: "nat Scheduler" where
  "demo_sched =
     \<lparr>batch_cap = 32, target_batch = 32, rr_decode_idx = 0, rr_prefill_idx = 0, sch_config = default_config,
      sch_metrics = Some new_metrics, decode_ms_ewma = Fin 30, sch_rng = 0\<rparr>"

lemma demo_sched_ok: "sch_ok demo_sched" "env_ok (demo_env rc)" "sch_config demo_sched = default_config"
  by (simp_all add: sch_ok_def demo_sched_def env_ok_def demo_env_def sorts_logits_def byte_vocab_def)

lemma demo_pool_ok: "pool_ok default_config demo_pool"
proof -
  have "sess_ok default_config (decoding f)" "sess_ok default_config (prompting f 20)" for f
    by (simp_all add: sess_ok_def decoding_def prompting_def new_session_def default_config_def remaining_def INT_MAX_def)
  then have "sess_ok default_config s" if "pool_find demo_pool f = Some s" for f s
    using that by (auto simp: demo_pool_def pool_find_def split: if_splits)
  then show ?thesis using demo_pool_facts by (simp add: pool_ok_def demo_pool_def)
qed

lemma demo_ok: "pool_ok (sch_config demo_sched) demo_pool" "map fst demo_pool = [3, 4, 5]" "batch_cap demo_sched = 32"
  using demo_pool_ok by (simp_all add: demo_sched_ok(3) demo_pool_def) (simp add: demo_sched_def)

lemma demo_tick: "\<exists>fds sch' c' S'. tick (demo_env rc) 5 1000 demo_sched () demo_pool = Inr (fds, sch', c', S')"
  by (rule tick_Inr [OF demo_sched_ok(1) demo_ok(1)])

section \<open>Safety\<close>

lemma tick_sound:
  assumes "sch_ok sch" and "env_ok E" and "pool_ok (sch_config sch) S"
    and "tick E now_ns dur_ns sch c S = Inr (fds, sch', c', S')"
  shows "sch_ok sch' \<and> sch_config sch' = sch_config sch \<and> batch_cap sch' = batch_cap sch \<and>
    pool_ok (sch_config sch) S' \<and> map fst S' = map fst S"
  using tick_sch [OF assms(1,3,4)] tick_pool_ok [OF assms(1,3,2,4)] tick_keys [OF assms(1,3,4)]
  by (simp add: tick_pool_def)

text \<open>
  C1. A tick on a sound state never fails: no assertion of the source is violated, no prompt
  token is read out of range, the sequence-id vector is never reallocated under the batch's
  pointers; and it leaves a sound state: the table keeps its sessions, filed under their
  descriptors, every session's positions stay within \<open>int32_t\<close>, the cursors and the target
  batch stay in range.
\<close>

theorem tick_safe:
  assumes "sch_ok sch" and "env_ok E" and "pool_ok (sch_config sch) S"
  shows "\<exists>fds sch' c' S'. tick E now_ns dur_ns sch c S = Inr (fds, sch', c', S') \<and>
    sch_ok sch' \<and> sch_config sch' = sch_config sch \<and> batch_cap sch' = batch_cap sch \<and>
    pool_ok (sch_config sch) S' \<and> map fst S' = map fst S"
proof -
  obtain fds sch' c' S' where t: "tick E now_ns dur_ns sch c S = Inr (fds, sch', c', S')"
    using tick_Inr [OF assms(1,3), of E now_ns dur_ns c] by blast
  then show ?thesis using tick_sound [OF assms t] by blast
qed

theorem tick_safe_witness:
  "\<exists>fds sch' c' S'. tick (demo_env 0) 5 1000 demo_sched () demo_pool = Inr (fds, sch', c', S') \<and>
    sch_ok sch' \<and> pool_ok default_config S' \<and> map fst S' = [3, 4, 5]"
  using tick_safe [OF demo_sched_ok(1) demo_sched_ok(2) [of 0] demo_ok(1), where now_ns = 5 and dur_ns = 1000 and c = "()"]
  unfolding demo_sched_ok(3) demo_ok(2) by (elim exE conjE) (intro exI conjI)

text \<open>
  C8. The batch of a tick is the reference batch: the rows of the planned sessions one after
  the other, one pending token at the next position for a decoding session, consecutive prompt
  tokens at consecutive positions for a prompt chunk, logits requested for the last row of each
  and for no other; it has at most \<open>llama_n_batch\<close> rows and passes every assertion.
\<close>

theorem tick_batch_correct:
  assumes "sch_ok sch" and "pool_ok (sch_config sch) S" and "tick_plan sch S = (p, m)"
  shows "\<exists>S' b samples. enact (batch_cap sch) S (items p) = Inr (S', b, samples) \<and>
    b = append_rows empty_batch (rows_of S (items p)) \<and> check_batch (batch_cap sch) b samples = Inr () \<and>
    int (length (b_token b)) \<le> batch_cap sch \<and>
    int (length (b_token b)) = decode_tok_count p + prefill_tok_count p"
proof -
  note eq = tick_eq(1-4) [OF assms]
  have "batch_cap sch \<le> INT_MAX" using assms(1) by (simp add: sch_ok_def INT_MAX_def)
  from check_batch_ok [OF eq(1,2) this] show ?thesis
    using enact_ok [OF eq(1,2)] length_rows [OF eq(1)] eq(2,3) by (simp add: empty_batch_def)
qed

theorem tick_batch_correct_witness:
  "\<exists>p m S' b samples. tick_plan demo_sched demo_pool = (p, m) \<and>
    enact 32 demo_pool (items p) = Inr (S', b, samples) \<and> b = append_rows empty_batch (rows_of demo_pool (items p))"
proof -
  obtain p m where tp: "tick_plan demo_sched demo_pool = (p, m)" by fastforce
  show ?thesis
    using tick_batch_correct [OF demo_sched_ok(1) demo_ok(1) tp] tp unfolding demo_ok(3) by blast
qed

section \<open>The session state machine\<close>

text \<open>
  C12. The state machine: after a tick every session is in the table, related to its state before
  by one transition: untouched, or a prompt chunk or pending token consumed and then a decode
  failure, a missing logits row, a sampled token of the vocabulary, or the end of the stream.
\<close>

theorem tick_state_machine:
  assumes "sch_ok sch" and "env_ok E" and "pool_ok (sch_config sch) S"
    and "tick E now_ns dur_ns sch c S = Inr (fds, sch', c', S')"
  shows "\<forall>f s. pool_find S f = Some s \<longrightarrow>
    (\<exists>s'. pool_find S' f = Some s' \<and> tick_trans (env_vocab E) (sch_config sch) now_ns s s')"
  using tick_trans_all [OF assms(1,3,2,4)] by (simp add: tick_pool_def)

theorem tick_state_machine_witness:
  "\<exists>fds sch' c' S' s'. tick (demo_env 0) 5 1000 demo_sched () demo_pool = Inr (fds, sch', c', S') \<and>
    pool_find S' 5 = Some s' \<and> tick_trans byte_vocab default_config 5 (prompting 5 20) s'"
proof -
  obtain fds sch' c' S' where t: "tick (demo_env 0) 5 1000 demo_sched () demo_pool = Inr (fds, sch', c', S')"
    using demo_tick by blast
  have "env_vocab (demo_env 0) = byte_vocab" by (simp add: demo_env_def)
  then show ?thesis
    using tick_state_machine [OF demo_sched_ok(1,2) demo_ok(1) t] t demo_pool_facts(4)
    unfolding demo_sched_ok(3) by metis
qed

inductive_cases tick_transE: "tick_trans v cfg now_ns s s'"

lemma tick_trans_edges:
  assumes "tick_trans v cfg now_ns s s'"
  shows "(state s = PREFILL \<and> state s' \<in> {PREFILL, DECODE, ERRORED}) \<or>
         (state s = DECODE \<and> state s' \<in> {DECODE, STREAM, ERRORED}) \<or> s' = s"
  using assms
  by (cases rule: tick_trans.cases)
    (auto simp: session_outcomes chunk_of_def prefill_ready_def decode_ready_def)

section \<open>The outgoing stream\<close>

lemma write_frame_extends: "\<exists>fr. write_frame b js = b @ fr \<and> fr \<noteq> []"
  by (auto simp: write_frame_def Let_def frame_hdr_def)

lemma event_extends:
  "\<exists>fr. append_token_event b i t k = b @ fr \<and> fr \<noteq> []" "\<exists>fr. append_eos_event b i r = b @ fr \<and> fr \<noteq> []"
  "\<exists>fr. append_error_event b i cd ms = b @ fr \<and> fr \<noteq> []"
  by (simp_all add: append_token_event_def append_eos_event_def append_error_event_def write_frame_extends)

text \<open>What a tick adds to a queue is whole frames.\<close>

lemma tick_trans_framed: "tick_trans v cfg now_ns s s' \<Longrightarrow> framed (tx s) (tx s')"
  by (cases rule: tick_trans.cases) (auto simp: session_outcomes emit_piece_def stamp_emit_def Let_def)

lemmas tick_trans_appends = tick_trans_framed [THEN framed_extends]

text \<open>
  A tick moves sessions only along the edges of the documented life cycle: one that is neither
  reading its prompt nor decoding is left exactly as it is, one that reads its prompt stays,
  starts to decode or fails, one that decodes stays, ends its stream or fails. And it only appends
  to what is queued for the client: bytes already queued are neither changed nor lost.
\<close>

lemma tick_edges:
  assumes "sch_ok sch" and "env_ok E" and "pool_ok (sch_config sch) S"
    and "tick E now_ns dur_ns sch c S = Inr (fds, sch', c', S')" and "pool_find S f = Some s"
  shows "\<exists>s'. pool_find S' f = Some s' \<and> (\<exists>fr. tx s' = tx s @ fr) \<and>
    (case state s of
       PREFILL \<Rightarrow> state s' \<in> {PREFILL, DECODE, ERRORED}
     | DECODE \<Rightarrow> state s' \<in> {DECODE, STREAM, ERRORED}
     | _ \<Rightarrow> s' = s)"
proof -
  obtain s' where s': "pool_find S' f = Some s'" "tick_trans (env_vocab E) (sch_config sch) now_ns s s'"
    using tick_trans_all [OF assms(1,3,2,4,5)] by (auto simp: tick_pool_def)
  show ?thesis using s'(1) tick_trans_edges [OF s'(2)] tick_trans_appends [OF s'(2)]
    by (auto split: SessionState.split)
qed

section \<open>What the outcomes leave\<close>

lemma count_step_nat: "x < (y :: u32) \<Longrightarrow> unat (x + 1) = unat x + 1"
  using count_step(1) [of x y] unfolding uint_nat by linarith

lemma outcome_states:
  "state (first_token v now t x) = DECODE" "state (next_token v now t x) = DECODE" "state (failed x) = ERRORED"
  "generated_count (next_token v now t x) = generated_count x + 1"
  "state (end_stream cfg now x) = STREAM" "generated_count (end_stream cfg now x) = generated_count x"
  "state (consume x) = state x" "state (advance n x) = state x" "generated_count (advance n x) = generated_count x"
  by (simp_all add: session_outcomes)

lemmas ready_defs = chunk_of_def prefill_ready_def decode_ready_def

lemma decode_keeps_prompt:
  assumes "tick_trans v cfg now_ns s s'" and "state s \<noteq> PREFILL"
  shows "prefill_idx s' = prefill_idx s \<and> prompt_tokens s' = prompt_tokens s \<and> state s' \<noteq> PREFILL"
  using assms by (cases rule: tick_trans.cases) (auto simp: session_outcomes ready_defs)

section \<open>Arming for writing\<close>

text \<open>
  The loop that samples keeps this: a session that had nothing queued and now has is in the
  list of descriptors to arm.
\<close>

definition armed :: "SessionPool \<Rightarrow> ('c, 'r) sample_state \<Rightarrow> bool" where
  "armed S0 st \<longleftrightarrow>
     (case st of (S, c, rng, m, fds) \<Rightarrow>
        (\<forall>f s. pool_find S f = Some s \<longrightarrow> fd s = f) \<and>
        (\<forall>f s0 s. pool_find S0 f = Some s0 \<longrightarrow> tx s0 = [] \<longrightarrow> pool_find S f = Some s \<longrightarrow> tx s \<noteq> [] \<longrightarrow> f \<in> set fds))"

lemma outcome_fd:
  "fd (first_token v now t s) = fd s" "fd (next_token v now t s) = fd s" "fd (end_stream cfg now s) = fd s"
  by (simp_all add: session_outcomes)

lemma sample_step_armed:
  assumes "armed S0 st"
  shows "armed S0 (sample_step E cfg now_ns sr st)"
proof -
  obtain S c rng m fds where st: "st = (S, c, rng, m, fds)" by (metis prod_cases5)
  show ?thesis
  proof (cases "pool_find S (sr_fd sr)")
    case None
    then show ?thesis using assms by (simp add: st sample_step_def)
  next
    case (Some s)
    then have fd: "fd s = sr_fd sr" using assms by (simp add: st armed_def)
    define fds' where "fds' = (if tx s = [] then fds @ [fd s] else fds)"
    have step: "armed S0 (pool_set S (sr_fd sr) s', c', rng', m', fds')" if "fd s' = fd s" for s' c' rng' m'
      using assms Some that fd by (auto simp: armed_def st fds'_def pool_simps)
    show ?thesis
    proof (cases "llama_get_logits_ith (env_llama E) c (sr_batch_index sr)")
      case None
      then show ?thesis using assms by (simp add: st sample_step_def Some)
    next
      case row: (Some row)
      obtain t rng' where smp: "sample (env_platform E) (env_psort E) (env_uniform E) row
          (vocab_n_tokens (env_vocab E)) (sampling_params s) rng = (t, rng')" by fastforce
      show ?thesis
        by (cases "sr_state_before sr = PREFILL"; cases "ends_stream (env_vocab E) cfg t s")
          (simp_all add: st sample_step_def Some row smp Let_def step [unfolded fds'_def] outcome_fd)
    qed
  qed
qed

lemma fold_armed: "armed S0 st \<Longrightarrow> armed S0 (fold (sample_step E cfg now_ns) samples st)"
  by (induction samples arbitrary: st) (simp_all add: sample_step_armed)

lemma armed_start:
  assumes "pool_wf S'" and "\<And>f s0 s. pool_find S f = Some s0 \<Longrightarrow> pool_find S' f = Some s \<Longrightarrow> tx s = tx s0"
  shows "armed S (S', c, rng, m, [])"
  using assms pool_wf_find by (fastforce simp: armed_def)

lemma enacted_tx:
  assumes "executable S its" and "pool_find S f = Some s0" and "pool_find (enacted_pool S its) f = Some s"
  shows "tx s = tx s0 \<and> fd s = fd s0"
proof (cases "f \<in> it_fd ` set its")
  case True
  then obtain x where "x \<in> set its" "f = it_fd x" by auto
  then have "s = enacted s0 x" using enacted_pool_find [OF assms(1)] assms(2,3) by (auto simp: session_of_def)
  then show ?thesis by (simp add: enacted_def split: Phase.split)
next
  case False
  then show ?thesis using enacted_pool_find [OF assms(1)] assms(2,3) by auto
qed

lemma enacted_wf:
  assumes "executable S its" and "pool_wf S"
  shows "pool_wf (enacted_pool S its)"
proof -
  have "fd s = f" if s: "pool_find (enacted_pool S its) f = Some s" for f s
  proof -
    have "f \<in> fst ` set S" using pool_find_key [OF s] enacted_pool_keys [OF assms(1)] by (metis set_map)
    then obtain s0 where s0: "pool_find S f = Some s0"
      unfolding pool_find_def by (metis map_of_eq_None_iff not_None_eq)
    then show ?thesis using enacted_tx [OF assms(1) s0 s] pool_wf_find [OF assms(2)] by simp
  qed
  moreover have "distinct (map fst (enacted_pool S its))"
    using assms(2) enacted_pool_keys [OF assms(1)] by (simp add: pool_wf_def)
  ultimately show ?thesis by (auto simp: pool_wf_def pool_find_def)
qed

lemma run_batch_armed:
  fixes E :: "('c, 'r) env"
  assumes "fst (llama_decode (env_llama E) (if enable_perf (sch_config sch) then llama_perf_context_reset (env_llama E) c else c) b) = 0"
    and "\<And>(d :: 'c) m. armed S0 (S, d, sch_rng sch, m, [])"
    and "run_batch E now_ns dur_ns p b samples sch c S = (fds, sch', c', S')"
  shows "\<forall>f s0 s. pool_find S0 f = Some s0 \<longrightarrow> tx s0 = [] \<longrightarrow> pool_find S' f = Some s \<longrightarrow> tx s \<noteq> [] \<longrightarrow> f \<in> set fds"
proof -
  obtain c2 where dec: "llama_decode (env_llama E)
      (if enable_perf (sch_config sch) then llama_perf_context_reset (env_llama E) c else c) b = (0, c2)"
    using assms(1) by (metis prod.collapse)
  define m where "m = map_option (\<lambda>m. set_decode_ms_ewma (env_platform E) m (next_ewma (decode_ms_ewma sch) dur_ns))
    (map_option (account (env_platform E) (sch_config sch) p (length (b_token b)) dur_ns (llama_perf_context (env_llama E) c2))
       (sch_metrics sch))"
  obtain T c3 rng m3 gs
    where f: "fold (sample_step E (sch_config sch) now_ns) samples (S, c2, sch_rng sch, m, []) = (T, c3, rng, m3, gs)"
    by (metis prod_cases5)
  have "armed S0 (T, c3, rng, m3, gs)" using fold_armed [OF assms(2) [of c2 m]] f by metis
  moreover have "T = S'" "gs = fds" using assms(3) f by (simp_all add: run_batch_def Let_def dec m_def)
  ultimately have "armed S0 (S', c3, rng, m3, fds)" by simp
  then show ?thesis by (simp add: armed_def)
qed

lemma fold_fail_error:
  "pool_find (fold fail_sample samples S) f = Some s \<Longrightarrow> pool_find S f = Some s \<or> last_error s \<noteq> []"
proof (induction samples arbitrary: S)
  case (Cons sr samples)
  from Cons.IH [of "fail_sample sr S"] Cons.prems
  consider "pool_find (fail_sample sr S) f = Some s" | "last_error s \<noteq> []" by auto
  then show ?case
    by cases (auto simp: fail_sample_def pool_simps split: option.splits if_splits)
qed simp

text \<open>Whatever the decode returns: a session with new output is armed, or marked as failed.\<close>

lemma tick_arms_or_fails:
  fixes E :: "('c, 'r) env"
  assumes "sch_ok sch" and "pool_ok cfg S" and "tick E now_ns dur_ns sch c S = Inr (fds, sch', c', S')"
    and "pool_find S f = Some s" and "tx s = []" and "pool_find S' f = Some s'" and "tx s' \<noteq> []"
  shows "f \<in> set fds \<or> last_error s' \<noteq> []"
proof -
  obtain p m where tp: "tick_plan sch S = (p, m)" by fastforce
  note eq = tick_eq(1-4) [OF assms(1,2) tp] tick_eq(5) [OF assms(1,2) tp, of E now_ns dur_ns c]
  let ?S = "enacted_pool S (items p)"
  have wf: "pool_wf ?S" using enacted_wf [OF eq(1)] assms(2) by (simp add: pool_ok_def)
  have same: "pool_find ?S f \<noteq> Some s'" using enacted_tx [OF eq(1) assms(4)] assms(5,7) by metis
  show ?thesis
  proof (cases "rows_of S (items p) = []")
    case True
    then have "S' = ?S" using eq(5) assms(3) by (simp add: Let_def)
    then show ?thesis using same assms(6) by simp
  next
    case False
    then obtain sch0 b samples where rb: "run_batch E now_ns dur_ns p b samples sch0 c ?S = (fds, sch', c', S')"
      using eq(5) assms(3) by (auto simp: Let_def)
    let ?dec = "llama_decode (env_llama E) (if enable_perf (sch_config sch0) then llama_perf_context_reset (env_llama E) c else c) b"
    show ?thesis
    proof (cases "fst ?dec = 0")
      case True
      have ar: "armed S (?S, c2, sch_rng sch0, m2, [])" for c2 :: 'c and m2
        by (rule armed_start [OF wf]) (use enacted_tx [OF eq(1)] in blast)
      show ?thesis using run_batch_armed [OF True ar rb] assms(4-7) by blast
    next
      case False
      then have "S' = fold fail_sample samples ?S"
        using rb by (auto simp: run_batch_def Let_def split: prod.splits if_splits)
      then show ?thesis using fold_fail_error assms(6) same by blast
    qed
  qed
qed

text \<open>
  When the decode succeeds, every session that had nothing queued for its client before the
  tick and has something after it is among the descriptors the tick returns, which the event
  loop arms for writing: no output is left waiting.
\<close>

lemma tick_arms:
  fixes E :: "('c, 'r) env"
  assumes "sch_ok sch" and "pool_ok (sch_config sch) S"
    and "\<And>c b. fst (llama_decode (env_llama E) c b) = 0"
    and "tick E now_ns dur_ns sch c S = Inr (fds, sch', c', S')"
    and "pool_find S f = Some s" and "tx s = []" and "pool_find S' f = Some s'" and "tx s' \<noteq> []"
  shows "f \<in> set fds"
proof -
  obtain p m where tp: "tick_plan sch S = (p, m)" by fastforce
  note eq = tick_eq(1-4) [OF assms(1,2) tp] tick_eq(5) [OF assms(1,2) tp, of E now_ns dur_ns c]
  have wf: "pool_wf (enacted_pool S (items p))"
    using enacted_wf [OF eq(1)] assms(2) by (simp add: pool_ok_def)
  show ?thesis
  proof (cases "rows_of S (items p) = []")
    case True
    then have "S' = enacted_pool S (items p)" using eq(5) assms(4) by (simp add: Let_def)
    then show ?thesis using enacted_tx [OF eq(1) assms(5)] assms(6-8) by simp
  next
    case False
    then obtain sch0 where rb: "run_batch E now_ns dur_ns p (append_rows empty_batch (rows_of S (items p))) (refs_of S 0 (items p)) sch0 c
        (enacted_pool S (items p)) = (fds, sch', c', S')"
      using eq(5) assms(4) by (auto simp: Let_def)
    have ar: "armed S (enacted_pool S (items p), c2, sch_rng sch0, m2, [])" for c2 :: 'c and m2
      by (rule armed_start [OF wf]) (use enacted_tx [OF eq(1)] in blast)
    show ?thesis using run_batch_armed [OF assms(3) ar rb] assms(5-8) by blast
  qed
qed

lemma tokens_of_pos:
  "(\<And>y. y \<in> set its \<Longrightarrow> 0 \<le> it_n_tokens y) \<Longrightarrow> x \<in> set its \<Longrightarrow> 0 < it_n_tokens x \<Longrightarrow> 0 < tokens_of its"
proof (induction its)
  case (Cons z its)
  have "0 \<le> tokens_of its" using Cons.prems(1) by (intro tokens_of_nonneg) simp
  then show ?case using Cons by (cases "x = z") (auto intro: add_nonneg_pos)
qed simp

lemma fold_fail:
  assumes "distinct (map sr_fd samples)" and "sr \<in> set samples" and "pool_find S (sr_fd sr) = Some s"
  shows "pool_find (fold fail_sample samples S) (sr_fd sr) = Some (failed s)"
proof -
  note * = fold_distinct_keys [where look = pool_find and key = sr_fd and R = "\<lambda>sr s s'. s' = failed s" and st = S,
      OF fail_sample_find(1) fail_sample_find(2) assms(1)]
  show ?thesis using * assms(2,3) by blast
qed

text \<open>
  C33. When the decode fails, the tick returns no descriptor to arm, although it has queued an
  error event for every session in the batch: the event stays queued unless the session was
  already armed for writing.
\<close>

theorem tick_failure_unarmed:
  fixes E :: "('c, 'r) env"
  assumes "sch_ok sch" and "env_ok E" and "pool_ok (sch_config sch) S"
    and fail: "\<And>c b. fst (llama_decode (env_llama E) c b) \<noteq> 0"
    and t: "tick E now_ns dur_ns sch c S = Inr (fds, sch', c', S')"
    and tp: "tick_plan sch S = (p, m)" and x: "x \<in> set (items p)" "0 < it_n_tokens x"
  shows "fds = [] \<and> (\<exists>s'. pool_find S' (it_fd x) = Some s' \<and> state s' = ERRORED \<and> tx s' \<noteq> [] \<and> read_closed s')"
proof -
  note eq = tick_eq(1-4) [OF assms(1,3) tp] tick_eq(5) [OF assms(1,3) tp, of E now_ns dur_ns c]
  have wf: "pool_wf S" using assms(3) by (simp add: pool_ok_def)
  have "0 < tokens_of (items p)" using tokens_of_pos [OF executable_nonneg [OF eq(1)] x] by blast
  then have "rows_of S (items p) \<noteq> []" using length_rows [OF eq(1)] by auto
  then obtain sch0 where rb: "run_batch E now_ns dur_ns p (append_rows empty_batch (rows_of S (items p))) (refs_of S 0 (items p)) sch0 c
      (enacted_pool S (items p)) = (fds, sch', c', S')"
    using eq(5) t by (auto simp: Let_def)
  then have r: "fds = []" "S' = fold fail_sample (refs_of S 0 (items p)) (enacted_pool S (items p))"
    using fail by (auto simp: run_batch_def Let_def split: prod.splits if_splits) (metis fst_conv)+
  have d: "distinct (map sr_fd (refs_of S 0 (items p)))"
    using subseq_distinct [OF refs_fds [OF eq(1) wf]] eq(1) by (auto simp: executable_def)
  obtain sr where sr: "sr \<in> set (refs_of S 0 (items p))" "sr_fd sr = it_fd x"
    using refs_complete [OF eq(1) wf x] by (metis imageE)
  have "pool_find (enacted_pool S (items p)) (sr_fd sr) = Some (enacted (session_of S x) x)"
    using sr(2) enacted_pool_find [OF eq(1)] x(1) by simp
  from fold_fail [OF d sr(1) this] have "pool_find S' (it_fd x) = Some (failed (enacted (session_of S x) x))"
    using r(2) sr(2) by simp
  moreover have "state (failed s) = ERRORED \<and> read_closed (failed s) \<and> tx (failed s) \<noteq> []" for s
    using event_extends(3) [of "tx s" "request_id s"] by (simp add: failed_def) (metis append_is_Nil_conv)
  ultimately show ?thesis using r(1) by blast
qed

theorem tick_failure_unarmed_witness:
  "\<exists>fds sch' c' S' s'. tick (demo_env 1) 5 1000 demo_sched () demo_pool = Inr (fds, sch', c', S') \<and>
    fds = [] \<and> pool_find S' 3 = Some s' \<and> state s' = ERRORED \<and> tx s' \<noteq> []"
proof -
  obtain fds sch' c' S' where t: "tick (demo_env 1) 5 1000 demo_sched () demo_pool = Inr (fds, sch', c', S')"
    using demo_tick by blast
  have fail: "fst (llama_decode (env_llama (demo_env 1)) c b) \<noteq> 0" for c b by (simp add: demo_env_def demo_llama_def)
  obtain p m where tp: "tick_plan demo_sched demo_pool = (p, m)" by fastforce
  then have "p = schedule_tick demo_pool 32 32 0 0"
    by (simp add: tick_plan_def bmt_guard_def demo_sched_def default_config_def)
  then have "decode_item 3 \<in> set (items p)" by (simp add: demo_plan)
  from tick_failure_unarmed [OF demo_sched_ok(1,2) demo_ok(1) fail t tp this] t show ?thesis by auto
qed

section \<open>Accounting\<close>

lemma word_share_le: "gen \<le> tot \<Longrightarrow> 0 < tot \<Longrightarrow> dur * gen div tot \<le> dur" for dur gen tot :: nat
  by (metis div_le_mono mult_le_mono2 nonzero_mult_div_cancel_right less_numeral_extra(3))

text \<open>
  Accounting: the batch's time is split into a generation share, the exact proportion of
  decode tokens rounded down, and a prompt share, which together are the whole duration; the two
  token counters grow by the batch's decode and prompt tokens, together the batch size.
\<close>

lemma account_conserves:
  assumes "0 \<le> decode_tok_count plan" and "0 \<le> prefill_tok_count plan" and "0 < n" and "n < 2 ^ 31" and "dur_ns < 2 ^ 63"
    and "decode_tok_count plan + prefill_tok_count plan = int n"
    and m'_def: "m' = account P cfg plan n dur_ns pdata m"
  shows "unat (m_decode_ns_total_gen m' - m_decode_ns_total_gen m) = dur_ns * nat (decode_tok_count plan) div n \<and>
    unat (m_decode_ns_total_gen m' - m_decode_ns_total_gen m) + unat (m_prefill_ns_total m' - m_prefill_ns_total m) = dur_ns \<and>
    unat (m_decode_phase_tokens_total m' - m_decode_phase_tokens_total m) = nat (decode_tok_count plan) \<and>
    unat (m_prefill_tokens_total m' - m_prefill_tokens_total m) = nat (prefill_tok_count plan) \<and>
    m_batch_calls_total m' = m_batch_calls_total m + 1"
proof -
  let ?g = "nat (decode_tok_count plan)" and ?p = "nat (prefill_tok_count plan)"
  define G where "G = dur_ns * ?g div n"
  have gp: "?g + ?p = n" using assms(1,2,6) by linarith
  have le: "G \<le> dur_ns" unfolding G_def using gp assms(3) by (intro word_share_le) auto
  have un: "unat (word_of_nat k :: u64) = k" if "k < 2 ^ 63" for k
    using that by (simp add: unat_of_nat)
  have small: "?g < 2 ^ 63" "?p < 2 ^ 63" "n < 2 ^ 63" "G < 2 ^ 63" using gp assms(4,5) le by auto
  have g: "u64_of_int (decode_tok_count plan) = word_of_nat ?g" "u64_of_int (prefill_tok_count plan) = word_of_nat ?p"
    using assms(1,2) by (simp_all add: u64_of_int_nat)
  have pos: "(0 :: u64) < word_of_nat n" using un [OF small(3)] assms(3) by (simp add: word_less_nat_alt)
  have split: "split_ns dur_ns (word_of_nat ?g) (word_of_nat n) = (word_of_nat G, word_of_nat dur_ns - word_of_nat G)"
    using pos unfolding split_ns_def G_def Let_def un [OF small(1)] un [OF small(3)] by simp
  have "(word_of_nat dur_ns :: u64) - word_of_nat G = word_of_nat (dur_ns - G)" using le by (simp add: of_nat_diff)
  then have sub: "unat ((word_of_nat dur_ns :: u64) - word_of_nat G) = dur_ns - G"
    using un [of "dur_ns - G"] assms(5) by simp
  have fields: "m_decode_ns_total_gen m' = m_decode_ns_total_gen m + word_of_nat G"
    "m_prefill_ns_total m' = m_prefill_ns_total m + (word_of_nat dur_ns - word_of_nat G)"
    "m_decode_phase_tokens_total m' = m_decode_phase_tokens_total m + word_of_nat ?g"
    "m_prefill_tokens_total m' = m_prefill_tokens_total m + word_of_nat ?p"
    "m_batch_calls_total m' = m_batch_calls_total m + 1"
    by (simp_all add: m'_def account_def g split Let_def account_gen_def account_perf_def)
  show ?thesis unfolding fields using le by (simp add: un [OF small(1)] un [OF small(2)] un [OF small(4)] sub G_def [symmetric])
qed

end
