(* ===== verification/Daemon_Flush.thy ===== *)
theory Daemon_Flush
  imports Daemon_Invariant Tick_Properties
begin

text \<open>
  Queued output reaches the client's socket: for every kernel queue that behaves as documented,
  a session with bytes queued is registered for write readiness at the end of every step of the
  event loop, unless a decode failure left it an error event. The proofs are the client side of
  the interface \<open>kqueue\<close>.
\<close>

definition flushed :: "('k \<Rightarrow> (int \<times> kfilter) set) \<Rightarrow> ('k \<Rightarrow> int \<Rightarrow> bool) \<Rightarrow> 'k \<Rightarrow> int \<Rightarrow> ClientSession \<Rightarrow> bool" where
  "flushed reg is_open k f s \<longleftrightarrow>
     is_open k f \<and> (tx s \<noteq> [] \<longrightarrow> (f, EVFILT_WRITE) \<in> reg k \<or> last_error s \<noteq> [])"

definition flush_ok :: "('k \<Rightarrow> (int \<times> kfilter) set) \<Rightarrow> ('k \<Rightarrow> int \<Rightarrow> bool) \<Rightarrow> ('k, 'c, 'r) daemon \<Rightarrow> bool" where
  "flush_ok reg is_open d \<longleftrightarrow> (\<forall>f s. find_session (d_sm d) f = Some s \<longrightarrow> flushed reg is_open (d_kq d) f s)"

text \<open>All sessions but one, which is open: the state between a handler's steps.\<close>

definition flush_but :: "int \<Rightarrow> ('k \<Rightarrow> (int \<times> kfilter) set) \<Rightarrow> ('k \<Rightarrow> int \<Rightarrow> bool) \<Rightarrow> ('k, 'c, 'r) daemon \<Rightarrow> bool" where
  "flush_but f reg is_open d \<longleftrightarrow>
     is_open (d_kq d) f \<and>
     (\<forall>g s. g \<noteq> f \<longrightarrow> find_session (d_sm d) g = Some s \<longrightarrow> flushed reg is_open (d_kq d) g s)"

text \<open>What \<open>accept\<close> promises: a descriptor that was not open before, no filter changed.\<close>

definition accept_ok :: "('k \<Rightarrow> (int \<times> kfilter) set) \<Rightarrow> ('k \<Rightarrow> int \<Rightarrow> bool) \<Rightarrow> 'k \<Rightarrow> 'k io \<Rightarrow> bool" where
  "accept_ok reg is_open k0 io \<longleftrightarrow>
     (case io_accept io of (cfd, k) \<Rightarrow>
        reg k = reg k0 \<and> (\<forall>g. is_open k g \<longleftrightarrow> is_open k0 g \<or> g = cfd \<and> 0 \<le> cfd) \<and> \<not> is_open k0 cfd)"

fun events_ok :: "('k, 'c, 'r) denv \<Rightarrow> ('k \<Rightarrow> (int \<times> kfilter) set) \<Rightarrow> ('k \<Rightarrow> int \<Rightarrow> bool) \<Rightarrow>
    (PollEvent \<times> 'k io) list \<Rightarrow> ('k, 'c, 'r) daemon \<Rightarrow> bool" where
  "events_ok D reg is_open [] d = True"
| "events_ok D reg is_open ((ev, io) # evs) d =
     ((ev_fd ev = de_server D \<and> readable ev \<longrightarrow> accept_ok reg is_open (d_kq d) io) \<and>
      events_ok D reg is_open evs (handle_event D (ev, io) d))"

lemma find_upd:
  "find_session (d_sm (upd_session f g d)) h =
     (if h = f then map_option g (find_session (d_sm d) f) else find_session (d_sm d) h)"
proof -
  have "sm_sessions (d_sm (upd_session f g d)) =
      (case pool_find (sm_sessions (d_sm d)) f of None \<Rightarrow> sm_sessions (d_sm d) | Some s \<Rightarrow> pool_set (sm_sessions (d_sm d)) f (g s))"
    by (simp add: upd_session_def find_session_def split: option.split)
  then show ?thesis by (simp add: find_session_def sessions.lookup_update)
qed

lemma kq_upd [simp]: "d_kq (upd_session f g d) = d_kq d"
  by (simp add: upd_session_def split: option.split)

lemma sm_add_remove [simp]: "d_sm (d_add D f fl d) = d_sm d" "d_sm (d_remove D f fl d) = d_sm d"
  by (simp_all add: d_add_def d_remove_def)

lemma close_find: "find_session (d_sm (d_close D f d)) g = (if g = f then None else find_session (d_sm d) g)"
  by (auto simp: d_close_def close_session_def Let_def find_session_def pool_simps split: option.split)

lemma arm_sm: "d_sm (arm D f d) = d_sm d"
  by (simp add: arm_def split: option.split)

lemma outcome_errors:
  "last_error (advance n s) = last_error s" "last_error (consume s) = last_error s" "last_error (failed s) = ''decode error''"
  "last_error (first_token v now t s) = last_error s" "last_error (next_token v now t s) = last_error s"
  "last_error (end_stream cfg now s) = last_error s"
  by (simp_all add: session_outcomes)

lemma tick_trans_error: "tick_trans v cfg now_ns s s' \<Longrightarrow> last_error s \<noteq> [] \<Longrightarrow> last_error s' \<noteq> []"
  by (erule tick_trans.cases) (simp_all add: outcome_errors)

context kqueue
begin

lemma add_kq:
  assumes "is_open (d_kq d) f" and "de_kernel D = K"
  shows "reg (d_kq (d_add D f PollFlags_Write d)) = insert (f, EVFILT_WRITE) (reg (d_kq d))"
    "reg (d_kq (d_add D f PollFlags_Read d)) = insert (f, EVFILT_READ) (reg (d_kq d))"
    "is_open (d_kq (d_add D f PollFlags_Write d)) = is_open (d_kq d)"
    "is_open (d_kq (d_add D f PollFlags_Read d)) = is_open (d_kq d)"
  using add_one [OF assms(1), of PollFlags_Write EVFILT_WRITE] add_one [OF assms(1), of PollFlags_Read EVFILT_READ]
  by (simp_all add: d_add_def assms(2))

lemma remove_kq:
  assumes "de_kernel D = K"
  shows "reg (d_kq (d_remove D f PollFlags_Write d)) = reg (d_kq d) - {(f, EVFILT_WRITE)}"
    "reg (d_kq (d_remove D f PollFlags_Read d)) = reg (d_kq d) - {(f, EVFILT_READ)}"
    "is_open (d_kq (d_remove D f PollFlags_Write d)) = is_open (d_kq d)"
    "is_open (d_kq (d_remove D f PollFlags_Read d)) = is_open (d_kq d)"
  using remove_one [of PollFlags_Write EVFILT_WRITE] remove_one [of PollFlags_Read EVFILT_READ]
  by (simp_all add: d_remove_def assms)

lemma close_kq:
  assumes "de_kernel D = K"
  shows "reg (d_kq (d_close D f d)) = {p \<in> reg (d_kq d). fst p \<noteq> f}"
    "is_open (d_kq (d_close D f d)) g \<longleftrightarrow> g \<noteq> f \<and> is_open (d_kq d) g"
    "find_session (d_sm (d_close D f d)) g = (if g = f then None else find_session (d_sm d) g)"
  using remove_close [of "d_kq d" f] remove_both [OF refl, of "d_kq d" f] close_open
  by (auto simp: d_close_def close_session_def Let_def assms find_session_def pool_simps split: option.split)

lemma flush_close:
  assumes "de_kernel D = K" and "flush_but f reg is_open d"
  shows "flush_ok reg is_open (d_close D f d)"
  using assms(2) by (auto simp: flush_ok_def flush_but_def flushed_def close_kq [OF assms(1)])

lemma flush_ok_but: "flush_ok reg is_open d \<Longrightarrow> find_session (d_sm d) f \<noteq> None \<Longrightarrow> flush_but f reg is_open d"
  by (auto simp: flush_ok_def flush_but_def flushed_def)

lemma flush_but_ok:
  "flush_but f reg is_open d \<Longrightarrow> (\<And>s. find_session (d_sm d) f = Some s \<Longrightarrow> tx s = [] \<or> (f, EVFILT_WRITE) \<in> reg (d_kq d) \<or> last_error s \<noteq> []) \<Longrightarrow>
   flush_ok reg is_open d"
proof -
  assume b: "flush_but f reg is_open d"
    and f: "\<And>s. find_session (d_sm d) f = Some s \<Longrightarrow> tx s = [] \<or> (f, EVFILT_WRITE) \<in> reg (d_kq d) \<or> last_error s \<noteq> []"
  have "flushed reg is_open (d_kq d) g s" if "find_session (d_sm d) g = Some s" for g s
  proof (cases "g = f")
    case True
    then show ?thesis using b f [of s] that by (auto simp: flush_but_def flushed_def)
  next
    case False
    then show ?thesis using b that by (simp add: flush_but_def)
  qed
  then show ?thesis by (simp add: flush_ok_def)
qed

lemma flush_but_steps:
  assumes "de_kernel D = K" and "flush_but f reg is_open d"
  shows "flush_but f reg is_open (d_add D f PollFlags_Write d)" "flush_but f reg is_open (d_add D f PollFlags_Read d)"
    "flush_but f reg is_open (d_remove D f PollFlags_Write d)" "flush_but f reg is_open (d_remove D f PollFlags_Read d)"
    "flush_but f reg is_open (upd_session f g d)"
  using assms(2) add_kq [OF _ assms(1), of d f] remove_kq [OF assms(1)]
  by (auto simp: flush_but_def flushed_def find_upd)

lemma flush_finish_read:
  assumes K: "de_kernel D = K" and b: "flush_but f reg is_open d"
  shows "flush_ok reg is_open (finish_read D f d)"
proof (cases "find_session (d_sm d) f")
  case None
  then show ?thesis using b by (auto simp: finish_read_def intro: flush_but_ok)
next
  case (Some s)
  have op: "is_open (d_kq d) f" using b by (simp add: flush_but_def)
  have "flush_ok reg is_open (d_add D f PollFlags_Write d)"
    by (rule flush_but_ok [OF flush_but_steps(1) [OF K b]]) (simp add: add_kq [OF op K])
  moreover have "flush_ok reg is_open (d_add D f PollFlags_Read (upd_session f reset_session d))" if "tx s = []"
    by (rule flush_but_ok [OF flush_but_steps(2) [OF K flush_but_steps(5) [OF K b]]])
      (use that Some in \<open>auto simp: find_upd reset_session_def\<close>)
  moreover have "flush_ok reg is_open d" if "tx s = []"
    by (rule flush_but_ok [OF b]) (use that Some in simp)
  ultimately show ?thesis using flush_close [OF K b] by (auto simp: finish_read_def Some)
qed

lemma flush_client_write:
  assumes K: "de_kernel D = K" and ok: "flush_ok reg is_open d"
  shows "flush_ok reg is_open (on_client_write D f io d)"
proof (cases "find_session (d_sm d) f")
  case None
  then show ?thesis using ok by (simp add: on_client_write_def)
next
  case (Some s)
  obtain s' broken where dr: "drain_tx (io_now io) (io_writes io) s = (s', broken)" by fastforce
  have "last_error (fst (drain_tx t ws x)) = last_error x \<and> (tx x = [] \<longrightarrow> tx (fst (drain_tx t ws x)) = [])" for t ws x
    by (induction t ws x rule: drain_tx.induct) (auto split: write_result.split)
  from this [of "io_now io" "io_writes io" s] have keep: "last_error s' = last_error s" "tx s = [] \<longrightarrow> tx s' = []"
    using dr by auto
  let ?d1 = "upd_session f (\<lambda>_. s') d"
  have f1: "find_session (d_sm ?d1) f = Some s'" by (simp add: find_upd Some)
  have b: "flush_but f reg is_open ?d1" using flush_but_steps(5) [OF K flush_ok_but [OF ok]] Some by simp
  have "flush_ok reg is_open ?d1"
    by (rule flush_but_ok [OF b]) (use ok Some keep f1 in \<open>auto simp: flush_ok_def flushed_def\<close>)
  moreover have "flush_ok reg is_open (d_remove D f PollFlags_Write ?d1)" if "tx s' = []"
    by (rule flush_but_ok [OF flush_but_steps(3) [OF K b]]) (use that f1 in simp)
  moreover have "flush_ok reg is_open (upd_session f reset_session (d_remove D f PollFlags_Write ?d1))" if "tx s' = []"
    by (rule flush_but_ok [OF flush_but_steps(5) [OF K flush_but_steps(3) [OF K b]]])
      (use that f1 in \<open>auto simp: find_upd reset_session_def\<close>)
  ultimately show ?thesis
    using flush_close [OF K b] flush_close [OF K flush_but_steps(3) [OF K b]]
    by (auto simp: on_client_write_def Some dr Let_def)
qed

text \<open>After reading: the rest is in order, and so is this session when nothing is to be written.\<close>

lemma flush_read_answer:
  assumes K: "de_kernel D = K" and ok: "flush_ok reg is_open d" and s: "find_session (d_sm d) f = Some s"
    and a: "read_answer D f io d = (d3, wants)"
  shows "flush_but f reg is_open d3" and "\<not> wants \<Longrightarrow> flush_ok reg is_open d3"
proof -
  obtain sm rr where r: "on_readable (env_platform (de_env D)) f (de_cfg D) (Some (env_vocab (de_env D))) (io_now io)
             (fst (io_reads io)) (snd (io_reads io)) (d_sm d) = (sm, rr)" by fastforce
  from r s obtain s' n where o: "on_session (env_platform (de_env D)) (de_cfg D) (Some (env_vocab (de_env D))) (io_now io)
        (fst (io_reads io)) (snd (io_reads io)) (next_seq_id (d_sm d)) s = ((s', rr), n)"
      and find: "\<And>g. find_session sm g = (if g = f then Some s' else find_session (d_sm d) g)"
    by (cases rule: on_readable_cases) auto
  let ?d1 = "d\<lparr>d_sm := sm\<rparr>"
  define d2 where "d2 = (if admin_request rr then answer_admin D f ?d1 else ?d1)"
  have d3: "d3 = (if removed_read rr then d_remove D f PollFlags_Read d2 else d2)" "wants = (wants_write rr \<or> admin_request rr)"
    using a by (auto simp: read_answer_def r find Let_def d2_def)
  have "flush_but f reg is_open ?d1" using flush_ok_but [OF ok, of f] s by (simp add: flush_but_def find)
  then have "flush_but f reg is_open d2"
    using flush_but_steps(4,5) [OF K] by (simp add: d2_def answer_admin_def Let_def)
  then show b3: "flush_but f reg is_open d3" using flush_but_steps(4) [OF K] by (simp add: d3)
  show "flush_ok reg is_open d3" if "\<not> wants"
  proof (rule flush_but_ok [OF b3])
    have q: "\<not> wants_write rr" "\<not> admin_request rr" using that d3(2) by simp_all
    have same: "last_error s' = last_error s" "tx s' = tx s"
      using on_session_outcome [OF o] q by (auto simp: same_work_def elim: request_outcome.cases)
    fix t assume "find_session (d_sm d3) f = Some t"
    then have "t = s'" using q by (simp add: d3 d2_def find split: if_splits)
    moreover have "flushed reg is_open (d_kq d) f s" using ok s by (simp add: flush_ok_def)
    ultimately show "tx t = [] \<or> (f, EVFILT_WRITE) \<in> reg (d_kq d3) \<or> last_error t \<noteq> []"
      using q same by (auto simp: flushed_def d3 d2_def remove_kq [OF K])
  qed
qed

lemma flush_client_read:
  assumes K: "de_kernel D = K" and ok: "flush_ok reg is_open d"
  shows "flush_ok reg is_open (on_client_read D f io d)"
proof (cases "find_session (d_sm d) f")
  case None
  then show ?thesis using ok by (simp add: on_client_read_def read_answer_def on_readable_def find_session_def)
next
  case (Some s)
  obtain d3 wants where a: "read_answer D f io d = (d3, wants)" by fastforce
  note r = flush_read_answer [OF K ok Some a]
  show ?thesis using flush_finish_read [OF K flush_but_steps(5) [OF K r(1)]] r(2) by (simp add: on_client_read_def a)
qed

lemma flush_close_any:
  assumes "de_kernel D = K" and "flush_ok reg is_open d"
  shows "flush_ok reg is_open (d_close D f d)"
  using assms(2) by (auto simp: flush_ok_def flushed_def close_kq [OF assms(1)])

lemma flush_idle:
  assumes K: "de_kernel D = K" and ok: "flush_ok reg is_open d"
  shows "flush_ok reg is_open (close_idle D now d)"
proof -
  have "flush_ok reg is_open (fold (d_close D) fs d)" for fs
    using ok by (induction fs arbitrary: d) (simp_all add: flush_close_any [OF K])
  then show ?thesis by (simp add: close_idle_def)
qed

lemma flush_accept:
  assumes K: "de_kernel D = K" and D: "denv_ok D" and d: "d_ok D d" and ok: "flush_ok reg is_open d"
    and acc: "accept_ok reg is_open (d_kq d) io"
  shows "flush_ok reg is_open (on_accept D io d)"
proof -
  obtain cfd k where a: "io_accept io = (cfd, k)" by fastforce
  have k: "reg k = reg (d_kq d)" "\<And>g. is_open k g \<longleftrightarrow> is_open (d_kq d) g \<or> g = cfd \<and> 0 \<le> cfd" "\<not> is_open (d_kq d) cfd"
    using acc by (auto simp: accept_ok_def a)
  have live: "is_open (d_kq d) g" if "find_session (d_sm d) g = Some s" for g s
    using ok that by (simp add: flush_ok_def flushed_def)
  let ?d1 = "d\<lparr>d_kq := k\<rparr>"
  have ok1: "flush_ok reg is_open ?d1" using ok k by (simp add: flush_ok_def flushed_def)
  have "flush_ok reg is_open (?d1\<lparr>d_kq := sys_close K k cfd\<rparr>)"
    using ok k live by (fastforce simp: flush_ok_def flushed_def close_reg close_open)
  moreover have "flush_ok reg is_open (d_add D cfd PollFlags_Read (?d1\<lparr>d_sm := add_client (de_rehash D) (d_sm d) cfd (io_now io)\<rparr>))"
    if "0 \<le> cfd"
  proof -
    let ?s = "new_session\<lparr>fd := cfd, ctx := None, last_activity_ns := io_now io\<rparr>"
    have wf: "pool_wf (sm_sessions (d_sm d))" using d by (simp add: d_ok_def sm_ok_def pool_ok_def)
    have perm: "mset (de_rehash D p) = mset p" for p using D by (simp add: denv_ok_def)
    have find: "find_session (add_client (de_rehash D) (d_sm d) cfd (io_now io)) g =
        (if g = cfd then Some ?s else find_session (d_sm d) g)" for g
      using pool_find_insert [OF wf _ perm, of ?s cfd g] by (simp add: find_session_def add_client_def)
    let ?d2 = "?d1\<lparr>d_sm := add_client (de_rehash D) (d_sm d) cfd (io_now io)\<rparr>"
    have "tx ?s = []" by (simp add: new_session_def)
    then have "flush_but cfd reg is_open ?d2"
      using ok k that by (auto simp: flush_but_def flush_ok_def flushed_def find)
    from flush_but_steps(2) [OF K this] show ?thesis
      by (rule flush_but_ok) (use \<open>tx ?s = []\<close> in \<open>simp add: find\<close>)
  qed
  ultimately show ?thesis using ok1 by (auto simp: on_accept_def a Let_def K not_less)
qed

lemma flush_events:
  assumes K: "de_kernel D = K" and D: "denv_ok D"
    and "d_ok D d" and "flush_ok reg is_open d" and "events_ok D reg is_open evs d"
    and "next_seq_id (d_sm d) + int (length evs) \<le> INT_MAX"
  shows "flush_ok reg is_open (fold (handle_event D) evs d)"
  using assms(3-6)
proof (induction evs arbitrary: d)
  case (Cons x evs)
  obtain ev io where x: "x = (ev, io)" by fastforce
  have "flush_ok reg is_open (handle_event D x d)"
    using Cons.prems flush_accept [OF K D] flush_client_read [OF K] flush_client_write [OF K]
    by (auto simp: x handle_event_def)
  moreover have "d_ok D (handle_event D x d) \<and> next_seq_id (d_sm (handle_event D x d)) \<le> next_seq_id (d_sm d) + 1"
    using Cons.prems by (intro d_ok_event [OF D]) simp_all
  ultimately show ?case using Cons.IH [of "handle_event D x d"] Cons.prems by (simp add: x)
qed simp

lemma flush_arm:
  assumes K: "de_kernel D = K" and "is_open (d_kq d) f"
  shows "is_open (d_kq (arm D f d)) = is_open (d_kq d)" "reg (d_kq d) \<subseteq> reg (d_kq (arm D f d))"
    "d_sm (arm D f d) = d_sm d"
    "find_session (d_sm d) f = Some s \<Longrightarrow> tx s \<noteq> [] \<Longrightarrow> (f, EVFILT_WRITE) \<in> reg (d_kq (arm D f d))"
  using add_kq [OF assms(2) K] by (auto simp: arm_def split: option.split)

lemma arm_not_session: "find_session (d_sm d) f = None \<Longrightarrow> arm D f d = d"
  by (simp add: arm_def)

lemma flush_arms:
  assumes K: "de_kernel D = K" and "\<And>f s. find_session (d_sm d) f = Some s \<Longrightarrow> is_open (d_kq d) f"
  shows "d_sm (fold (arm D) fds d) = d_sm d \<and> is_open (d_kq (fold (arm D) fds d)) = is_open (d_kq d) \<and>
    reg (d_kq d) \<subseteq> reg (d_kq (fold (arm D) fds d)) \<and>
    (\<forall>f s. f \<in> set fds \<longrightarrow> find_session (d_sm d) f = Some s \<longrightarrow> tx s \<noteq> [] \<longrightarrow> (f, EVFILT_WRITE) \<in> reg (d_kq (fold (arm D) fds d)))"
  using assms(2)
proof (induction fds arbitrary: d)
  case (Cons h fds)
  show ?case
  proof (cases "find_session (d_sm d) h")
    case None
    then show ?thesis using Cons by (simp add: arm_not_session)
  next
    case (Some s)
    note a = flush_arm [OF K Cons.prems [OF Some]]
    have "is_open (d_kq (arm D h d)) f" if "find_session (d_sm (arm D h d)) f = Some t" for f t
      using Cons.prems that by (simp add: a(1,3))
    from Cons.IH [OF this] show ?thesis using a Some by (auto simp: subset_iff)
  qed
qed simp

lemma flush_tick:
  assumes K: "de_kernel D = K" and D: "denv_ok D" and d: "d_ok D d" and ok: "flush_ok reg is_open d"
    and t: "tick_and_arm D now dur d = Inr d'"
  shows "flush_ok reg is_open d'"
proof -
  let ?S = "sm_sessions (d_sm d)"
  have sch: "sch_ok (d_sched d)" and E: "env_ok (de_env D)" and pok: "pool_ok (sch_config (d_sched d)) ?S"
    using d D by (auto simp: d_ok_def denv_ok_def sm_ok_def)
  obtain fds sch' c' S' where tk: "tick (de_env D) now dur (d_sched d) (d_ctx d) ?S = Inr (fds, sch', c', S')"
    using tick_Inr [OF sch pok, of "de_env D" now dur "d_ctx d"] by blast
  define d1 where "d1 = d\<lparr>d_sm := (d_sm d)\<lparr>sm_sessions := S'\<rparr>, d_sched := sch', d_ctx := c'\<rparr>"
  have d': "d' = fold (arm D) fds d1" using t by (simp add: tick_and_arm_def tk d1_def)
  have keys: "map fst S' = map fst ?S" using tick_keys [OF sch pok tk] by (simp add: tick_pool_def)
  have find1: "find_session (d_sm d1) f = pool_find S' f" for f by (simp add: d1_def find_session_def)
  have bk: "\<exists>s. find_session (d_sm d) f = Some s \<and> (last_error s \<noteq> [] \<longrightarrow> last_error s' \<noteq> []) \<and>
      (tx s = [] \<longrightarrow> tx s' \<noteq> [] \<longrightarrow> f \<in> set fds \<or> last_error s' \<noteq> [])" if f: "pool_find S' f = Some s'" for f s'
  proof -
    obtain s where s: "pool_find ?S f = Some s" using tick_back [OF keys f] by blast
    then have "last_error s \<noteq> [] \<longrightarrow> last_error s' \<noteq> []"
      using tick_trans_all [OF sch pok E tk s] f tick_trans_error by (auto simp: tick_pool_def)
    then show ?thesis using s tick_arms_or_fails [OF sch pok tk s _ f] by (auto simp: find_session_def)
  qed
  have kq1: "d_kq d1 = d_kq d" by (simp add: d1_def)
  have op: "is_open (d_kq d1) f" if f: "find_session (d_sm d1) f = Some s'" for f s'
  proof -
    from bk [OF f [unfolded find1]] obtain s where "find_session (d_sm d) f = Some s" by blast
    then show ?thesis using ok by (simp add: flush_ok_def flushed_def kq1)
  qed
  have arms: "d_sm d' = d_sm d1" "is_open (d_kq d') = is_open (d_kq d)" "reg (d_kq d) \<subseteq> reg (d_kq d')"
    "\<And>f s. f \<in> set fds \<Longrightarrow> find_session (d_sm d1) f = Some s \<Longrightarrow> tx s \<noteq> [] \<Longrightarrow> (f, EVFILT_WRITE) \<in> reg (d_kq d')"
    using flush_arms [OF K, of d1 fds] op unfolding d' kq1 by blast+
  show ?thesis
    unfolding flush_ok_def
  proof (intro allI impI)
    fix f s' assume "find_session (d_sm d') f = Some s'"
    then have f: "pool_find S' f = Some s'" "find_session (d_sm d1) f = Some s'" using arms(1) by (simp_all add: find1)
    from bk [OF f(1)] obtain s where s: "find_session (d_sm d) f = Some s" "last_error s \<noteq> [] \<longrightarrow> last_error s' \<noteq> []"
      "tx s = [] \<longrightarrow> tx s' \<noteq> [] \<longrightarrow> f \<in> set fds \<or> last_error s' \<noteq> []" by blast
    have "flushed reg is_open (d_kq d) f s" using ok s(1) by (simp add: flush_ok_def)
    then show "flushed reg is_open (d_kq d') f s'"
      using s(2,3) arms f(2) by (auto simp: flushed_def)
  qed
qed

end

end
