(* ===== verification/Daemon_Properties.thy ===== *)
theory Daemon_Properties
  imports Daemon_Flush
begin

text \<open>
  The properties of the event loop: it never fails and keeps its invariant, live sessions use
  distinct sequences of the model's memory, queued output is armed, it does not sleep while
  there is work, and idle sessions are closed.
\<close>

section \<open>A concrete daemon\<close>

definition demo_denv :: "(set_queue, unit, nat) denv" where
  "demo_denv =
     \<lparr>de_env = demo_env 0, de_kernel = set_kernel, de_server = 3, de_cfg = default_config, de_debug = False,
      de_ld = f64, de_rehash = (\<lambda>p. p)\<rparr>"

definition demo_daemon :: "(set_queue, unit, nat) daemon" where
  "demo_daemon =
     \<lparr>d_sm = new_manager, d_kq = \<lparr>q_reg = {(3, EVFILT_READ)}, q_open = {3, 4}\<rparr>, d_ctx = (), d_sched = demo_sched\<rparr>"

definition demo_io :: "set_queue io" where
  "demo_io =
     \<lparr>io_accept = (7, \<lparr>q_reg = {(3, EVFILT_READ)}, q_open = {3, 4, 7}\<rparr>), io_reads = ([], Read_Again), io_write = Write_Again,
      io_writes = [], io_now = 10\<rparr>"

definition demo_events :: "(PollEvent \<times> set_queue io) list" where
  "demo_events = [(\<lparr>ev_fd = 3, ev_f = PollFlags_Read\<rparr>, demo_io)]"

lemma demo_limits: "limits_ok default_config byte_vocab"
proof -
  have "int (length (tokenize (Some byte_vocab) str True True)) + 64 < INT_MAX" if "length str \<le> 8192" for str
    using that byte_tokenize [of str] by (simp add: byte_toks_def INT_MAX_def)
  then show ?thesis by (simp add: limits_ok_def default_config_def INT_MAX_def)
qed

lemma demo_daemon_ok: "denv_ok demo_denv" "d_ok demo_denv demo_daemon" "flush_ok q_reg (\<lambda>q f. f \<in> q_open q) demo_daemon"
  "events_ok demo_denv q_reg (\<lambda>q f. f \<in> q_open q) demo_events demo_daemon"
  "next_seq_id (d_sm demo_daemon) + int (length demo_events) \<le> INT_MAX"
proof -
  show "denv_ok demo_denv" using demo_limits demo_sched_ok(2) by (simp add: denv_ok_def demo_denv_def) (simp add: demo_env_def)
  show "d_ok demo_denv demo_daemon"
    using demo_sched_ok
    by (simp add: d_ok_def demo_denv_def demo_daemon_def sm_ok_def new_manager_def pool_ok_def pool_wf_def seq_ok_def pool_find_def)
  show "flush_ok q_reg (\<lambda>q f. f \<in> q_open q) demo_daemon"
    by (simp add: flush_ok_def demo_daemon_def new_manager_def find_session_def pool_find_def)
  show "events_ok demo_denv q_reg (\<lambda>q f. f \<in> q_open q) demo_events demo_daemon"
    by (auto simp: demo_events_def demo_io_def accept_ok_def demo_daemon_def)
  show "next_seq_id (d_sm demo_daemon) + int (length demo_events) \<le> INT_MAX"
    by (simp add: demo_daemon_def new_manager_def demo_events_def INT_MAX_def)
qed

text \<open>The same daemon with three sessions at work.\<close>

definition busy_daemon :: "(set_queue, unit, nat) daemon" where
  "busy_daemon =
     \<lparr>d_sm = \<lparr>sm_sessions = demo_pool, next_seq_id = 9\<rparr>, d_kq = \<lparr>q_reg = {(4, EVFILT_WRITE)}, q_open = {3, 4, 5, 6}\<rparr>,
      d_ctx = (), d_sched = demo_sched\<rparr>"

definition busy_denv :: "(set_queue, unit, nat) denv" where
  "busy_denv = demo_denv\<lparr>de_server := 6\<rparr>"

lemma busy_ok: "denv_ok busy_denv" "d_ok busy_denv busy_daemon" "flush_ok q_reg (\<lambda>q f. f \<in> q_open q) busy_daemon"
  "kqueue (de_kernel busy_denv) q_reg (\<lambda>q f. f \<in> q_open q)"
proof -
  show "denv_ok busy_denv" using demo_daemon_ok(1) by (simp add: denv_ok_def busy_denv_def)
  have "seq s = f \<and> tx s = [] \<and> f \<in> {3, 4, 5}" if "pool_find demo_pool f = Some s" for f s
    using that by (auto simp: demo_pool_def pool_find_def decoding_def prompting_def new_session_def split: if_splits)
  note facts = this
  have "seq_ok \<lparr>sm_sessions = demo_pool, next_seq_id = 9\<rparr>" using facts by (force simp: seq_ok_def)
  then show "d_ok busy_denv busy_daemon"
    using demo_sched_ok demo_pool_ok
    by (simp add: d_ok_def busy_denv_def demo_denv_def busy_daemon_def sm_ok_def) (simp add: demo_pool_def default_config_def)
  show "flush_ok q_reg (\<lambda>q f. f \<in> q_open q) busy_daemon"
    using facts by (auto simp: flush_ok_def flushed_def busy_daemon_def find_session_def)
  show "kqueue (de_kernel busy_denv) q_reg (\<lambda>q f. f \<in> q_open q)"
    using sets.kqueue_axioms by (simp add: busy_denv_def demo_denv_def)
qed

section \<open>The loop's invariant\<close>

lemma iterate_room:
  assumes "denv_ok D" and "d_ok D d" and "next_seq_id (d_sm d) + int (length evs) \<le> INT_MAX"
  shows "\<exists>d'. iterate D evs now_idle now_tick dur d = Inr d' \<and> d_ok D d' \<and>
    next_seq_id (d_sm d') \<le> next_seq_id (d_sm d) + int (length evs)"
proof -
  note e = events_room [OF assms]
  show ?thesis unfolding iterate_def
    using d_ok_tick [OF assms(1) keeps_idle [OF conjunct1 [OF e]], of now_tick dur now_idle] idle_room [OF conjunct1 [OF e], of now_idle] e
    by auto
qed

text \<open>An iteration keeps every session's output registered.\<close>

lemma flush_iterate:
  assumes "kqueue (de_kernel D) reg is_open" and "denv_ok D" and "d_ok D d" and "flush_ok reg is_open d"
    and "events_ok D reg is_open evs d" and "next_seq_id (d_sm d) + int (length evs) \<le> INT_MAX"
    and "iterate D evs now_idle now_tick dur d = Inr d'"
  shows "flush_ok reg is_open d'"
proof -
  note flush = kqueue.flush_events [OF assms(1) refl assms(2-6)]
  show ?thesis
    using kqueue.flush_tick [OF assms(1) refl assms(2) keeps_idle [OF d_ok_events [OF assms(2,3,6)]]
        kqueue.flush_idle [OF assms(1) refl flush]] assms(7) by (simp add: iterate_def)
qed

section \<open>Waiting and idling\<close>

text \<open>Some session is ready exactly when the policy's plan, with any positive budget, is not empty.\<close>

lemma ready_work_plan:
  assumes "pool_wf S" and "0 < min tgt cap" and "cursor_ok S rd rp"
  shows "has_ready_work S \<longleftrightarrow> items (schedule_tick S cap tgt rd rp) \<noteq> []"
proof -
  have ready: "has_ready_work S \<longleftrightarrow> decode_pool S \<noteq> [] \<or> prefill_pool S \<noteq> []"
    unfolding has_ready_work_def decode_pool_def prefill_pool_def list_ex_iff decode_ready_def prefill_ready_def
    by (induction S) auto
  note b = cursor_bounds [OF assms(3)]
  show ?thesis
  proof (cases "decode_pool S = []")
    case False
    then have "decode_part S (min tgt cap) rd \<noteq> []" using assms(2) by (auto simp: decode_part_def rr_order_def not_le)
    then show ?thesis using ready False by (simp add: plan_items Let_def)
  next
    case True
    then have D: "decode_part S (min tgt cap) rd = []" by (simp add: decode_part_def)
    show ?thesis
    proof (cases "prefill_pool S = []")
      case True
      then show ?thesis using ready \<open>decode_pool S = []\<close> D
        by (simp add: plan_items prefill_tail_def ttft_part_def rest_part_def)
    next
      case False
      then obtain f where f: "f \<in> set (prefill_pool S)" by (cases "prefill_pool S") auto
      then obtain s where s: "pool_find S f = Some s" "prefill_ready s"
        using prefill_pool_ready [OF assms(1)] by (auto simp: all_prefill_ready_def)
      have "items (schedule_tick S cap tgt rd rp) \<noteq> []"
      proof
        assume e: "items (schedule_tick S cap tgt rd rp) = []"
        then have "tokens_of (prefill_tail S (min tgt cap) rp) < min tgt cap" using assms(2) D by (simp add: plan_items)
        from prefill_tail_all [OF assms(1) b(2) this f s(1)] show False using e D by (simp add: plan_items)
      qed
      then show ?thesis using ready False by simp
    qed
  qed
qed

text \<open>
  With nothing to do the loop asks the poller for 200 million milliseconds, that is 200000
  seconds, where the comment beside it says 200 milliseconds; idle sessions are only looked at
  when something else wakes the loop.
\<close>

lemma idle_wait_is_200000_seconds:
  "wait_timespec (wait_time_ms S) = (if has_ready_work S then Some (0, 0) else Some (200000, 0))"
  by (simp add: wait_time_ms_def wait_timespec_def)

lemma close_idle_find:
  "find_session (d_sm (fold (d_close D) fs d)) f = (if f \<in> set fs then None else find_session (d_sm d) f)"
proof (induction fs arbitrary: d)
  case (Cons g fs)
  then show ?case using Cons [of "d_close D g d"] by (auto simp: close_find)
qed simp

text \<open>
  C40. The clean-up closes exactly the sessions that have been silent for longer than the
  configured time-out, and none when the time-out is zero; the others are untouched.
\<close>

theorem close_idle_exact:
  assumes wf: "pool_wf (sm_sessions (d_sm d))" and s: "find_session (d_sm d) f = Some s"
  shows "find_session (d_sm (close_idle D now d)) f =
    (if 0 < idle_timeout_sec (de_cfg D) \<and> unat (now - last_activity_ns s) > unat (idle_timeout_sec (de_cfg D)) * 10 ^ 9
     then None else Some s)"
proof -
  let ?t = "idle_timeout_sec (de_cfg D)" and ?S = "sm_sessions (d_sm d)"
  define idle :: u64 where "idle = ucast ?t * 1000 * 1000 * 1000"
  have t: "unat ?t < 2 ^ 32" using unsigned_less [of ?t] by simp
  have "idle = word_of_nat (unat ?t * 10 ^ 9)" by (simp add: idle_def)
  then have "unat idle = (unat ?t * 10 ^ 9) mod 2 ^ LENGTH(64)" by (simp only: unat_of_nat)
  moreover have "unat ?t * 10 ^ 9 < 2 ^ LENGTH(64)" using t by simp
  ultimately have un: "unat idle = unat ?t * 10 ^ 9" by (simp only: mod_less)
  then have pos: "0 < idle \<longleftrightarrow> 0 < ?t" by (simp add: word_less_nat_alt)
  have inS: "(f, s) \<in> set ?S" "fd s = f"
    using s pool_find_iff [OF wf] pool_wf_find [OF wf] by (auto simp: find_session_def)
  have "f \<in> set (idle_fds (de_cfg D) now ?S) \<longleftrightarrow> 0 < idle \<and> now - last_activity_ns s > idle"
  proof
    assume "f \<in> set (idle_fds (de_cfg D) now ?S)"
    then obtain k u where u: "(k, u) \<in> set ?S" "fd u = f" "0 < idle" "now - last_activity_ns u > idle"
      by (auto simp: idle_fds_def Let_def idle_def)
    then have "k = f" using wf by (auto simp: pool_wf_def)
    then have "u = s" using u(1) s pool_find_iff [OF wf, of f u] by (simp add: find_session_def)
    then show "0 < idle \<and> now - last_activity_ns s > idle" using u by simp
  qed (use inS in \<open>force simp: idle_fds_def Let_def idle_def\<close>)
  then show ?thesis
    using close_idle_find [of D "idle_fds (de_cfg D) now ?S" d f] s pos un
    by (simp add: close_idle_def word_less_nat_alt)
qed

theorem close_idle_exact_witness:
  "find_session (d_sm (close_idle demo_denv 400000000000 (demo_daemon\<lparr>d_sm := \<lparr>sm_sessions = demo_pool, next_seq_id = 9\<rparr>\<rparr>))) 5 = None"
proof -
  let ?d = "demo_daemon\<lparr>d_sm := \<lparr>sm_sessions = demo_pool, next_seq_id = 9\<rparr>\<rparr>"
  have "find_session (d_sm ?d) 5 = Some (prompting 5 20)" by (simp add: find_session_def demo_pool_facts)
  from close_idle_exact [OF _ this, of demo_denv 400000000000] show ?thesis
    by (simp add: demo_pool_facts demo_denv_def default_config_def) (simp add: prompting_def new_session_def)
qed

end
