(* ===== verification/Daemon_Isolation.thy ===== *)
theory Daemon_Isolation
  imports Daemon_Properties
begin

text \<open>
  Isolation of the clients: what the event loop of \<open>src/src/umad/main.cpp\<close> does for an event on one
  descriptor leaves every other session, its registration with the poller, and its part of the
  model's memory alone.
\<close>

section \<open>Steps for one descriptor\<close>

definition untouched :: "('k \<Rightarrow> (int \<times> kfilter) set) \<Rightarrow> int \<Rightarrow> ('k, 'c, 'r) daemon \<Rightarrow> ('k, 'c, 'r) daemon \<Rightarrow> bool" where
  "untouched reg f d d' \<longleftrightarrow>
     d_sched d' = d_sched d \<and>
     (\<forall>g. g \<noteq> f \<longrightarrow> find_session (d_sm d') g = find_session (d_sm d) g \<and>
        (\<forall>flt. (g, flt) \<in> reg (d_kq d') \<longleftrightarrow> (g, flt) \<in> reg (d_kq d)))"

text \<open>The model's memory is unchanged, or one sequence is dropped that no other session holds.\<close>

definition memory_spared :: "('k, 'c, 'r) denv \<Rightarrow> int \<Rightarrow> ('k, 'c, 'r) daemon \<Rightarrow> ('k, 'c, 'r) daemon \<Rightarrow> bool" where
  "memory_spared D f d d' \<longleftrightarrow>
     d_ctx d' = d_ctx d \<or>
     (\<exists>q. 0 \<le> q \<and> d_ctx d' = llama_memory_seq_rm (env_llama (de_env D)) (d_ctx d) q (- 1) (- 1) \<and>
        (\<forall>g s. g \<noteq> f \<longrightarrow> find_session (d_sm d) g = Some s \<longrightarrow> seq s \<noteq> q))"

lemma untouched_refl [simp]: "untouched reg f d d"
  by (simp add: untouched_def)

lemma untouched_trans: "untouched reg f d1 d2 \<Longrightarrow> untouched reg f d2 d3 \<Longrightarrow> untouched reg f d1 d3"
  by (simp add: untouched_def)

lemma memory_spared_same: "d_ctx d' = d_ctx d \<Longrightarrow> memory_spared D f d d'"
  by (simp add: memory_spared_def)

lemma memory_spared_back:
  "untouched reg f d d1 \<Longrightarrow> d_ctx d1 = d_ctx d \<Longrightarrow> memory_spared D f d1 d2 \<Longrightarrow> memory_spared D f d d2"
  by (auto simp: memory_spared_def untouched_def)

lemma ctx_steps [simp]:
  "d_ctx (upd_session f h d) = d_ctx d" "d_ctx (d_add D f fl d) = d_ctx d" "d_ctx (d_remove D f fl d) = d_ctx d"
  "d_sched (upd_session f h d) = d_sched d" "d_sched (d_add D f fl d) = d_sched d" "d_sched (d_remove D f fl d) = d_sched d"
  by (auto simp: upd_session_def d_add_def d_remove_def split: option.split)

lemma sched_close [simp]: "d_sched (d_close D f d) = d_sched d"
  by (simp add: d_close_def split: prod.split)

lemma close_memory:
  assumes "d_ok D d"
  shows "memory_spared D f d (d_close D f d)"
proof (cases "pool_find (sm_sessions (d_sm d)) f")
  case None
  then show ?thesis by (auto simp: memory_spared_def d_close_def close_session_def Let_def)
next
  case (Some s)
  have "seq_ok (d_sm d)" using assms by (simp add: d_ok_def sm_ok_def)
  then have "seq t \<noteq> seq s" if "0 \<le> seq s" "g \<noteq> f" "find_session (d_sm d) g = Some t" for g t
    using Some that unfolding seq_ok_def find_session_def by metis
  then show ?thesis using Some by (auto simp: memory_spared_def d_close_def close_session_def Let_def)
qed

context kqueue
begin

lemma untouched_steps:
  assumes "de_kernel D = K"
  shows "untouched reg f d (upd_session f h d)" "untouched reg f d (d_close D f d)"
    "untouched reg f d (d_remove D f PollFlags_Read d)" "untouched reg f d (d_remove D f PollFlags_Write d)"
    "is_open (d_kq d) f \<Longrightarrow> untouched reg f d (d_add D f PollFlags_Read d)"
    "is_open (d_kq d) f \<Longrightarrow> untouched reg f d (d_add D f PollFlags_Write d)"
  using assms by (auto simp: untouched_def find_upd close_kq remove_kq add_kq)

lemma spared_finish_read:
  assumes K: "de_kernel D = K" and ok: "d_ok D d" and op: "is_open (d_kq d) f"
  shows "untouched reg f d (finish_read D f d) \<and> memory_spared D f d (finish_read D f d)"
proof -
  note u = untouched_steps [OF K]
  have "untouched reg f d (d_add D f PollFlags_Read (upd_session f reset_session d))"
    using u(1) by (rule untouched_trans) (rule u(5), simp add: op)
  then show ?thesis
    using u(2) [of f d] u(6) [OF op] close_memory [OF ok]
    by (auto simp: finish_read_def memory_spared_same split: option.split)
qed

lemma spared_read_answer:
  assumes K: "de_kernel D = K"
  shows "untouched reg f d (fst (read_answer D f io d)) \<and> d_ctx (fst (read_answer D f io d)) = d_ctx d \<and>
    is_open (d_kq (fst (read_answer D f io d))) = is_open (d_kq d)"
proof -
  obtain sm rr where r: "on_readable (env_platform (de_env D)) f (de_cfg D) (Some (env_vocab (de_env D))) (io_now io)
             (fst (io_reads io)) (snd (io_reads io)) (d_sm d) = (sm, rr)" by fastforce
  let ?P = "\<lambda>d'. untouched reg f d d' \<and> d_ctx d' = d_ctx d \<and> is_open (d_kq d') = is_open (d_kq d)"
  have "find_session sm g = find_session (d_sm d) g" if "g \<noteq> f" for g
    using r that by (auto simp: on_readable_def find_session_def pool_simps split: option.splits prod.splits)
  then have start: "?P (d\<lparr>d_sm := sm\<rparr>)" by (simp add: untouched_def)
  have rm: "?P (d_remove D f PollFlags_Read d')" if "?P d'" for d'
    using that untouched_trans [OF _ untouched_steps(3) [OF K]] by (auto simp: remove_kq [OF K])
  have upd: "?P (upd_session f h d')" if "?P d'" for h d'
    using that untouched_trans [OF _ untouched_steps(1) [OF K]] by auto
  show ?thesis
    using start rm [OF start] rm [OF upd [OF start]] rm [OF rm [OF upd [OF start]]]
    by (auto simp: read_answer_def r Let_def answer_admin_def split: option.split)
qed

lemma spared_client_read:
  assumes K: "de_kernel D = K" and D: "denv_ok D" and d: "d_ok D d" and room: "next_seq_id (d_sm d) < INT_MAX"
    and op: "is_open (d_kq d) f"
  shows "untouched reg f d (on_client_read D f io d) \<and> memory_spared D f d (on_client_read D f io d)"
proof -
  obtain d3 wants where a: "read_answer D f io d = (d3, wants)" by fastforce
  note r = spared_read_answer [OF K, of f d io, unfolded a fst_conv]
  let ?d4 = "upd_session f (write_now (io_write io)) d3"
  have "d_ok D d3" using d_ok_read_answer [OF D d room, of f io] by (simp add: a)
  then have ok4: "d_ok D ?d4" using keeps_write_now [of D f] by (simp add: keeps_def)
  have u4: "untouched reg f d ?d4" using r untouched_trans [OF _ untouched_steps(1) [OF K]] by blast
  have "untouched reg f ?d4 (finish_read D f ?d4) \<and> memory_spared D f ?d4 (finish_read D f ?d4)"
    by (rule spared_finish_read [OF K ok4]) (simp add: r op)
  then show ?thesis
    using r u4 untouched_trans [OF u4] memory_spared_back [OF u4]
    by (auto simp: on_client_read_def a memory_spared_same)
qed

lemma spared_client_write:
  assumes K: "de_kernel D = K" and D: "denv_ok D" and d: "d_ok D d"
  shows "untouched reg f d (on_client_write D f io d) \<and> memory_spared D f d (on_client_write D f io d)"
proof (cases "find_session (d_sm d) f")
  case None
  then show ?thesis by (simp add: on_client_write_def memory_spared_same)
next
  case (Some s)
  obtain s' broken where dr: "drain_tx (io_now io) (io_writes io) s = (s', broken)" by fastforce
  let ?d1 = "upd_session f (\<lambda>_. s') d" and ?d2 = "d_remove D f PollFlags_Write (upd_session f (\<lambda>_. s') d)"
  note u = untouched_steps [OF K]
  have u1: "untouched reg f d ?d1" by (rule u(1))
  have u2: "untouched reg f d ?d2" by (rule untouched_trans [OF u1 u(4)])
  have ok1: "d_ok D ?d1"
  proof -
    have "sess_ok (de_cfg D) s" using d Some by (auto simp: d_ok_def sm_ok_def pool_ok_def find_session_def)
    then have s': "fd s' = fd s" "seq s' = seq s" "sess_ok (de_cfg D) s'"
      using drain_tx_keeps [of "io_now io" "io_writes io" s "de_cfg D"] dr by auto
    show ?thesis using d Some sm_ok_keep [OF _ Some [unfolded find_session_def] s'] by (auto simp: upd_session_def d_ok_def)
  qed
  then have ok2: "d_ok D ?d2" using keeps_remove [of D f] by (simp add: keeps_def)
  have c1: "untouched reg f d (d_close D f ?d1)" "memory_spared D f d (d_close D f ?d1)"
    using untouched_trans [OF u1 u(2)] memory_spared_back [OF u1 _ close_memory [OF ok1]] by simp_all
  have c2: "untouched reg f d (d_close D f ?d2)" "memory_spared D f d (d_close D f ?d2)"
    using untouched_trans [OF u2 u(2)] memory_spared_back [OF u2 _ close_memory [OF ok2]] by simp_all
  have "untouched reg f d (upd_session f reset_session ?d2)" by (rule untouched_trans [OF u2 u(1)])
  then show ?thesis using c1 c2 u1 u2
    by (auto simp: on_client_write_def Some dr Let_def memory_spared_same)
qed

lemma spared_accept:
  assumes K: "de_kernel D = K" and D: "denv_ok D" and d: "d_ok D d" and acc: "accept_ok reg is_open (d_kq d) io"
  shows "untouched reg (fst (io_accept io)) d (on_accept D io d) \<and> d_ctx (on_accept D io d) = d_ctx d"
proof -
  obtain cfd k where a: "io_accept io = (cfd, k)" by fastforce
  have k: "reg k = reg (d_kq d)" "\<And>g. is_open k g \<longleftrightarrow> is_open (d_kq d) g \<or> g = cfd \<and> 0 \<le> cfd"
    using acc by (auto simp: accept_ok_def a)
  let ?s = "new_session\<lparr>fd := cfd, ctx := None, last_activity_ns := io_now io\<rparr>"
  let ?d1 = "d\<lparr>d_kq := k\<rparr>" and ?sm = "add_client (de_rehash D) (d_sm d) cfd (io_now io)"
  have wf: "pool_wf (sm_sessions (d_sm d))" using d by (simp add: d_ok_def sm_ok_def pool_ok_def)
  have perm: "mset (de_rehash D p) = mset p" for p using D by (simp add: denv_ok_def)
  have find: "find_session ?sm g = (if g = cfd then Some ?s else find_session (d_sm d) g)" for g
    using pool_find_insert [OF wf _ perm, of ?s cfd g] by (simp add: find_session_def add_client_def)
  have "untouched reg cfd d (d_add D cfd PollFlags_Read (?d1\<lparr>d_sm := ?sm\<rparr>))" if "0 \<le> cfd"
    by (rule untouched_trans [of _ _ _ "?d1\<lparr>d_sm := ?sm\<rparr>"])
      (use that k in \<open>simp_all add: untouched_def find, simp add: untouched_steps(5) [OF K, unfolded untouched_def]\<close>)
  moreover have "untouched reg cfd d ?d1" "untouched reg cfd d (?d1\<lparr>d_kq := sys_close K k cfd\<rparr>)"
    using k by (simp_all add: untouched_def close_reg)
  ultimately show ?thesis by (auto simp: on_accept_def a Let_def K not_less)
qed

lemma spared_event:
  assumes K: "de_kernel D = K" and D: "denv_ok D" and d: "d_ok D d" and fl: "flush_ok reg is_open d"
    and room: "next_seq_id (d_sm d) < INT_MAX" and ev: "events_ok D reg is_open [(ev, io)] d"
    and f: "f = (if ev_fd ev = de_server D \<and> readable ev then fst (io_accept io) else ev_fd ev)"
  shows "untouched reg f d (handle_event D (ev, io) d) \<and> memory_spared D f d (handle_event D (ev, io) d)"
proof (cases "find_session (d_sm d) (ev_fd ev)")
  case None
  then have "on_client_read D (ev_fd ev) io d = d" "on_client_write D (ev_fd ev) io d = d"
    by (simp_all add: on_client_read_def read_answer_def on_client_write_def on_readable_def find_session_def)
  then show ?thesis using spared_accept [OF K D d] ev f by (auto simp: handle_event_def memory_spared_same)
next
  case (Some s)
  then have op: "is_open (d_kq d) (ev_fd ev)" using fl by (simp add: flush_ok_def flushed_def)
  then show ?thesis
    using spared_accept [OF K D d] spared_client_read [OF K D d room op] spared_client_write [OF K D d] ev f
    by (auto simp: handle_event_def memory_spared_same)
qed

end

section \<open>The property\<close>

text \<open>
  C16. Clients are isolated: whatever an event on one descriptor brings, and whatever the system calls
  made for it return, every other session stays exactly as it is, so do its registrations with
  the poller and the scheduler, and if a sequence is dropped from the model's memory it is not
  the other session's.
\<close>

theorem event_isolated:
  assumes "kqueue (de_kernel D) reg is_open" and "denv_ok D" and "d_ok D d" and "flush_ok reg is_open d"
    and "next_seq_id (d_sm d) < INT_MAX" and "events_ok D reg is_open [(ev, io)] d"
    and "g \<noteq> (if ev_fd ev = de_server D \<and> readable ev then fst (io_accept io) else ev_fd ev)"
    and "d' = handle_event D (ev, io) d"
  shows "find_session (d_sm d') g = find_session (d_sm d) g \<and> d_sched d' = d_sched d \<and>
    (\<forall>flt. (g, flt) \<in> reg (d_kq d') \<longleftrightarrow> (g, flt) \<in> reg (d_kq d)) \<and>
    (d_ctx d' = d_ctx d \<or>
     (\<exists>q. 0 \<le> q \<and> d_ctx d' = llama_memory_seq_rm (env_llama (de_env D)) (d_ctx d) q (- 1) (- 1) \<and>
        (\<forall>s. find_session (d_sm d) g = Some s \<longrightarrow> seq s \<noteq> q)))"
  using kqueue.spared_event [OF assms(1) refl assms(2-6) refl] assms(7)
  unfolding assms(8) untouched_def memory_spared_def by metis

theorem event_isolated_witness:
  "find_session (d_sm (handle_event busy_denv (\<lparr>ev_fd = 5, ev_f = PollFlags_Read\<rparr>, demo_io) busy_daemon)) 4 = Some (decoding 4)"
proof -
  have "find_session (d_sm busy_daemon) 4 = Some (decoding 4)"
    by (simp add: busy_daemon_def find_session_def demo_pool_def pool_find_def)
  then show ?thesis
    using event_isolated [OF busy_ok(4,1-3) _ _ _ refl, of "\<lparr>ev_fd = 5, ev_f = PollFlags_Read\<rparr>" demo_io 4]
    by (simp add: busy_daemon_def busy_denv_def INT_MAX_def)
qed

end
