(* ===== verification/Logging.thy ===== *)
theory Logging
  imports Config
begin

text \<open>
  The logger, \<open>src/src/util/logging.h\<close>: a level kept in eight bits, set from the environment, and
  lines that are collected and written to standard error only when their level is enabled. The
  process-wide instance is an explicit argument, the wall clock (already formatted by
  \<open>put_time\<close>) an input, and what is written to standard error the result.
\<close>

section \<open>Levels\<close>

datatype LogLevel = LogError | LogWarn | LogInfo | LogDebug

primrec level_byte :: "LogLevel \<Rightarrow> byte" where
  "level_byte LogError = 0"
| "level_byte LogWarn = 1"
| "level_byte LogInfo = 2"
| "level_byte LogDebug = 3"

record Logger =
  log_level :: byte

definition new_logger :: Logger where
  "new_logger = \<lparr>log_level = level_byte LogInfo\<rparr>"

definition set_level :: "LogLevel \<Rightarrow> Logger \<Rightarrow> Logger" where
  "set_level lvl g = g\<lparr>log_level := level_byte lvl\<rparr>"

definition should :: "Logger \<Rightarrow> LogLevel \<Rightarrow> bool" where
  "should g lvl \<longleftrightarrow> level_byte lvl \<le> log_level g"

definition configure_from_env :: "environ \<Rightarrow> Logger \<Rightarrow> Logger" where
  "configure_from_env E g =
     (case E ''UMA_LOG_LEVEL'' of
        None \<Rightarrow> g
      | Some lvl \<Rightarrow>
          if lvl = [] then g
          else let s = map tolower lvl in
            if s = ''debug'' then set_level LogDebug g
            else if s = ''info'' then set_level LogInfo g
            else if s = ''warn'' \<or> s = ''warning'' then set_level LogWarn g
            else if s = ''error'' \<or> s = ''err'' then set_level LogError g
            else g)"

primrec level_tag :: "LogLevel \<Rightarrow> string" where
  "level_tag LogError = ''error''"
| "level_tag LogWarn = ''warn''"
| "level_tag LogInfo = ''info''"
| "level_tag LogDebug = ''debug''"

definition emit :: "Logger \<Rightarrow> string \<Rightarrow> LogLevel \<Rightarrow> string \<Rightarrow> string" where
  "emit g hms lvl msg =
     (if \<not> should g lvl then ''''
      else ''['' @ level_tag lvl @ '' '' @ hms @ ''] '' @ msg @ [CHR 0x0A])"

section \<open>Lines\<close>

record LogLine =
  line_lvl :: LogLevel
  line_enabled :: bool
  line_oss :: string

definition new_line :: "Logger \<Rightarrow> LogLevel \<Rightarrow> LogLine" where
  "new_line g lvl = \<lparr>line_lvl = lvl, line_enabled = should g lvl, line_oss = ''''\<rparr>"

definition line_put :: "string \<Rightarrow> LogLine \<Rightarrow> LogLine" where
  "line_put v l = (if line_enabled l then l\<lparr>line_oss := line_oss l @ v\<rparr> else l)"

definition end_line :: "Logger \<Rightarrow> string \<Rightarrow> LogLine \<Rightarrow> string" where
  "end_line g hms l = (if line_enabled l then emit g hms (line_lvl l) (line_oss l) else '''')"

text \<open>A logging statement: a temporary line, its parts, its destruction.\<close>

definition log_statement :: "Logger \<Rightarrow> string \<Rightarrow> LogLevel \<Rightarrow> string list \<Rightarrow> string" where
  "log_statement g hms lvl parts = end_line g hms (fold line_put parts (new_line g lvl))"

section \<open>What is written\<close>

lemma fold_line_put:
  "fold line_put parts l = (if line_enabled l then l\<lparr>line_oss := line_oss l @ concat parts\<rparr> else l)"
  by (induction parts arbitrary: l) (auto simp: line_put_def)

text \<open>A statement writes its whole message on one line when its level is enabled, else nothing.\<close>

lemma log_statement_exact:
  "log_statement g hms lvl parts =
     (if should g lvl then ''['' @ level_tag lvl @ '' '' @ hms @ ''] '' @ concat parts @ [CHR 0x0A] else '''')"
  by (simp add: log_statement_def end_line_def fold_line_put new_line_def emit_def)

text \<open>Enabling is monotone: whatever is shown at a level is shown at every more verbose one.\<close>

lemma should_mono: "log_level g \<le> log_level h \<Longrightarrow> should g lvl \<Longrightarrow> should h lvl"
  unfolding should_def by simp

lemma error_always_shown: "should g LogError"
  by (simp add: should_def)

text \<open>
  The logger and the configuration read the same variable: debug lines are shown exactly when
  the configuration turns on the model's performance timers.
\<close>

lemma debug_iff_perf: "should (configure_from_env E new_logger) LogDebug \<longleftrightarrow> enable_perf (env_config E)"
proof -
  have n: "\<not> (3 :: byte) \<le> 1" by code_simp
  have "enable_perf (env_config E) \<longleftrightarrow> (\<exists>l. E ''UMA_LOG_LEVEL'' = Some l \<and> l \<noteq> [] \<and> map tolower l = ''debug'')"
    by (auto simp: env_config_def Let_def get_env_def split: option.splits)
  moreover have "should (configure_from_env E new_logger) LogDebug \<longleftrightarrow>
      (\<exists>l. E ''UMA_LOG_LEVEL'' = Some l \<and> l \<noteq> [] \<and> map tolower l = ''debug'')"
    by (auto simp: n configure_from_env_def should_def new_logger_def set_level_def Let_def split: option.splits)
  ultimately show ?thesis by simp
qed

end
