(* ===== verification/Model.thy ===== *)
theory Model
  imports Config
begin

text \<open>
  The model handle, \<open>src/src/runtime/model.{h,cpp}\<close>: the parameters handed to llama.cpp, loading
  the model once, creating contexts. The parameter structs carry the fields the code assigns and,
  as the record's extension, the ones it leaves at llama.cpp's defaults; the defaults, the loader
  and the context constructor belong to llama.cpp and are parameters. A thrown exception is the
  left summand.
\<close>

section \<open>What llama.cpp provides\<close>

record llama_model_params =
  mp_use_mlock :: bool
  mp_use_mmap :: bool

record llama_context_params =
  cp_n_ctx :: u32
  cp_n_batch :: u32
  cp_n_ubatch :: u32
  cp_n_seq_max :: u32
  cp_n_threads :: int
  cp_n_threads_batch :: int
  cp_flash_attn_type :: int
  cp_offload_kqv :: bool
  cp_kv_unified :: bool
  cp_swa_full :: bool
  cp_no_perf :: bool
  cp_op_offload :: bool

record ('p, 'q, 'm, 'c) llama_loader =
  llama_model_default_params :: "'p llama_model_params_scheme"
  llama_context_default_params :: "'q llama_context_params_scheme"
  LLAMA_FLASH_ATTN_TYPE_AUTO :: int
  llama_model_load_from_file :: "string \<Rightarrow> 'p llama_model_params_scheme \<Rightarrow> 'm option"
  llama_init_from_model :: "'m \<Rightarrow> 'q llama_context_params_scheme \<Rightarrow> 'c option"

section \<open>ModelHandle\<close>

definition make_model_params :: "('p, 'q, 'm, 'c) llama_loader \<Rightarrow> RuntimeConfig \<Rightarrow> 'p llama_model_params_scheme" where
  "make_model_params L cfg = (llama_model_default_params L)\<lparr>mp_use_mlock := use_mlock cfg, mp_use_mmap := use_mmap cfg\<rparr>"

definition make_context_params :: "('p, 'q, 'm, 'c) llama_loader \<Rightarrow> RuntimeConfig \<Rightarrow> 'q llama_context_params_scheme" where
  "make_context_params L cfg =
     (let cp = llama_context_default_params L;
          cp = (if n_ctx cfg > 0 then cp\<lparr>cp_n_ctx := n_ctx cfg\<rparr> else cp);
          cp = (if n_batch cfg > 0 then cp\<lparr>cp_n_batch := n_batch cfg\<rparr> else cp);
          cp = (if n_ubatch cfg > 0 then cp\<lparr>cp_n_ubatch := n_ubatch cfg\<rparr> else cp);
          cp = (if n_threads cfg > 0
                then cp\<lparr>cp_n_threads := n_threads cfg, cp_n_threads_batch := n_threads cfg\<rparr> else cp)
      in cp\<lparr>cp_n_seq_max := max (n_seq_max cfg) 1, cp_flash_attn_type := LLAMA_FLASH_ATTN_TYPE_AUTO L,
            cp_offload_kqv := offload_kqv cfg, cp_kv_unified := kv_unified cfg, cp_swa_full := swa_full cfg,
            cp_no_perf := \<not> enable_perf cfg, cp_op_offload := True\<rparr>)"

datatype model_error = Invalid_Argument string | Runtime_Error string

record ('q, 'm) ModelHandle =
  mh_cfg :: RuntimeConfig
  mh_model :: 'm
  mh_ctx_params :: "'q llama_context_params_scheme"

definition new_model :: "('p, 'q, 'm, 'c) llama_loader \<Rightarrow> RuntimeConfig \<Rightarrow> model_error + ('q, 'm) ModelHandle" where
  "new_model L cfg =
     (if model_path cfg = [] then Inl (Invalid_Argument ''Model path not provided. Use --model or UMA_MODEL.'')
      else case llama_model_load_from_file L (model_path cfg) (make_model_params L cfg) of
             None \<Rightarrow> Inl (Runtime_Error (''Failed to load model: '' @ model_path cfg))
           | Some m \<Rightarrow> Inr \<lparr>mh_cfg = cfg, mh_model = m, mh_ctx_params = make_context_params L cfg\<rparr>)"

definition new_context :: "('p, 'q, 'm, 'c) llama_loader \<Rightarrow> ('q, 'm) ModelHandle \<Rightarrow> model_error + 'c" where
  "new_context L h =
     (case llama_init_from_model L (mh_model h) (mh_ctx_params h) of
        None \<Rightarrow> Inl (Runtime_Error ''Failed to create llama_context'')
      | Some c \<Rightarrow> Inr c)"

section \<open>Lifetimes\<close>

text \<open>
  The calls into llama.cpp that acquire and release. A pointer is an option, \<open>nullptr\<close> its \<open>None\<close>;
  the destructors free only what is there.
\<close>

datatype ('m, 'c) llama_call =
    Llama_Backend_Init
  | Llama_Backend_Free
  | Llama_Model_Load 'm
  | Llama_Model_Free 'm
  | Llama_Init 'c
  | Llama_Free 'c

definition new_backend_guard :: "('m, 'c) llama_call list" where
  "new_backend_guard = [Llama_Backend_Init]"

definition destroy_backend_guard :: "('m, 'c) llama_call list" where
  "destroy_backend_guard = [Llama_Backend_Free]"

definition destroy_model :: "'m option \<Rightarrow> ('m, 'c) llama_call list" where
  "destroy_model model = (case model of Some m \<Rightarrow> [Llama_Model_Free m] | None \<Rightarrow> [])"

definition destroy_context :: "'c option \<Rightarrow> ('m, 'c) llama_call list" where
  "destroy_context ctx = (case ctx of Some c \<Rightarrow> [Llama_Free c] | None \<Rightarrow> [])"

section \<open>The parameters\<close>

text \<open>
  A context always has at least one sequence, keeps llama.cpp's sizes where the configuration has
  zero, and every field the code does not name is llama.cpp's default.
\<close>

lemma make_context_params_fields:
  "cp_n_seq_max (make_context_params L cfg) \<ge> 1"
  "cp_n_batch (make_context_params L cfg) = (if n_batch cfg = 0 then cp_n_batch (llama_context_default_params L) else n_batch cfg)"
  "cp_n_ctx (make_context_params L cfg) = (if n_ctx cfg = 0 then cp_n_ctx (llama_context_default_params L) else n_ctx cfg)"
  "llama_context_params.more (make_context_params L cfg) = llama_context_params.more (llama_context_default_params L)"
  unfolding make_context_params_def Let_def by (auto simp: word_gt_0 max_def linorder_not_le)

lemma new_model_ok:
  "new_model L cfg = Inr h \<Longrightarrow>
   model_path cfg \<noteq> [] \<and> mh_cfg h = cfg \<and> mh_ctx_params h = make_context_params L cfg \<and>
   llama_model_load_from_file L (model_path cfg) (make_model_params L cfg) = Some (mh_model h)"
  by (auto simp: new_model_def split: if_splits option.splits)

end
