(* ===== verification/Uds_Server.thy ===== *)
theory Uds_Server
  imports Prelude
begin

text \<open>
  The listening socket, \<open>src/src/ipc/uds_server.{h,cpp}\<close>. Every operation yields its result, the
  server's new state and the system calls it made, in order; what the calls return is an input.
  The theory proves that no descriptor is leaked on any path, which permissions the socket file has
  when connections become possible, and that the blocking loop closes every client.
\<close>

section \<open>Calls and their results\<close>

text \<open>A call of \<open>chmod\<close> is recorded with whether it succeeded, since the source goes on when it does not.\<close>

datatype syscall =
    Unlink string
  | Socket int
  | Getfd int
  | Set_Cloexec int int
  | Bind int string
  | Chmod string u32 bool
  | Listen int nat
  | Getfl int
  | Set_Nonblock int int
  | Set_Nosigpipe int
  | Accept int
  | Accepted_Client int
  | Handle int
  | Close int

text \<open>
  The platform: the size of \<open>sun_path\<close> and whether \<open>SO_NOSIGPIPE\<close> exists. The results of one
  opening: the descriptor, the descriptor flags, whether \<open>bind\<close>, \<open>chmod\<close> and \<open>listen\<close> succeed, the
  status flags.
\<close>

record uds_platform =
  sun_path_size :: nat
  has_nosigpipe :: bool

record open_io =
  r_socket :: int
  r_getfd :: int
  r_bind :: bool
  r_chmod :: bool
  r_listen :: bool
  r_getfl :: int

section \<open>UDSServer\<close>

record UDSServer =
  uds_path :: string
  uds_mode :: u32
  listen_fd :: int

definition new_server :: "string \<Rightarrow> u32 \<Rightarrow> UDSServer" where
  "new_server path mode = \<lparr>uds_path = path, uds_mode = mode, listen_fd = - 1\<rparr>"

definition open_socket :: "uds_platform \<Rightarrow> open_io \<Rightarrow> UDSServer \<Rightarrow> (bool \<times> UDSServer) \<times> syscall list" where
  "open_socket P io u =
     (let path = uds_path u; lfd = r_socket io; u1 = u\<lparr>listen_fd := lfd\<rparr>; t1 = [Unlink path, Socket lfd] in
        if lfd < 0 then ((False, u1), t1)
        else
          let t2 = t1 @ [Getfd lfd] @ (if r_getfd io \<noteq> - 1 then [Set_Cloexec lfd (r_getfd io)] else []) in
            if length path \<ge> sun_path_size P then ((False, u1\<lparr>listen_fd := - 1\<rparr>), t2 @ [Close lfd])
            else
              let t3 = t2 @ [Bind lfd path] in
                if \<not> r_bind io then ((False, u1\<lparr>listen_fd := - 1\<rparr>), t3 @ [Close lfd])
                else
                  let t4 = t3 @ [Chmod path (uds_mode u) (r_chmod io), Listen lfd 16] in
                    if \<not> r_listen io then ((False, u1\<lparr>listen_fd := - 1\<rparr>), t4 @ [Close lfd])
                    else ((True, u1), t4))"

definition close_socket :: "UDSServer \<Rightarrow> UDSServer \<times> syscall list" where
  "close_socket u = (if listen_fd u \<ge> 0 then (u\<lparr>listen_fd := - 1\<rparr>, [Close (listen_fd u)]) else (u, []))"

definition destroy_server :: "UDSServer \<Rightarrow> UDSServer \<times> syscall list" where
  "destroy_server u =
     (case close_socket u of (u1, t) \<Rightarrow> (u1, t @ (if uds_path u1 \<noteq> [] then [Unlink (uds_path u1)] else [])))"

definition open_listen :: "uds_platform \<Rightarrow> open_io \<Rightarrow> UDSServer \<Rightarrow> (bool \<times> UDSServer) \<times> syscall list" where
  "open_listen P io u =
     (case open_socket P io u of
        ((ok, u1), t) \<Rightarrow>
          if \<not> ok then ((False, u1), t)
          else
            ((True, u1),
             t @ [Getfl (listen_fd u1)] @ (if r_getfl io \<noteq> - 1 then [Set_Nonblock (listen_fd u1) (r_getfl io)] else []) @
             (if has_nosigpipe P then [Set_Nosigpipe (listen_fd u1)] else [])))"

definition close_listen :: "UDSServer \<Rightarrow> UDSServer \<times> syscall list" where
  "close_listen u = close_socket u"

text \<open>
  The blocking loop: before every \<open>accept\<close> the shutdown flag is read. Each input is the flag's
  value and what \<open>accept\<close> then returns; a list that ends first means the loop is still waiting.
\<close>

datatype accept_result = Accepted int | Accept_Interrupted | Accept_Failed

fun serve_loop :: "int \<Rightarrow> (bool \<times> accept_result) list \<Rightarrow> syscall list option" where
  "serve_loop lfd [] = None"
| "serve_loop lfd ((shutdown, r) # rs) =
     (if shutdown then Some []
      else case r of
             Accept_Interrupted \<Rightarrow> map_option (Cons (Accept lfd)) (serve_loop lfd rs)
           | Accept_Failed \<Rightarrow> Some [Accept lfd]
           | Accepted cfd \<Rightarrow>
               map_option (\<lambda>t. [Accept lfd, Accepted_Client cfd, Handle cfd, Close cfd] @ t) (serve_loop lfd rs))"

definition serve :: "uds_platform \<Rightarrow> open_io \<Rightarrow> (bool \<times> accept_result) list \<Rightarrow> UDSServer \<Rightarrow>
    ((bool \<times> UDSServer) \<times> syscall list) option" where
  "serve P io rs u =
     (case open_socket P io u of
        ((ok, u1), t) \<Rightarrow>
          if \<not> ok then Some ((False, u1), t)
          else
            (case serve_loop (listen_fd u1) rs of
               None \<Rightarrow> None
             | Some t1 \<Rightarrow>
                 (case close_socket u1 of
                    (u2, t2) \<Rightarrow> Some ((True, u2), t @ t1 @ t2 @ [Unlink (uds_path u2)]))))"

section \<open>Descriptors\<close>

text \<open>The open descriptors after a trace.\<close>

fun fds_after :: "syscall list \<Rightarrow> int set \<Rightarrow> int set" where
  "fds_after [] S = S"
| "fds_after (Socket f # t) S = fds_after t (if 0 \<le> f then insert f S else S)"
| "fds_after (Accepted_Client f # t) S = fds_after t (insert f S)"
| "fds_after (Close f # t) S = fds_after t (S - {f})"
| "fds_after (_ # t) S = fds_after t S"

lemma fds_after_append: "fds_after (t1 @ t2) S = fds_after t2 (fds_after t1 S)"
  by (induction t1 S rule: fds_after.induct) auto

lemma open_socket_cases:
  assumes "open_socket P io u = ((ok, u'), t)"
  shows "ok \<longleftrightarrow> 0 \<le> r_socket io \<and> length (uds_path u) < sun_path_size P \<and> r_bind io \<and> r_listen io"
    and "listen_fd u' = (if ok then r_socket io else if 0 \<le> r_socket io then - 1 else r_socket io)"
    and "uds_path u' = uds_path u"
    and "r_socket io \<notin> S \<Longrightarrow> fds_after t S = (if ok then insert (r_socket io) S else S)"
  using assms by (auto simp: open_socket_def Let_def fds_after_append split: if_splits)

lemma open_listen_result:
  assumes "open_listen P io u = ((ok, u'), t)"
  shows "ok \<longleftrightarrow> 0 \<le> r_socket io \<and> length (uds_path u) < sun_path_size P \<and> r_bind io \<and> r_listen io"
    and "listen_fd u' = (if ok then r_socket io else if 0 \<le> r_socket io then - 1 else r_socket io)"
    and "r_socket io \<notin> S \<Longrightarrow> fds_after t S = (if ok then insert (r_socket io) S else S)"
proof -
  obtain ok1 u1 t1 where o: "open_socket P io u = ((ok1, u1), t1)" by (metis surj_pair)
  note c = open_socket_cases [OF o]
  have eq: "ok = ok1" "u' = u1" using assms by (auto simp: open_listen_def o split: if_splits)
  show "ok \<longleftrightarrow> 0 \<le> r_socket io \<and> length (uds_path u) < sun_path_size P \<and> r_bind io \<and> r_listen io"
    and "listen_fd u' = (if ok then r_socket io else if 0 \<le> r_socket io then - 1 else r_socket io)"
    using c(1,2) by (simp_all add: eq)
  show "fds_after t S = (if ok then insert (r_socket io) S else S)" if "r_socket io \<notin> S"
  proof -
    define tail where "tail = [Getfl (listen_fd u1)] @
      (if r_getfl io \<noteq> - 1 then [Set_Nonblock (listen_fd u1) (r_getfl io)] else []) @
      (if has_nosigpipe P then [Set_Nosigpipe (listen_fd u1)] else [])"
    have "fds_after tail R = R" for R by (simp add: tail_def)
    moreover have "t = (if ok1 then t1 @ tail else t1)" using assms unfolding open_listen_def o tail_def by (cases ok1) auto
    ultimately show ?thesis using c(4) [OF that] by (simp add: eq(1) fds_after_append)
  qed
qed

text \<open>
  The descriptors that become connectable in a trace, each with the mode the file at \<open>p\<close> has at
  that moment (\<open>None\<close> when there is no file): \<open>bind\<close> creates it with the mode \<open>um\<close> the process's mask
  gives, a successful \<open>chmod\<close> sets it, \<open>unlink\<close> removes it.
\<close>

fun listen_modes :: "u32 \<Rightarrow> string \<Rightarrow> syscall list \<Rightarrow> u32 option \<Rightarrow> (int \<times> u32 option) list" where
  "listen_modes um p [] m = []"
| "listen_modes um p (Unlink q # t) m = listen_modes um p t (if q = p then None else m)"
| "listen_modes um p (Bind f q # t) m = listen_modes um p t (if q = p then Some um else m)"
| "listen_modes um p (Chmod q mode ok # t) m = listen_modes um p t (if q = p \<and> ok then map_option (\<lambda>_. mode) m else m)"
| "listen_modes um p (Listen f n # t) m = (f, m) # listen_modes um p t m"
| "listen_modes um p (_ # t) m = listen_modes um p t m"

lemma open_listen_modes:
  "open_listen P io u = ((True, u'), t) \<Longrightarrow>
   listen_modes um (uds_path u) t m = [(listen_fd u', Some (if r_chmod io then uds_mode u else um))]"
  by (auto simp: open_listen_def open_socket_def Let_def split: if_splits)

text \<open>
  C31. Opening the listening socket succeeds exactly when the path fits into a socket address and
  \<open>socket\<close>, \<open>bind\<close> and \<open>listen\<close> do. It then leaves exactly one more descriptor open than before, the only
  one \<open>listen\<close> was called on, and at that call the file at the configured path had the configured mode
  if \<open>chmod\<close> succeeded; if \<open>chmod\<close> failed, the server listens all the same and the file keeps the mode
  \<open>bind\<close> gave it. When opening fails, every descriptor it opened is closed again.
\<close>

theorem open_listen_outcome:
  assumes "open_listen P io u = ((ok, u'), t)" and "r_socket io \<notin> S"
  shows "(ok \<longleftrightarrow> 0 \<le> r_socket io \<and> length (uds_path u) < sun_path_size P \<and> r_bind io \<and> r_listen io) \<and>
    (if ok then
       0 \<le> listen_fd u' \<and> fds_after t S = insert (listen_fd u') S \<and>
       listen_modes um (uds_path u) t m = [(listen_fd u', Some (if r_chmod io then uds_mode u else um))]
     else listen_fd u' < 0 \<and> fds_after t S = S)"
  using open_listen_result [OF assms(1)] open_listen_result(3) [OF assms] open_listen_modes [of P io u u' t] assms(1)
  by (cases ok) simp_all

definition demo_open :: open_io where
  "demo_open = \<lparr>r_socket = 3, r_getfd = 0, r_bind = True, r_chmod = True, r_listen = True, r_getfl = 2\<rparr>"

theorem open_listen_outcome_witness:
  "\<exists>u t. open_listen \<lparr>sun_path_size = 104, has_nosigpipe = True\<rparr> demo_open (new_server ''/tmp/uma.sock'' 384) = ((True, u), t) \<and>
    fds_after t {0, 1, 2} = {3, 0, 1, 2} \<and> listen_modes 493 ''/tmp/uma.sock'' t None = [(3, Some 384)]"
proof -
  obtain ok u t where o: "open_listen \<lparr>sun_path_size = 104, has_nosigpipe = True\<rparr> demo_open (new_server ''/tmp/uma.sock'' 384) = ((ok, u), t)"
    by (metis surj_pair)
  have "r_socket demo_open \<notin> {0, 1, 2}" by (simp add: demo_open_def)
  from open_listen_outcome [OF o this, of 493 None] open_listen_result(2) [OF o] o show ?thesis
    by (cases ok) (simp_all add: demo_open_def new_server_def)
qed

text \<open>Every client the loop accepts is handled and closed before the next \<open>accept\<close>.\<close>

lemma serve_loop_closes:
  "serve_loop lfd rs = Some t \<Longrightarrow> (\<And>c. (False, Accepted c) \<in> set rs \<Longrightarrow> c \<notin> S) \<Longrightarrow> fds_after t S = S"
proof (induction lfd rs arbitrary: t rule: serve_loop.induct)
  case (2 lfd sd r rs)
  then show ?case by (cases r) (auto split: if_splits)
qed simp

text \<open>Whatever happens, \<open>serve\<close> leaves no descriptor open that was not open before.\<close>

lemma serve_no_leak:
  assumes "serve P io rs u = Some ((ok, u'), t)" and "r_socket io \<notin> S"
    and "\<And>c. (False, Accepted c) \<in> set rs \<Longrightarrow> c \<notin> insert (r_socket io) S"
  shows "fds_after t S = S \<and> listen_fd u' < 0"
proof -
  obtain ok1 u1 t0 where o: "open_socket P io u = ((ok1, u1), t0)" by (metis surj_pair)
  note c = open_socket_cases [OF o]
  show ?thesis
  proof (cases ok1)
    case False
    then show ?thesis using assms(1) c(2) c(4) [OF assms(2)] by (auto simp: serve_def o)
  next
    case True
    then obtain t1 where t1: "serve_loop (r_socket io) rs = Some t1"
      using assms(1) c(2) by (auto simp: serve_def o split: option.splits)
    have pos: "0 \<le> r_socket io" using True c(1) by simp
    have "t = t0 @ t1 @ [Close (r_socket io), Unlink (uds_path u)]" "listen_fd u' = - 1"
      using assms(1) True t1 c(2,3) pos by (auto simp: serve_def o close_socket_def)
    then show ?thesis
      using serve_loop_closes [OF t1 assms(3)] True c(4) [OF assms(2)] assms(2) by (simp add: fds_after_append)
  qed
qed

end
