(* ===== verification/Daemon_Main.thy ===== *)
theory Daemon_Main
  imports Daemon_Properties Logging Model Uds_Server
begin

text \<open>
  The daemon's \<open>main\<close>, \<open>src/src/umad/main.cpp\<close>: start-up with its exit codes and messages, and the
  main loop, which waits on the poller and runs one iteration per wake-up until a signal sets the
  shutdown flag. The theory proves when start-up succeeds, and that a daemon that has started
  stays sound for as long as it runs.
\<close>

section \<open>Start-up\<close>

definition usage_text :: string where
  "usage_text =
     ''umad - UMA Serve runtime daemon (M1 foundations)'' @ [CHR 0x0A] @
     ''Usage: umad --model /path/model.gguf [--n-ctx 4096] [--threads N] [--mlock] '' @
     ''[--{no-}mmap] [--socket /tmp/uma.sock] [--max-sessions N] [--max-tokens N]'' @ [CHR 0x0A, CHR 0x0A] @
     ''Env: UMA_MODEL, UMA_N_CTX, UMA_THREADS, UMA_USE_MMAP, UMA_USE_MLOCK, UMA_SOCK'' @ [CHR 0x0A]"

text \<open>
  What the process is given: llama.cpp's loader and model functions, the file system
  (\<open>None\<close> when \<open>exists\<close> throws), the socket and kernel calls, the standard library's sort, random
  generator and hash order.
\<close>

record ('p, 'q, 'm, 'k, 'c, 'r) host =
  h_loader :: "('p, 'q, 'm, 'c) llama_loader"
  h_get_vocab :: "'m \<Rightarrow> llama_vocab"
  h_llama :: "'c llama"
  h_exists :: "string \<Rightarrow> bool option"
  h_uds :: uds_platform
  h_open :: open_io
  h_kqueue :: int
  h_kernel :: "'k kernel"
  h_k0 :: 'k
  h_platform :: platform
  h_psort :: psort
  h_uniform :: "'r \<Rightarrow> fl \<times> 'r"
  h_seed :: 'r
  h_ld :: fmt
  h_rehash :: "SessionPool \<Rightarrow> SessionPool"

text \<open>
  The exit code with what \<open>main\<close> itself prints to standard output and standard error; log lines and
  the messages of the socket's error paths are left out.
\<close>

datatype exit = Exit int string string

definition boot :: "('p, 'q, 'm, 'k, 'c, 'r) host \<Rightarrow> environ \<Rightarrow> RuntimeConfig \<Rightarrow> llama_vocab \<Rightarrow> 'c \<Rightarrow> int \<Rightarrow>
    ('k, 'c, 'r) denv \<times> ('k, 'c, 'r) daemon" where
  "boot H E cfg vocab gctx server =
     (let env = \<lparr>env_platform = h_platform H, env_psort = h_psort H, env_uniform = h_uniform H,
                 env_llama = h_llama H, env_vocab = vocab\<rparr>
      in (\<lparr>de_env = env, de_kernel = h_kernel H, de_server = server, de_cfg = cfg,
           de_debug = should (configure_from_env E new_logger) LogDebug, de_ld = h_ld H, de_rehash = h_rehash H\<rparr>,
          \<lparr>d_sm = new_manager, d_kq = snd (poller_add (h_kernel H) (h_k0 H) server PollFlags_Read), d_ctx = gctx,
           d_sched = new_scheduler env gctx cfg (Some new_metrics) (h_seed H)\<rparr>))"

text \<open>The checks made before anything is acquired.\<close>

definition check_args :: "('p, 'q, 'm, 'k, 'c, 'r) host \<Rightarrow> environ \<Rightarrow> string list \<Rightarrow> exit + RuntimeConfig" where
  "check_args H E argv =
     (case from_args E argv of
        Inl e \<Rightarrow>
          if e = ''help'' then Inl (Exit 0 usage_text '''')
          else Inl (Exit 2 usage_text (''Argument error: '' @ e @ [CHR 0x0A]))
      | Inr cfg \<Rightarrow>
          if model_path cfg = []
          then Inl (Exit 2 usage_text (''Error: --model or UMA_MODEL is required.'' @ [CHR 0x0A]))
          else
            (case h_exists H (model_path cfg) of
               None \<Rightarrow> Inl (Exit 1 '''' '''')
             | Some False \<Rightarrow> Inl (Exit 2 '''' (''Error: model file not found: '' @ model_path cfg @ [CHR 0x0A]))
             | Some True \<Rightarrow> Inr cfg))"

definition start_up :: "('p, 'q, 'm, 'k, 'c, 'r) host \<Rightarrow> environ \<Rightarrow> string list \<Rightarrow>
    exit + ('k, 'c, 'r) denv \<times> ('k, 'c, 'r) daemon" where
  "start_up H E argv =
     (case check_args H E argv of
        Inl e \<Rightarrow> Inl e
      | Inr cfg \<Rightarrow>
          (case new_model (h_loader H) cfg of
             Inl _ \<Rightarrow> Inl (Exit 1 '''' '''')
           | Inr model \<Rightarrow>
               (case new_context (h_loader H) model of
                  Inl _ \<Rightarrow> Inl (Exit 1 '''' '''')
                | Inr gctx \<Rightarrow>
                    (case open_listen (h_uds H) (h_open H) (new_server (socket_path cfg) (ucast (socket_mode cfg))) of
                       ((ok, server), _) \<Rightarrow>
                         if \<not> ok then Inl (Exit 2 '''' '''')
                         else
                           (case new_poller (h_kqueue H) of
                              Inl _ \<Rightarrow> Inl (Exit 1 '''' '''')
                            | Inr _ \<Rightarrow> Inr (boot H E cfg (h_get_vocab H (mh_model model)) gctx (listen_fd server)))))))"

section \<open>The main loop\<close>

text \<open>
  One turn of the loop: the shutdown flag as read, what \<open>kevent\<close> returns for the time-out asked
  (a count, the events, \<open>errno\<close>), the order the poller's map is walked in, the results of the calls
  made for each event, the clock at the clean-up and at the tick, the duration of the decode.
\<close>

record 'k wakeup =
  w_shutdown :: bool
  w_wait :: "(int \<times> int) option \<Rightarrow> int \<times> kev list"
  w_errno :: errno
  w_order :: "(int \<times> PollFlags) list \<Rightarrow> (int \<times> PollFlags) list"
  w_io :: "PollEvent \<Rightarrow> 'k io"
  w_idle :: u64
  w_tick :: u64
  w_dur :: nat

text \<open>The events of a turn; the result of the loop is the exit code, \<open>None\<close> while it is running.\<close>

definition wake :: "('k, 'c, 'r) daemon \<Rightarrow> 'k wakeup \<Rightarrow> int \<times> (PollEvent \<times> 'k io) list" where
  "wake d w =
     (case w_wait w (wait_timespec (wait_time_ms (sm_sessions (d_sm d)))) of
        (nev, kevs) \<Rightarrow>
          (case poller_wait (w_order w) nev kevs of
             (n, evs) \<Rightarrow> (n, map (\<lambda>ev. (ev, w_io w ev)) evs)))"

fun main_loop :: "('k, 'c, 'r) denv \<Rightarrow> 'k wakeup list \<Rightarrow> ('k, 'c, 'r) daemon \<Rightarrow>
    tick_error + int option \<times> ('k, 'c, 'r) daemon" where
  "main_loop D [] d = Inr (None, d)"
| "main_loop D (w # ws) d =
     (if w_shutdown w then Inr (Some 0, d)
      else
        case wake d w of
          (nev, evs) \<Rightarrow>
            if nev < 0 then (if w_errno w = EINTR then main_loop D ws d else Inr (Some 0, d))
            else bindE (iterate D evs (w_idle w) (w_tick w) (w_dur w) d) (main_loop D ws))"

text \<open>A loop that is still running goes on with the next turns; one that has ended stays so.\<close>

lemma main_loop_append:
  "main_loop D ws d = Inr (None, d0) \<Longrightarrow> main_loop D (ws @ vs) d = main_loop D vs d0"
proof (induction ws arbitrary: d)
  case (Cons w ws)
  obtain nev evs where w: "wake d w = (nev, evs)" by fastforce
  show ?case
    using Cons by (cases "iterate D evs (w_idle w) (w_tick w) (w_dur w) d") (auto simp: w split: if_splits)
qed simp

lemma main_loop_ended: "main_loop D ws d = Inr (Some code, d0) \<Longrightarrow> main_loop D (ws @ vs) d = Inr (Some code, d0)"
proof (induction ws arbitrary: d)
  case (Cons w ws)
  obtain nev evs where w: "wake d w = (nev, evs)" by fastforce
  show ?case using Cons by (auto simp: w bindE_Inr_iff split: if_splits)
qed simp

section \<open>Waiting\<close>

definition policy_plan :: "('k, 'c, 'r) daemon \<Rightarrow> Plan" where
  "policy_plan d =
     (let sch = d_sched d
      in schedule_tick (sm_sessions (d_sm d)) (batch_cap sch) (target_batch sch) (rr_decode_idx sch) (rr_prefill_idx sch))"

text \<open>
  C36. A turn of the loop waits for events without blocking exactly when there is work: the time-out
  given to \<open>kevent\<close> is zero if the plan the policy makes of the current table, with the scheduler's
  capacity, target and cursors, is not empty, and 200 million milliseconds, that is 200000 seconds, if
  it is empty; the events of the turn are those of that wait, coalesced.
\<close>

theorem wait_matches_plan:
  assumes "d_ok D d" and "0 < batch_cap (d_sched d)"
  shows "wake d w =
    (case w_wait w (if items (policy_plan d) \<noteq> [] then Some (0, 0) else Some (200000, 0)) of
       (nev, kevs) \<Rightarrow> apsnd (map (\<lambda>ev. (ev, w_io w ev))) (poller_wait (w_order w) nev kevs))"
proof -
  let ?S = "sm_sessions (d_sm d)" and ?sch = "d_sched d"
  have ok: "sch_ok ?sch" "pool_ok (de_cfg D) ?S" using assms(1) by (simp_all add: d_ok_def sm_ok_def)
  have "cursor_ok ?S (rr_decode_idx ?sch) (rr_prefill_idx ?sch)" "pool_wf ?S"
    using ok by (simp_all add: cursor_ok_def sch_ok_def pool_ok_def)
  moreover have "0 < min (target_batch ?sch) (batch_cap ?sch)"
    using assms(2) ok(1) by (auto simp: sch_ok_def min_def split: if_splits)
  ultimately have "has_ready_work ?S \<longleftrightarrow> items (policy_plan d) \<noteq> []" by (simp add: policy_plan_def Let_def ready_work_plan)
  then show ?thesis by (simp add: wake_def idle_wait_is_200000_seconds apsnd_def case_prod_beta map_prod_def)
qed

text \<open>A wake-up that reports nothing, whatever it is asked, and tells how long it was asked to wait.\<close>

definition patient :: "set_queue wakeup" where
  "patient =
     \<lparr>w_shutdown = False, w_wait = (\<lambda>t. (case t of Some (sec, _) \<Rightarrow> - sec | None \<Rightarrow> - 1, [])), w_errno = EINTR, w_order = (\<lambda>xs. xs),
      w_io = (\<lambda>_. demo_io), w_idle = 30, w_tick = 31, w_dur = 1000\<rparr>"

theorem wait_matches_plan_witness:
  "wake busy_daemon patient = (0, []) \<and> wake demo_daemon patient = (- 200000, [])"
proof -
  have "items (policy_plan busy_daemon) \<noteq> []" by (simp add: policy_plan_def busy_daemon_def demo_sched_def demo_plan)
  moreover have "items (policy_plan demo_daemon) = []"
    using ready_work_plan [of "[]" 32 32 0 0]
    by (simp add: policy_plan_def demo_daemon_def demo_sched_def new_manager_def has_ready_work_def pool_wf_def cursor_ok_def)
  ultimately show ?thesis
    using wait_matches_plan [OF busy_ok(2), of patient] wait_matches_plan [OF demo_daemon_ok(2), of patient]
    by (simp add: busy_daemon_def demo_daemon_def demo_sched_def patient_def poller_wait_def)
qed

section \<open>Starting\<close>

text \<open>What start-up relies on of its surroundings, for the configuration it ends up with.\<close>

definition host_ok :: "('p, 'q, 'm, 'k, 'c, 'r) host \<Rightarrow> bool" where
  "host_ok H \<longleftrightarrow>
     (\<forall>m. sorts_logits (h_psort H) (h_llama H) (vocab_n_tokens (h_get_vocab H m)) \<and> 0 < vocab_n_tokens (h_get_vocab H m)) \<and>
     (\<forall>p. mset (h_rehash H p) = mset p) \<and>
     (\<forall>c. uint (llama_n_batch (h_llama H) c) < 2 ^ 30)"

lemma start_up_boot:
  assumes "start_up H E argv = Inr (D, d)"
  shows "\<exists>cfg m gctx. from_args E argv = Inr cfg \<and> model_path cfg \<noteq> [] \<and> h_exists H (model_path cfg) = Some True \<and>
    0 \<le> r_socket (h_open H) \<and> (D, d) = boot H E cfg (h_get_vocab H m) gctx (r_socket (h_open H))"
proof -
  have fd: "0 \<le> r_socket io \<and> listen_fd u' = r_socket io" if "open_listen P io u = ((True, u'), t)" for P io u u' t
    using open_listen_result [OF that] by simp
  show ?thesis
    using assms
    by (auto simp: start_up_def check_args_def split: sum.splits if_splits option.splits bool.splits prod.splits dest!: fd) metis+
qed

text \<open>
  C32. Start-up ends in one of two ways. Either the daemon runs with the parsed configuration, a
  model path that exists, no session, a valid listening descriptor, and debug logging exactly
  when the model's performance timers are on; or it exits with 0, 1 or 2, with 0 exactly when help
  was asked for, and with the usage text on standard output exactly when the command line could
  not be parsed or names no model.
\<close>

theorem start_up_outcome:
  "case start_up H E argv of
     Inr (D, d) \<Rightarrow>
       from_args E argv = Inr (de_cfg D) \<and> model_path (de_cfg D) \<noteq> [] \<and> h_exists H (model_path (de_cfg D)) = Some True \<and>
       sm_sessions (d_sm d) = [] \<and> 0 \<le> de_server D \<and> de_debug D = enable_perf (env_config E)
   | Inl (Exit code out errs) \<Rightarrow>
       code \<in> {0, 1, 2} \<and> (code = 0 \<longleftrightarrow> from_args E argv = Inl ''help'') \<and>
       (out = usage_text \<longleftrightarrow>
          (\<exists>e. from_args E argv = Inl e) \<or> (\<exists>cfg. from_args E argv = Inr cfg \<and> model_path cfg = []))"
proof (cases "start_up H E argv")
  case (Inr r)
  obtain D d where r: "r = (D, d)" by fastforce
  from start_up_boot [OF Inr [unfolded r]] obtain cfg m gctx where
    b: "from_args E argv = Inr cfg" "model_path cfg \<noteq> []" "h_exists H (model_path cfg) = Some True"
      "0 \<le> r_socket (h_open H)" "(D, d) = boot H E cfg (h_get_vocab H m) gctx (r_socket (h_open H))" by blast
  then have "de_cfg D = cfg" "sm_sessions (d_sm d) = []" "de_server D = r_socket (h_open H)"
    "de_debug D = should (configure_from_env E new_logger) LogDebug"
    by (simp_all add: boot_def Let_def new_manager_def)
  then show ?thesis using b(1-4) debug_iff_perf [of E] by (simp add: Inr r)
next
  case (Inl e)
  have u: "usage_text \<noteq> []" by (simp add: usage_text_def)
  show ?thesis using Inl u
    by (auto simp: start_up_def check_args_def split: sum.splits if_splits option.splits bool.splits prod.splits exit.splits)
qed

lemma sint_n_batch: "uint (x :: u32) < 2 ^ 30 \<Longrightarrow> sint x = uint x"
proof -
  assume "uint x < 2 ^ 30"
  then have "uint x < 2 ^ 31" by (rule order.strict_trans) simp
  moreover have "- (2 ^ 31) \<le> uint x" by (rule order_trans [of _ 0]) simp_all
  ultimately have "signed_take_bit 31 (uint x) = uint x" by (intro signed_take_bit_int_eq_self)
  then show ?thesis by (simp add: sint_uint)
qed

lemma boot_ok:
  assumes "host_ok H" and "limits_ok cfg (h_get_vocab H m)" and "(D, d) = boot H E cfg (h_get_vocab H m) gctx server"
  shows "denv_ok D" and "d_ok D d" and "next_seq_id (d_sm d) = 1" and "sm_sessions (d_sm d) = []" and "de_cfg D = cfg"
    and "de_server D = server"
proof -
  have n: "uint (llama_n_batch (h_llama H) gctx) < 2 ^ 30" using assms(1) by (simp add: host_ok_def)
  show "denv_ok D" using assms by (simp add: boot_def Let_def denv_ok_def env_ok_def host_ok_def)
  show "de_cfg D = cfg" "sm_sessions (d_sm d) = []" "next_seq_id (d_sm d) = 1" "de_server D = server"
    using assms(3) by (simp_all add: boot_def Let_def new_manager_def)
  have "sch_ok (d_sched d)" "sch_config (d_sched d) = cfg" using assms(3) n sint_n_batch [OF n]
    by (simp_all add: boot_def Let_def new_scheduler_def sch_ok_def)
  moreover have "sm_ok cfg (d_sm d)"
    using assms(3) by (simp add: boot_def Let_def new_manager_def sm_ok_def pool_ok_def pool_wf_def seq_ok_def pool_find_def)
  ultimately show "d_ok D d" using \<open>de_cfg D = cfg\<close> by (simp add: d_ok_def)
qed

lemma start_up_ok:
  assumes "host_ok H" and "from_args E argv = Inr cfg" and "\<And>m. limits_ok cfg (h_get_vocab H m)" and "start_up H E argv = Inr (D, d)"
  shows "denv_ok D" and "d_ok D d" and "next_seq_id (d_sm d) = 1" and "sm_sessions (d_sm d) = []" and "de_cfg D = cfg"
proof -
  obtain m gctx srv where "(D, d) = boot H E cfg (h_get_vocab H m) gctx srv"
    using start_up_boot [OF assms(4)] assms(2) by auto
  note ok = boot_ok [OF assms(1,3) this]
  then show "denv_ok D" "d_ok D d" "next_seq_id (d_sm d) = 1" "sm_sessions (d_sm d) = []" "de_cfg D = cfg" by simp_all
qed

section \<open>Running\<close>

text \<open>
  What a turn of the loop relies on: the kernel reports at most \<open>n w\<close> events, whatever the
  time-out, and the poller's map yields each of its entries once.
\<close>

definition turns_ok :: "('k wakeup \<Rightarrow> nat) \<Rightarrow> 'k wakeup list \<Rightarrow> bool" where
  "turns_ok n ws \<longleftrightarrow>
     (\<forall>w \<in> set ws. (\<forall>t. fst (w_wait w t) \<le> int (n w)) \<and> (\<forall>xs. mset (w_order w xs) = mset xs))"

lemma length_alist_update: "length (AList.update k v xs) \<le> Suc (length xs)"
  by (induction xs) auto

lemma length_coalesce: "length (foldl coalesce_step acc ks) \<le> length acc + length ks"
proof (induction ks arbitrary: acc)
  case (Cons e ks)
  have "length (coalesce_step acc e) \<le> Suc (length acc)" by (simp add: coalesce_step_def length_alist_update)
  then show ?case using Cons [of "coalesce_step acc e"] by simp
qed simp

lemma wake_length:
  assumes "turns_ok n ws" and "w \<in> set ws" and "wake d w = (nev, evs)"
  shows "length evs \<le> n w"
proof -
  obtain k kevs where k: "w_wait w (wait_timespec (wait_time_ms (sm_sessions (d_sm d)))) = (k, kevs)" by fastforce
  have kn: "k \<le> int (n w)" using assms(1,2) k unfolding turns_ok_def by (metis fst_conv)
  have len: "length (w_order w xs) = length xs" for xs using assms(1,2) unfolding turns_ok_def by (metis size_mset)
  show ?thesis
  proof (cases "k \<le> 0")
    case True
    then show ?thesis using assms(3) by (auto simp: wake_def k poller_wait_def)
  next
    case False
    then have "length evs = length (foldl coalesce_step [] (take (nat k) kevs))"
      using assms(3) by (auto simp: wake_def k poller_wait_def Let_def len)
    also have "\<dots> \<le> nat k" using length_coalesce [of "[]" "take (nat k) kevs"] by simp
    finally show ?thesis using kn by linarith
  qed
qed

text \<open>What every proof about a run needs of its first turn.\<close>

lemma turn_room:
  assumes "denv_ok D" and "d_ok D d" and "turns_ok n (w # ws)" and "next_seq_id (d_sm d) + int (sum_list (map n (w # ws))) \<le> INT_MAX"
    and "wake d w = (nev, evs)"
  obtains d1 where "iterate D evs (w_idle w) (w_tick w) (w_dur w) d = Inr d1" and "d_ok D d1" and "turns_ok n ws"
    and "next_seq_id (d_sm d) + int (length evs) \<le> INT_MAX" and "next_seq_id (d_sm d) + int (sum_list (map n ws)) \<le> INT_MAX"
    and "next_seq_id (d_sm d1) + int (sum_list (map n ws)) \<le> INT_MAX"
proof -
  have "length evs \<le> n w" using wake_length [OF assms(3) _ assms(5)] by simp
  then have room: "next_seq_id (d_sm d) + int (length evs) \<le> INT_MAX"
    "next_seq_id (d_sm d) + int (length evs) + int (sum_list (map n ws)) \<le> INT_MAX"
    using assms(4) by simp_all
  obtain d1 where d1: "iterate D evs (w_idle w) (w_tick w) (w_dur w) d = Inr d1" "d_ok D d1"
    "next_seq_id (d_sm d1) \<le> next_seq_id (d_sm d) + int (length evs)"
    using iterate_room [OF assms(1,2) room(1)] by blast
  have "turns_ok n ws" using assms(3) by (simp add: turns_ok_def)
  moreover have "next_seq_id (d_sm d1) + int (sum_list (map n ws)) \<le> INT_MAX"
    "next_seq_id (d_sm d) + int (sum_list (map n ws)) \<le> INT_MAX" using d1(3) room(2) by simp_all
  ultimately show ?thesis using that d1(1,2) room(1) by blast
qed

lemma main_loop_ok:
  assumes "denv_ok D" and "d_ok D d" and "turns_ok n ws"
    and "next_seq_id (d_sm d) + int (sum_list (map n ws)) \<le> INT_MAX"
  shows "\<exists>r d'. main_loop D ws d = Inr (r, d') \<and> d_ok D d' \<and> (r = None \<or> r = Some 0)"
  using assms(2-)
proof (induction ws arbitrary: d)
  case (Cons w ws)
  obtain nev evs where w: "wake d w = (nev, evs)" by fastforce
  from turn_room [OF assms(1) Cons.prems w] obtain d1 where
    d1: "iterate D evs (w_idle w) (w_tick w) (w_dur w) d = Inr d1" "d_ok D d1" "turns_ok n ws"
      "next_seq_id (d_sm d) + int (sum_list (map n ws)) \<le> INT_MAX" "next_seq_id (d_sm d1) + int (sum_list (map n ws)) \<le> INT_MAX"
    by blast
  from Cons.IH [OF d1(2,3,5)] Cons.IH [OF Cons.prems(1) d1(3,4)] show ?case
    using Cons.prems(1) by (auto simp: w d1(1))
qed simp

text \<open>
  C2. A daemon that starts keeps running soundly: whatever the wake-ups bring, clients connecting,
  sending, leaving, system calls failing, signals, and for as long as the sequence counter has
  not used up its 31 bits, no turn of the main loop violates an assertion or leaves an array, at most
  \<open>max_sessions\<close> sessions are live, live sessions never share a sequence id, and the loop ends only
  with exit code 0.
\<close>

theorem daemon_runs_safely:
  assumes "host_ok H" and "from_args E argv = Inr cfg" and "\<And>m. limits_ok cfg (h_get_vocab H m)"
    and "start_up H E argv = Inr (D, d)" and "turns_ok n ws" and "1 + int (sum_list (map n ws)) \<le> INT_MAX"
  shows "\<exists>r d'. main_loop D ws d = Inr (r, d') \<and> (r = None \<or> r = Some 0) \<and>
    length (sm_sessions (d_sm d')) \<le> unat (max_sessions cfg) \<and>
    (\<forall>f g s t. find_session (d_sm d') f = Some s \<longrightarrow> find_session (d_sm d') g = Some t \<longrightarrow> f \<noteq> g \<longrightarrow> 0 \<le> seq s \<longrightarrow> seq s \<noteq> seq t)"
proof -
  note ok = start_up_ok [OF assms(1,2,3,4)]
  have "next_seq_id (d_sm d) + int (sum_list (map n ws)) \<le> INT_MAX" using assms(6) ok(3) by simp
  from main_loop_ok [OF ok(1,2) assms(5) this] obtain r d' where
    r: "main_loop D ws d = Inr (r, d')" "d_ok D d'" "r = None \<or> r = Some 0" by blast
  then have "sm_ok cfg (d_sm d')" using ok(5) by (simp add: d_ok_def)
  then show ?thesis using r(1,3) unfolding sm_ok_def seq_ok_def find_session_def by blast
qed

section \<open>A concrete run\<close>

definition demo_host :: "(unit, unit, unit, set_queue, unit, nat) host" where
  "demo_host =
     \<lparr>h_loader =
        \<lparr>llama_model_default_params = \<lparr>mp_use_mlock = False, mp_use_mmap = True\<rparr>,
         llama_context_default_params =
           \<lparr>cp_n_ctx = 512, cp_n_batch = 2048, cp_n_ubatch = 512, cp_n_seq_max = 1, cp_n_threads = 4, cp_n_threads_batch = 4,
            cp_flash_attn_type = 0, cp_offload_kqv = True, cp_kv_unified = False, cp_swa_full = True, cp_no_perf = True,
            cp_op_offload = True\<rparr>,
         LLAMA_FLASH_ATTN_TYPE_AUTO = - 1, llama_model_load_from_file = (\<lambda>_ _. Some ()), llama_init_from_model = (\<lambda>_ _. Some ())\<rparr>,
      h_get_vocab = (\<lambda>_. byte_vocab), h_llama = demo_llama 0, h_exists = (\<lambda>_. Some True),
      h_uds = \<lparr>sun_path_size = 104, has_nosigpipe = True\<rparr>,
      h_open = \<lparr>r_socket = 3, r_getfd = 0, r_bind = True, r_chmod = True, r_listen = True, r_getfl = 0\<rparr>,
      h_kqueue = 4, h_kernel = set_kernel, h_k0 = \<lparr>q_reg = {}, q_open = {3, 4}\<rparr>, h_platform = demo_platform,
      h_psort = full_sort, h_uniform = demo_uniform, h_seed = 0, h_ld = f64, h_rehash = (\<lambda>p. p)\<rparr>"

definition demo_argv :: "string list" where
  "demo_argv = [''umad'', ''--model'', ''m.gguf'']"

definition demo_turns :: "set_queue wakeup list" where
  "demo_turns =
     [\<lparr>w_shutdown = False,
       w_wait = (\<lambda>_. (1, [\<lparr>ke_ident = 3, ke_filter = EVFILT_READ, ke_error = False, ke_eof = False\<rparr>])),
       w_errno = EAGAIN, w_order = (\<lambda>xs. xs), w_io = (\<lambda>_. demo_io), w_idle = 20, w_tick = 21, w_dur = 1000\<rparr>,
      \<lparr>w_shutdown = False, w_wait = (\<lambda>_. (- 1, [])), w_errno = EINTR, w_order = (\<lambda>xs. xs), w_io = (\<lambda>_. demo_io),
       w_idle = 30, w_tick = 31, w_dur = 1000\<rparr>,
      \<lparr>w_shutdown = True, w_wait = (\<lambda>_. (0, [])), w_errno = EAGAIN, w_order = (\<lambda>xs. xs), w_io = (\<lambda>_. demo_io),
       w_idle = 40, w_tick = 41, w_dur = 1000\<rparr>]"

lemma demo_args: "from_args (\<lambda>_. None) demo_argv = Inr (default_config\<lparr>model_path := ''m.gguf''\<rparr>)"
  by (simp add: from_args_def demo_argv_def env_config_def when_set_def get_env_def Let_def default_config_def)

lemma demo_start: "\<exists>D d. start_up demo_host (\<lambda>_. None) demo_argv = Inr (D, d)"
  by (simp add: start_up_def check_args_def demo_args demo_host_def new_model_def new_context_def open_listen_def open_socket_def
      new_server_def new_poller_def default_config_def boot_def Let_def)

lemma demo_host_ok: "host_ok demo_host"
  by (simp add: host_ok_def demo_host_def demo_llama_def sorts_logits_def byte_vocab_def)

lemma demo_host_limits: "limits_ok (default_config\<lparr>model_path := p\<rparr>) (h_get_vocab demo_host m)"
  using demo_limits by (simp add: limits_ok_def demo_host_def default_config_def)

lemma demo_turns_ok: "turns_ok (\<lambda>_. 1) demo_turns" "1 + int (sum_list (map (\<lambda>_. 1) demo_turns)) \<le> INT_MAX"
  by (simp_all add: turns_ok_def demo_turns_def INT_MAX_def)

theorem daemon_runs_safely_witness:
  "\<exists>D d r d'. start_up demo_host (\<lambda>_. None) demo_argv = Inr (D, d) \<and> main_loop D demo_turns d = Inr (r, d') \<and>
    length (sm_sessions (d_sm d')) \<le> 16"
proof -
  let ?cfg = "default_config\<lparr>model_path := ''m.gguf''\<rparr>"
  obtain D d where s: "start_up demo_host (\<lambda>_. None) demo_argv = Inr (D, d)" using demo_start by blast
  have "\<exists>r d'. main_loop D demo_turns d = Inr (r, d') \<and> length (sm_sessions (d_sm d')) \<le> unat (max_sessions ?cfg)"
    using daemon_runs_safely [OF demo_host_ok demo_args demo_host_limits s demo_turns_ok] by blast
  moreover have "unat (max_sessions ?cfg) = 16" by (simp add: default_config_def)
  ultimately show ?thesis using s by auto
qed

end
