(* ===== verification/Daemon_Stream.thy ===== *)
theory Daemon_Stream
  imports Daemon_Main
begin

text \<open>
  What a client receives. A history records, for every live session, the bytes the daemon has
  written to its descriptor since it was accepted. However the writes are cut short by the kernel, the
  history followed by what is still queued is always a sequence of whole frames, so the client
  decodes a prefix of the events that were queued for it, in order, with nothing lost, repeated
  or torn.
\<close>

section \<open>What the writes take\<close>

definition written_now :: "write_result \<Rightarrow> byte list \<Rightarrow> byte list" where
  "written_now w b = (if b = [] then [] else case w of Wrote n \<Rightarrow> take n b | _ \<Rightarrow> [])"

fun written :: "write_result list \<Rightarrow> byte list \<Rightarrow> byte list" where
  "written [] b = []"
| "written (w # ws) b =
     (if b = [] then [] else case w of Wrote n \<Rightarrow> take n b @ written ws (drop n b) | _ \<Rightarrow> [])"

lemma written_now_split: "written_now w (tx s) @ tx (write_now w s) = tx s"
  by (simp add: written_now_def write_now_def split: write_result.split)

lemma written_split: "written ws (tx s) @ tx (fst (drain_tx now_ns ws s)) = tx s"
proof (induction now_ns ws s rule: drain_tx.induct)
  case (2 now_ns w ws s)
  then show ?case by (cases w) auto
qed simp

section \<open>The history\<close>

type_synonym history = "int \<Rightarrow> byte list"

text \<open>The bytes written to the descriptor of an event while it is handled.\<close>

definition sent_event :: "('k, 'c, 'r) denv \<Rightarrow> PollEvent \<times> 'k io \<Rightarrow> ('k, 'c, 'r) daemon \<Rightarrow> byte list" where
  "sent_event D = (\<lambda>(ev, io) d.
     if ev_fd ev = de_server D \<and> readable ev then []
     else if readable ev then
       (case read_answer D (ev_fd ev) io d of (d3, wants) \<Rightarrow>
          case find_session (d_sm d3) (ev_fd ev) of
            Some s \<Rightarrow> if wants then written_now (io_write io) (tx s) else []
          | None \<Rightarrow> [])
     else if writable ev then
       (case find_session (d_sm d) (ev_fd ev) of Some s \<Rightarrow> written (io_writes io) (tx s) | None \<Rightarrow> [])
     else [])"

text \<open>A newly accepted session starts with an empty history.\<close>

definition accepts :: "('k, 'c, 'r) denv \<Rightarrow> PollEvent \<times> 'k io \<Rightarrow> ('k, 'c, 'r) daemon \<Rightarrow> int \<Rightarrow> bool" where
  "accepts D = (\<lambda>(ev, io) d f.
     ev_fd ev = de_server D \<and> readable ev \<and> fst (io_accept io) = f \<and> 0 \<le> f \<and>
     length (sm_sessions (d_sm d)) < unat (max_sessions (de_cfg D)))"

definition note_event :: "('k, 'c, 'r) denv \<Rightarrow> PollEvent \<times> 'k io \<Rightarrow> ('k, 'c, 'r) daemon \<times> history \<Rightarrow>
    ('k, 'c, 'r) daemon \<times> history" where
  "note_event D x = (\<lambda>(d, h).
     (handle_event D x d,
      \<lambda>f. if accepts D x d f then []
          else if f = ev_fd (fst x) then h f @ sent_event D x d
          else h f))"

fun history_of :: "('k, 'c, 'r) denv \<Rightarrow> 'k wakeup list \<Rightarrow> ('k, 'c, 'r) daemon \<times> history \<Rightarrow> history" where
  "history_of D [] (d, h) = h"
| "history_of D (w # ws) (d, h) =
     (if w_shutdown w then h
      else
        case wake d w of
          (nev, evs) \<Rightarrow>
            if nev < 0 then (if w_errno w = EINTR then history_of D ws (d, h) else h)
            else
              (case iterate D evs (w_idle w) (w_tick w) (w_dur w) d of
                 Inl _ \<Rightarrow> h
               | Inr d' \<Rightarrow> history_of D ws (d', snd (fold (note_event D) evs (d, h)))))"

definition whole_frames :: "('k, 'c, 'r) daemon \<times> history \<Rightarrow> bool" where
  "whole_frames = (\<lambda>(d, h). \<forall>f s. find_session (d_sm d) f = Some s \<longrightarrow> (\<exists>ps. h f @ tx s = frames ps))"

lemma frames_extend: "\<exists>ps. b @ c = frames ps \<Longrightarrow> framed c c' \<Longrightarrow> \<exists>ps. b @ c' = frames ps"
  unfolding framed_def by (metis append.assoc frames_append)

section \<open>Every step keeps it\<close>

lemma on_session_framed:
  assumes "on_session P cfg vocab now_ns chunks fin next_id s = ((s', rr), n)"
  shows "framed (tx s) (tx s')"
proof (cases "fin = Read_Error")
  case True
  then show ?thesis using assms by (auto simp: on_session_def Let_def drain_reads_keeps)
next
  case False
  define s2 where "s2 = (if fin = Read_Eof then (drain_reads chunks now_ns s)\<lparr>read_closed := True, last_activity_ns := now_ns\<rparr>
               else drain_reads chunks now_ns s)"
  define rr2 where "rr2 = (if fin = Read_Eof then no_result\<lparr>removed_read := True\<rparr> else no_result)"
  have s2: "tx s2 = tx s" by (simp add: s2_def drain_reads_keeps)
  note eq = assms [unfolded on_session_frame [OF False s2_def rr2_def]]
  show ?thesis
  proof (cases "try_read_frame (rx s2) kDefaultMaxFrameBytes")
    case (Frame js rest)
    then have "handle_request P cfg vocab now_ns js next_id (s2\<lparr>rx := rest\<rparr>, rr2) = ((s', rr), n)" using eq by simp
    then show ?thesis
      by (cases rule: handle_request_cases)
        (auto simp: s2 reject_def start_request_def set_sampling_keeps)
  qed (use eq s2 in \<open>auto simp: reject_def\<close>)
qed

lemma read_answer_framed:
  assumes "read_answer D f io d = (d3, wants)" and "find_session (d_sm d3) f = Some s3"
  shows "\<exists>s. find_session (d_sm d) f = Some s \<and> framed (tx s) (tx s3)"
proof -
  obtain sm rr where r: "on_readable (env_platform (de_env D)) f (de_cfg D) (Some (env_vocab (de_env D))) (io_now io)
             (fst (io_reads io)) (snd (io_reads io)) (d_sm d) = (sm, rr)" by fastforce
  show ?thesis using r
  proof (cases rule: on_readable_cases)
    case absent
    then show ?thesis using assms r by (auto simp: read_answer_def)
  next
    case (present s s' n)
    then have "framed (tx s') (tx s3)"
      using assms by (auto simp: read_answer_def r Let_def answer_admin_def find_upd framed_write split: if_splits)
    then show ?thesis using present(1) framed_trans [OF on_session_framed [OF present(2)]] by blast
  qed
qed

lemma finish_read_tx:
  "find_session (d_sm (finish_read D f d)) f = Some s' \<Longrightarrow> \<exists>s. find_session (d_sm d) f = Some s \<and> tx s' = tx s"
  by (auto simp: finish_read_def close_find find_upd reset_session_def split: option.splits if_splits)

lemma client_read_history:
  assumes "find_session (d_sm (on_client_read D f io d)) f = Some s'" and "ev_fd ev = f" and "readable ev" and "f \<noteq> de_server D"
  shows "\<exists>s. find_session (d_sm d) f = Some s \<and> framed (tx s) (sent_event D (ev, io) d @ tx s')"
proof -
  obtain d3 wants where a: "read_answer D f io d = (d3, wants)" by fastforce
  show ?thesis
  proof (cases wants)
    case False
    then have d3: "find_session (d_sm d3) f = Some s'" using assms(1) by (simp add: on_client_read_def a)
    then show ?thesis using read_answer_framed [OF a d3] assms(2-4) False by (simp add: sent_event_def a)
  next
    case True
    then obtain s4 where s4: "find_session (d_sm (upd_session f (write_now (io_write io)) d3)) f = Some s4" "tx s' = tx s4"
      using assms(1) finish_read_tx by (fastforce simp: on_client_read_def a)
    then obtain s3 where s3: "find_session (d_sm d3) f = Some s3" "s4 = write_now (io_write io) s3"
      by (auto simp: find_upd)
    have "sent_event D (ev, io) d @ tx s' = tx s3"
      using True assms(2-4) s3 s4(2) by (simp add: sent_event_def a written_now_split)
    then show ?thesis using read_answer_framed [OF a s3(1)] by simp
  qed
qed

lemma client_write_history:
  assumes "find_session (d_sm (on_client_write D f io d)) f = Some s'" and "ev_fd ev = f" and "\<not> readable ev" and "writable ev"
  shows "\<exists>s. find_session (d_sm d) f = Some s \<and> sent_event D (ev, io) d @ tx s' = tx s"
proof (cases "find_session (d_sm d) f")
  case None
  then show ?thesis using assms(1) by (simp add: on_client_write_def)
next
  case (Some s)
  obtain t broken where dr: "drain_tx (io_now io) (io_writes io) s = (t, broken)" by fastforce
  have "tx s' = tx t"
    using assms(1) by (auto simp: on_client_write_def Some dr Let_def close_find find_upd reset_session_def split: if_splits)
  moreover have "written (io_writes io) (tx s) @ tx t = tx s" using written_split [of "io_writes io" s "io_now io"] dr by simp
  ultimately show ?thesis using Some assms(2-4) by (simp add: sent_event_def)
qed

lemma others_kept:
  assumes "g \<noteq> f"
  shows "find_session (d_sm (on_client_read D f io d)) g = find_session (d_sm d) g"
    "find_session (d_sm (on_client_write D f io d)) g = find_session (d_sm d) g"
proof -
  have upd: "find_session (d_sm (upd_session f h d)) g = find_session (d_sm d) g" for h d
    using assms by (simp add: find_upd)
  have fin: "find_session (d_sm (finish_read D f d)) g = find_session (d_sm d) g" for d
    using assms by (auto simp: finish_read_def close_find upd split: option.split)
  have "find_session (d_sm (fst (read_answer D f io d))) g = find_session (d_sm d) g"
    using assms by (auto simp: read_answer_def Let_def answer_admin_def upd on_readable_def find_session_def
        pool_simps upd_session_def split: option.split prod.split)
  then show "find_session (d_sm (on_client_read D f io d)) g = find_session (d_sm d) g"
    by (auto simp: on_client_read_def fin upd split: prod.split)
  show "find_session (d_sm (on_client_write D f io d)) g = find_session (d_sm d) g"
    using assms by (auto simp: on_client_write_def Let_def close_find upd split: option.split prod.split)
qed

lemma accept_find:
  assumes "denv_ok D" and "d_ok D d" and "ev_fd ev = de_server D" and "readable ev"
  shows "find_session (d_sm (on_accept D io d)) f =
    (if accepts D (ev, io) d f then Some (new_session\<lparr>fd := f, ctx := None, last_activity_ns := io_now io\<rparr>)
     else find_session (d_sm d) f)"
proof -
  obtain cfd k where a: "io_accept io = (cfd, k)" by fastforce
  let ?s = "new_session\<lparr>fd := cfd, ctx := None, last_activity_ns := io_now io\<rparr>"
  have wf: "pool_wf (sm_sessions (d_sm d))" using assms(2) by (simp add: d_ok_def sm_ok_def pool_ok_def)
  have perm: "mset (de_rehash D p) = mset p" for p using assms(1) by (simp add: denv_ok_def)
  have "find_session (add_client (de_rehash D) (d_sm d) cfd (io_now io)) g = (if g = cfd then Some ?s else find_session (d_sm d) g)" for g
    using pool_find_insert [OF wf _ perm, of ?s cfd g] by (simp add: find_session_def add_client_def)
  then show ?thesis using assms(3,4) by (auto simp: on_accept_def a accepts_def Let_def not_le)
qed

text \<open>An event that is not an accept: this descriptor's history grows by what was sent, the others are kept.\<close>

lemma own_event_history:
  assumes "find_session (d_sm (handle_event D (ev, io) d)) (ev_fd ev) = Some s'" and "\<not> (ev_fd ev = de_server D \<and> readable ev)"
  shows "\<exists>s. find_session (d_sm d) (ev_fd ev) = Some s \<and> framed (tx s) (sent_event D (ev, io) d @ tx s')"
proof -
  consider "readable ev" "ev_fd ev \<noteq> de_server D" | "\<not> readable ev" "writable ev" | "\<not> readable ev" "\<not> writable ev"
    using assms(2) by blast
  then show ?thesis
  proof cases
    case 1
    then show ?thesis using assms(1) client_read_history [OF _ refl 1, where io = io and d = d] by (simp add: handle_event_def)
  next
    case 2
    then show ?thesis
      using assms(1) client_write_history [OF _ refl 2, where D = D and io = io and d = d] by (auto simp: handle_event_def framed_refl)
  next
    case 3
    then show ?thesis using assms(1) by (simp add: handle_event_def sent_event_def framed_refl)
  qed
qed

lemma whole_frames_event:
  assumes D: "denv_ok D" and d: "d_ok D d" and h: "whole_frames (d, h)"
  shows "whole_frames (note_event D (ev, io) (d, h))"
proof -
  let ?h = "\<lambda>f. if accepts D (ev, io) d f then [] else if f = ev_fd ev then h f @ sent_event D (ev, io) d else h f"
  have "\<exists>ps. ?h f @ tx s' = frames ps" if f: "find_session (d_sm (handle_event D (ev, io) d)) f = Some s'" for f s'
  proof (cases "ev_fd ev = de_server D \<and> readable ev")
    case True
    then have "if accepts D (ev, io) d f then tx s' = [] else find_session (d_sm d) f = Some s'"
      using f accept_find [OF D d, of ev io f] by (auto simp: handle_event_def new_session_def)
    then show ?thesis using h True
      by (auto simp: whole_frames_def sent_event_def frames_def split: if_splits intro: exI [of _ "[]"])
  next
    case False
    then have a: "\<not> accepts D (ev, io) d f" by (auto simp: accepts_def)
    show ?thesis
    proof (cases "f = ev_fd ev")
      case True
      from own_event_history [OF f [unfolded True] False] obtain s where
        s: "find_session (d_sm d) f = Some s" "framed (tx s) (sent_event D (ev, io) d @ tx s')" unfolding True by blast
      then have "\<exists>ps. h f @ tx s = frames ps" using h by (simp add: whole_frames_def)
      from frames_extend [OF this s(2)] show ?thesis using a True by simp
    next
      case ne: False
      then have "find_session (d_sm d) f = Some s'" using f False by (auto simp: handle_event_def others_kept split: if_splits)
      then show ?thesis using a ne h by (simp add: whole_frames_def)
    qed
  qed
  then show ?thesis unfolding whole_frames_def note_event_def prod.case fst_conv by blast
qed

lemma note_events_fst: "fst (fold (note_event D) evs (d, h)) = fold (handle_event D) evs d"
  by (induction evs arbitrary: d h) (simp_all add: note_event_def)

lemma whole_frames_events:
  assumes D: "denv_ok D" and "d_ok D d" and "whole_frames (d, h)" and "next_seq_id (d_sm d) + int (length evs) \<le> INT_MAX"
  shows "whole_frames (fold (note_event D) evs (d, h))"
  using assms(2-)
proof (induction evs arbitrary: d h)
  case (Cons x evs)
  obtain d1 h1 where n: "note_event D x (d, h) = (d1, h1)" by fastforce
  have d1: "d1 = handle_event D x d" using n by (simp add: note_event_def)
  have w: "whole_frames (d1, h1)" using whole_frames_event [OF D Cons.prems(1,2), of "fst x" "snd x"] n by simp
  have room: "next_seq_id (d_sm d) < INT_MAX" using Cons.prems(3) by simp
  note ok = d_ok_event [OF D Cons.prems(1) room, of x, folded d1]
  then have "next_seq_id (d_sm d1) + int (length evs) \<le> INT_MAX" using Cons.prems(3) by simp
  from Cons.IH [OF conjunct1 [OF ok] w this] show ?case by (simp add: n)
qed simp

lemma idle_find: "find_session (d_sm (close_idle D now d)) f = Some s \<Longrightarrow> find_session (d_sm d) f = Some s"
  by (simp add: close_idle_def close_idle_find split: if_splits)

text \<open>What a tick does to the session of a descriptor.\<close>

lemma tick_sessions:
  assumes D: "denv_ok D" and d: "d_ok D d" and t: "tick_and_arm D now dur d = Inr d'"
  shows "map fst (sm_sessions (d_sm d')) = map fst (sm_sessions (d_sm d))"
    and "find_session (d_sm d) f = Some s \<Longrightarrow>
      \<exists>s'. find_session (d_sm d') f = Some s' \<and> tick_trans (env_vocab (de_env D)) (de_cfg D) now s s'"
proof -
  let ?S = "sm_sessions (d_sm d)"
  have sch: "sch_ok (d_sched d)" and E: "env_ok (de_env D)" and ok: "pool_ok (sch_config (d_sched d)) ?S" and cfg: "sch_config (d_sched d) = de_cfg D"
    using d D by (auto simp: d_ok_def denv_ok_def sm_ok_def)
  obtain fds sch' c' S' where tk: "tick (de_env D) now dur (d_sched d) (d_ctx d) ?S = Inr (fds, sch', c', S')"
    using tick_Inr [OF sch ok, of "de_env D" now dur "d_ctx d"] by blast
  have "d_sm (fold (arm D) fds e) = d_sm e" for e by (induction fds arbitrary: e) (simp_all add: arm_sm)
  then have S': "sm_sessions (d_sm d') = S'" using t by (auto simp: tick_and_arm_def tk)
  show "map fst (sm_sessions (d_sm d')) = map fst ?S" using tick_keys [OF sch ok tk] by (simp add: tick_pool_def S')
  show "\<exists>s'. find_session (d_sm d') f = Some s' \<and> tick_trans (env_vocab (de_env D)) (de_cfg D) now s s'"
    if "find_session (d_sm d) f = Some s"
    using tick_trans_all [OF sch ok E tk, of f s] that by (simp add: find_session_def tick_pool_def S' cfg)
qed

lemma tick_session:
  assumes D: "denv_ok D" and d: "d_ok D d" and t: "tick_and_arm D now dur d = Inr d'" and s': "find_session (d_sm d') f = Some s'"
  obtains s where "find_session (d_sm d) f = Some s" "sess_ok (de_cfg D) s" "tick_trans (env_vocab (de_env D)) (de_cfg D) now s s'"
proof -
  from tick_back [OF tick_sessions(1) [OF D d t] s' [unfolded find_session_def]] obtain s where
    s: "find_session (d_sm d) f = Some s" unfolding find_session_def by blast
  moreover have "sess_ok (de_cfg D) s" using d s by (auto simp: d_ok_def sm_ok_def pool_ok_def find_session_def)
  ultimately show ?thesis using that tick_sessions(2) [OF D d t s] s' by auto
qed

lemma tick_framed:
  assumes "denv_ok D" and "d_ok D d" and "tick_and_arm D now dur d = Inr d'" and "find_session (d_sm d') f = Some s'"
  shows "\<exists>s. find_session (d_sm d) f = Some s \<and> framed (tx s) (tx s')"
  using tick_session [OF assms] tick_trans_framed by metis

lemma whole_frames_iterate:
  assumes D: "denv_ok D" and d: "d_ok D d" and h: "whole_frames (d, h)"
    and room: "next_seq_id (d_sm d) + int (length evs) \<le> INT_MAX"
    and i: "iterate D evs now_idle now_tick dur d = Inr d'"
  shows "whole_frames (d', snd (fold (note_event D) evs (d, h)))"
proof -
  let ?d1 = "fold (handle_event D) evs d" and ?h1 = "snd (fold (note_event D) evs (d, h))"
  have w: "whole_frames (?d1, ?h1)"
    using whole_frames_events [OF D d h room] note_events_fst [of D evs d h] by (metis prod.collapse)
  have ok2: "d_ok D (close_idle D now_idle ?d1)" by (rule keeps_idle [OF d_ok_events [OF D d room]])
  have "\<exists>ps. ?h1 f @ tx s' = frames ps" if f: "find_session (d_sm d') f = Some s'" for f s'
  proof -
    from tick_framed [OF D ok2 i [unfolded iterate_def] f] obtain s where
      s: "find_session (d_sm (close_idle D now_idle ?d1)) f = Some s" "framed (tx s) (tx s')" by blast
    from idle_find [OF s(1)] w have "\<exists>ps. ?h1 f @ tx s = frames ps" by (simp add: whole_frames_def)
    then show ?thesis using s(2) by (rule frames_extend)
  qed
  then show ?thesis by (simp add: whole_frames_def)
qed

lemma whole_frames_run:
  assumes "denv_ok D" and "d_ok D d" and "turns_ok n ws" and "next_seq_id (d_sm d) + int (sum_list (map n ws)) \<le> INT_MAX"
    and "whole_frames (d, h)" and "main_loop D ws d = Inr (r, d')"
  shows "whole_frames (d', history_of D ws (d, h))"
  using assms(2-)
proof (induction ws arbitrary: d h)
  case (Cons w ws)
  obtain nev evs where w: "wake d w = (nev, evs)" by fastforce
  from turn_room [OF assms(1) Cons.prems(1-3) w] obtain d1 where
    d1: "iterate D evs (w_idle w) (w_tick w) (w_dur w) d = Inr d1" "d_ok D d1" "turns_ok n ws"
      "next_seq_id (d_sm d) + int (length evs) \<le> INT_MAX" "next_seq_id (d_sm d) + int (sum_list (map n ws)) \<le> INT_MAX"
      "next_seq_id (d_sm d1) + int (sum_list (map n ws)) \<le> INT_MAX"
    by blast
  note IH = Cons.IH [OF d1(2,3,6) whole_frames_iterate [OF assms(1) Cons.prems(1,4) d1(4,1)]]
    Cons.IH [OF Cons.prems(1) d1(3,5) Cons.prems(4)]
  show ?case using IH Cons.prems(4,5) by (auto simp: w d1(1) split: if_splits)
qed simp

section \<open>What the client decodes\<close>

text \<open>
  C6. Streams are delivered whole and in order: from start-up on, for any clients, any cutting of the
  writes by the kernel and any decode results, what a live session has been sent so far followed by
  what is queued for it is a sequence of complete frames. A client that reads the bytes sent so far,
  in pieces of any size, decodes a prefix of those frames' payloads: no event is lost, repeated,
  reordered or torn.
\<close>

theorem client_receives_in_order:
  assumes "host_ok H" and "from_args E argv = Inr cfg" and "\<And>m. limits_ok cfg (h_get_vocab H m)"
    and "start_up H E argv = Inr (D, d)" and "turns_ok n ws" and "1 + int (sum_list (map n ws)) \<le> INT_MAX"
    and "main_loop D ws d = Inr (r, d')" and "find_session (d_sm d') f = Some s"
    and "concat chunks = history_of D ws (d, \<lambda>_. []) f"
  shows "\<exists>payloads. concat chunks @ tx s = frames payloads \<and>
    ((\<forall>p \<in> set payloads. frame_ok cap p) \<longrightarrow>
       (\<exists>k left. feed (decode_frame cap) [] chunks = (take k payloads, left)))"
proof -
  note ok = start_up_ok [OF assms(1,2,3,4)]
  have room: "next_seq_id (d_sm d) + int (sum_list (map n ws)) \<le> INT_MAX" using assms(6) ok(3) by simp
  have "whole_frames (d, \<lambda>_. [])" using ok(4) by (simp add: whole_frames_def find_session_def pool_find_def)
  from whole_frames_run [OF ok(1,2) assms(5) room this assms(7)] assms(8,9)
  obtain ps where ps: "concat chunks @ tx s = frames ps" by (auto simp: whole_frames_def)
  have "\<exists>k left. feed (decode_frame cap) [] chunks = (take k ps, left)" if "\<forall>p \<in> set ps. frame_ok cap p"
  proof -
    have "concat (map (write_frame []) ps) = [] @ concat chunks @ tx s" using ps by (simp add: frames_def)
    from wire.feed_prefix [OF that this wire.dec_Nil] obtain ps1 ps2 t where
      "ps = ps1 @ ps2" "feed (decode_frame cap) [] chunks = (ps1, t)" by blast
    then show ?thesis by (intro exI [of _ "length ps1"] exI [of _ t]) simp
  qed
  then show ?thesis using ps by blast
qed

section \<open>A concrete client\<close>

text \<open>A session that is neither prefilling nor decoding sits out the rest of its turn.\<close>

lemma tick_quiet:
  assumes D: "denv_ok D" and d: "d_ok D d" and S: "sm_sessions (d_sm d) = [(f, s)]" and q: "state s \<noteq> PREFILL" "state s \<noteq> DECODE"
    and t: "tick_and_arm D now dur d = Inr d'"
  shows "sm_sessions (d_sm d') = [(f, s)]"
proof -
  have "find_session (d_sm d) f = Some s" using S by (simp add: find_session_def pool_find_def)
  from tick_sessions(2) [OF D d t this] obtain s' where
    s': "find_session (d_sm d') f = Some s'" "tick_trans (env_vocab (de_env D)) (de_cfg D) now s s'" by blast
  from s'(2) have "s' = s" using q by (cases rule: tick_trans.cases) (auto simp: chunk_of_def prefill_ready_def decode_ready_def)
  then show ?thesis using tick_sessions(1) [OF D d t] s'(1) S by (cases "sm_sessions (d_sm d')") (auto simp: find_session_def pool_find_def)
qed

lemma iterate_quiet:
  assumes D: "denv_ok D" and d: "d_ok D d" and room: "next_seq_id (d_sm d) + int (length evs) \<le> INT_MAX"
    and S: "sm_sessions (d_sm (fold (handle_event D) evs d)) = [(f, s)]" and q: "state s \<noteq> PREFILL" "state s \<noteq> DECODE"
    and idle: "idle_fds (de_cfg D) now [(f, s)] = []"
  shows "\<exists>d'. iterate D evs now now' dur d = Inr d' \<and> d_ok D d' \<and> sm_sessions (d_sm d') = [(f, s)] \<and>
    next_seq_id (d_sm d') \<le> next_seq_id (d_sm d) + int (length evs)"
proof -
  from iterate_room [OF D d room] obtain d' where d': "iterate D evs now now' dur d = Inr d'" "d_ok D d'"
    "next_seq_id (d_sm d') \<le> next_seq_id (d_sm d) + int (length evs)" by blast
  have i: "close_idle D now (fold (handle_event D) evs d) = fold (handle_event D) evs d"
    using S idle by (simp add: close_idle_def)
  from tick_quiet [OF D d_ok_events [OF D d room] S q d'(1) [unfolded iterate_def i]] d' show ?thesis by blast
qed

text \<open>A client connects, then sends a frame of length 0, of whose answer the kernel takes three bytes.\<close>

definition bad_frame_io :: "set_queue io" where
  "bad_frame_io = demo_io\<lparr>io_reads := ([[0, 0, 0, 0]], Read_Again), io_write := Wrote 3\<rparr>"

definition client_turn :: "set_queue io \<Rightarrow> set_queue wakeup" where
  "client_turn io =
     \<lparr>w_shutdown = False,
      w_wait = (\<lambda>_. (1, [\<lparr>ke_ident = 7, ke_filter = EVFILT_READ, ke_error = False, ke_eof = False\<rparr>])),
      w_errno = EAGAIN, w_order = (\<lambda>xs. xs), w_io = (\<lambda>_. io), w_idle = 30, w_tick = 31, w_dur = 1000\<rparr>"

definition bad_frame_turn :: "set_queue wakeup" where
  "bad_frame_turn = client_turn bad_frame_io"

definition client_turns :: "set_queue wakeup list" where
  "client_turns = [hd demo_turns, bad_frame_turn]"

lemma client_wakes:
  "wake d (hd demo_turns) = (1, [(\<lparr>ev_fd = 3, ev_f = PollFlags_Read\<rparr>, demo_io)])"
  "wake d (client_turn io) = (1, [(\<lparr>ev_fd = 7, ev_f = PollFlags_Read\<rparr>, io)])"
  "wake d bad_frame_turn = (1, [(\<lparr>ev_fd = 7, ev_f = PollFlags_Read\<rparr>, bad_frame_io)])"
  by (simp_all add: wake_def bad_frame_turn_def client_turn_def demo_turns_def poller_wait_def coalesce_step_def kev_fd_def kev_flags_def i32_def
      flag_defs)

lemma client_loop:
  "main_loop D client_turns d =
     bindE (iterate D [(\<lparr>ev_fd = 3, ev_f = PollFlags_Read\<rparr>, demo_io)] 20 21 1000 d)
       (\<lambda>d. bindE (iterate D [(\<lparr>ev_fd = 7, ev_f = PollFlags_Read\<rparr>, bad_frame_io)] 30 31 1000 d) (\<lambda>d. Inr (None, d)))"
proof -
  have turn: "\<not> w_shutdown (hd demo_turns)" "w_idle (hd demo_turns) = 20" "w_tick (hd demo_turns) = 21" "w_dur (hd demo_turns) = 1000"
    by (simp_all add: demo_turns_def)
  have "\<not> w_shutdown bad_frame_turn" "w_idle bad_frame_turn = 30" "w_tick bad_frame_turn = 31" "w_dur bad_frame_turn = 1000"
    by (simp_all add: bad_frame_turn_def client_turn_def)
  moreover have "main_loop D [] = (\<lambda>d. Inr (None, d))" by (rule ext) simp
  ultimately have "main_loop D [bad_frame_turn] =
      (\<lambda>d. bindE (iterate D [(\<lparr>ev_fd = 7, ev_f = PollFlags_Read\<rparr>, bad_frame_io)] 30 31 1000 d) (\<lambda>d. Inr (None, d)))"
    by (intro ext) (simp add: client_wakes)
  then show ?thesis using turn by (simp add: client_turns_def client_wakes)
qed

lemma read_ready: "readable \<lparr>ev_fd = f, ev_f = PollFlags_Read\<rparr>"
  by (simp add: readable_def pf_has_def pf_any_def flag_defs)

definition fresh_client :: ClientSession where
  "fresh_client = new_session\<lparr>fd := 7, ctx := None, last_activity_ns := 10\<rparr>"

lemma client_connects:
  assumes "de_server D = 3" and "max_sessions (de_cfg D) = 16" and "de_rehash D = (\<lambda>p. p)" and "sm_sessions (d_sm d) = []"
  shows "sm_sessions (d_sm (handle_event D (\<lparr>ev_fd = 3, ev_f = PollFlags_Read\<rparr>, demo_io) d)) = [(7, fresh_client)]"
  using assms by (simp add: handle_event_def read_ready on_accept_def demo_io_def add_client_def fresh_client_def d_add_def Let_def pool_insert_def)

lemma client_rejected:
  assumes "de_server D = 3" and S: "sm_sessions (d_sm d) = [(7, fresh_client)]"
  shows "\<exists>s. sm_sessions (d_sm (handle_event D (\<lparr>ev_fd = 7, ev_f = PollFlags_Read\<rparr>, bad_frame_io) d)) = [(7, s)] \<and> state s = STREAM \<and>
      last_activity_ns s = 10 \<and> fd s = 7"
proof -
  let ?s1 = "drain_reads [[0, 0, 0, 0]] 10 fresh_client"
  define s' where "s' = fst (reject (request_id ?s1) ''E_PROTO_INVALID_LEN'' ''invalid frame length 0'' (?s1, no_result))"
  have "try_read_frame (rx ?s1) kDefaultMaxFrameBytes = FrameErr ''invalid frame length 0''"
    by (simp add: drain_reads_keeps fresh_client_def new_session_def try_read_frame_def read_u32_le_def)
  then have os: "on_session P cfg vocab 10 [[0, 0, 0, 0]] Read_Again n fresh_client =
      ((s', no_result\<lparr>wants_write := True, removed_read := True\<rparr>), n)" for P cfg vocab n
    by (simp add: on_session_frame [OF _ refl refl] s'_def reject_def str_find_def)
  have "3 < length (write_frame b p)" for b p by (simp add: write_frame_def frame_hdr_def Let_def)
  then have "3 < length (tx s')" by (simp add: s'_def reject_def append_error_event_def)
  then have s': "state s' = STREAM" "last_activity_ns s' = 10" "fd s' = 7" "drop 3 (tx s') \<noteq> []" "tx s' \<noteq> []"
    by (auto simp: s'_def reject_def fresh_client_def new_session_def drain_reads_def)
  obtain d3 where ra: "read_answer D 7 bad_frame_io d = (d3, True)" "sm_sessions (d_sm d3) = [(7, s')]"
    by (simp add: read_answer_def on_readable_def bad_frame_io_def demo_io_def S pool_find_def os find_session_def pool_set_def
        no_result_def d_remove_def Let_def)
  have w: "io_write bad_frame_io = Wrote 3" by (simp add: bad_frame_io_def)
  have "sm_sessions (d_sm (on_client_read D 7 bad_frame_io d)) = [(7, s'\<lparr>tx := drop 3 (tx s')\<rparr>)]"
    using s'(4,5) by (simp add: on_client_read_def ra upd_session_def find_session_def pool_find_def pool_set_def
        finish_read_def write_now_def w d_add_def)
  then show ?thesis using s'(1-3) assms(1) by (simp add: handle_event_def read_ready)
qed

text \<open>The first turn, on any daemon that has just started with the default configuration.\<close>

definition just_started :: "(set_queue, 'c, 'r) denv \<Rightarrow> (set_queue, 'c, 'r) daemon \<Rightarrow> bool" where
  "just_started D d \<longleftrightarrow>
     denv_ok D \<and> d_ok D d \<and> sm_sessions (d_sm d) = [] \<and> next_seq_id (d_sm d) = 1 \<and> de_server D = 3 \<and> de_rehash D = (\<lambda>p. p) \<and>
     de_cfg D = default_config\<lparr>model_path := ''m.gguf''\<rparr>"

lemma idle_young:
  "just_started D d \<Longrightarrow> last_activity_ns s = 10 \<Longrightarrow> now = 20 \<or> now = 30 \<Longrightarrow> idle_fds (de_cfg D) now [(7, s)] = []"
  by (auto simp: just_started_def idle_fds_def default_config_def Let_def)

lemma client_arrives:
  assumes "just_started D d"
  shows "\<exists>d1. iterate D [(\<lparr>ev_fd = 3, ev_f = PollFlags_Read\<rparr>, demo_io)] 20 21 1000 d = Inr d1 \<and> d_ok D d1 \<and>
    sm_sessions (d_sm d1) = [(7, fresh_client)] \<and> next_seq_id (d_sm d1) \<le> 2"
proof -
  have D: "denv_ok D" "d_ok D d" "sm_sessions (d_sm d) = []" "next_seq_id (d_sm d) = 1" "de_server D = 3" "de_rehash D = (\<lambda>p. p)"
    "max_sessions (de_cfg D) = 16" using assms by (simp_all add: just_started_def default_config_def)
  have room: "next_seq_id (d_sm d) + int (length [(\<lparr>ev_fd = 3, ev_f = PollFlags_Read\<rparr>, demo_io)]) \<le> INT_MAX"
    using D(4) by (simp add: INT_MAX_def)
  show ?thesis
    using iterate_quiet [OF D(1,2) room, of 7 fresh_client 20 21 1000] client_connects [OF D(5,7,6,3)] D(4)
      idle_young [OF assms, of fresh_client 20] by (auto simp: fresh_client_def new_session_def)
qed

lemma boot_just_started:
  assumes "host_ok H" and "\<And>m. limits_ok (default_config\<lparr>model_path := ''m.gguf''\<rparr>) (h_get_vocab H m)"
    and "r_socket (h_open H) = 3" and "h_rehash H = (\<lambda>p. p)" and "start_up H (\<lambda>_. None) demo_argv = Inr (D, d)"
  shows "just_started D d"
proof -
  obtain m gctx where b: "(D, d) = boot H (\<lambda>_. None) (default_config\<lparr>model_path := ''m.gguf''\<rparr>) (h_get_vocab H m) gctx 3"
    using start_up_boot [OF assms(5)] demo_args assms(3) by auto
  show ?thesis using boot_ok [OF assms(1,2) b] b assms(4) by (simp add: just_started_def boot_def Let_def)
qed

lemma client_served:
  assumes "start_up demo_host (\<lambda>_. None) demo_argv = Inr (D, d)"
  shows "\<exists>r d' s. main_loop D client_turns d = Inr (r, d') \<and> find_session (d_sm d') 7 = Some s \<and> state s = STREAM"
proof -
  have j: "just_started D d"
    by (rule boot_just_started [OF demo_host_ok demo_host_limits _ _ assms]) (simp_all add: demo_host_def)
  then have D: "denv_ok D" "de_server D = 3" by (simp_all add: just_started_def)
  from client_arrives [OF j] obtain d1 where d1: "iterate D [(\<lparr>ev_fd = 3, ev_f = PollFlags_Read\<rparr>, demo_io)] 20 21 1000 d = Inr d1"
      "d_ok D d1" "sm_sessions (d_sm d1) = [(7, fresh_client)]" "next_seq_id (d_sm d1) \<le> 2" by blast
  let ?evs = "[(\<lparr>ev_fd = 7, ev_f = PollFlags_Read\<rparr> :: PollEvent, bad_frame_io)]"
  obtain s where s: "sm_sessions (d_sm (handle_event D (hd ?evs) d1)) = [(7, s)]" "state s = STREAM" "last_activity_ns s = 10"
    using client_rejected [OF D(2) d1(3)] by auto
  have "next_seq_id (d_sm d1) + int (length ?evs) \<le> INT_MAX" using d1(4) by (simp add: INT_MAX_def)
  from iterate_quiet [OF D(1) d1(2) this, of 7 s 30 31 1000] s idle_young [OF j, of s 30] obtain d2 where
    d2: "iterate D ?evs 30 31 1000 d1 = Inr d2" "sm_sessions (d_sm d2) = [(7, s)]" by auto
  have "main_loop D client_turns d = Inr (None, d2)"
    by (simp add: client_loop d1(1) d2(1))
  then show ?thesis using d2(2) s(2) by (auto simp: find_session_def pool_find_def)
qed

lemma client_turns_ok: "turns_ok (\<lambda>_. 1) client_turns" "1 + int (sum_list (map (\<lambda>_. 1) client_turns)) \<le> INT_MAX"
  by (simp_all add: turns_ok_def client_turns_def demo_turns_def bad_frame_turn_def client_turn_def INT_MAX_def)

theorem client_receives_in_order_witness:
  "\<exists>D d r d' s payloads. start_up demo_host (\<lambda>_. None) demo_argv = Inr (D, d) \<and> main_loop D client_turns d = Inr (r, d') \<and>
     find_session (d_sm d') 7 = Some s \<and> history_of D client_turns (d, \<lambda>_. []) 7 @ tx s = frames payloads"
proof -
  obtain D d where st: "start_up demo_host (\<lambda>_. None) demo_argv = Inr (D, d)" using demo_start by blast
  from client_served [OF st] obtain r d' s where
    m: "main_loop D client_turns d = Inr (r, d')" "find_session (d_sm d') 7 = Some s" by blast
  have "concat [history_of D client_turns (d, \<lambda>_. []) 7] = history_of D client_turns (d, \<lambda>_. []) 7" by simp
  from client_receives_in_order [OF demo_host_ok demo_args demo_host_limits st client_turns_ok m this] st m show ?thesis by auto
qed

end
