(* ===== verification/Tick_Memory.thy ===== *)
theory Tick_Memory
  imports Tick_Properties
begin

text \<open>
  The model's memory and the sessions. llama.cpp keeps, per sequence, the tokens it has been fed and
  their positions; its documented behaviour is the interface \<open>model_memory\<close>. The scheduler of
  \<open>src/src/sched/scheduler.cpp\<close> keeps only a count per session, \<open>n_past\<close>. The theory proves that a
  tick keeps the two in step: positions are gapless from 0, the memory starts with the prompt read
  so far, and it is empty again when the stream has ended.
\<close>

section \<open>What llama.cpp promises\<close>

text \<open>The tokens of a batch for one sequence, with their positions, in the order of the batch.\<close>

definition batch_cells :: "llama_batch \<Rightarrow> int \<Rightarrow> (int \<times> int) list" where
  "batch_cells b q = [(p, t). (p, t, r) \<leftarrow> zip (b_pos b) (zip (b_token b) (b_seq_id b)), r = q]"

text \<open>
  A successful decode appends the batch, a failed one touches at most the sequences in it;
  removing a sequence empties it and no other.
\<close>

locale model_memory =
  fixes L :: "'c llama" and cells :: "'c \<Rightarrow> int \<Rightarrow> (int \<times> int) list"
  assumes decode_cells: "llama_decode L c b = (0, c') \<Longrightarrow> cells c' q = cells c q @ batch_cells b q"
    and decode_other: "llama_decode L c b = (rc, c') \<Longrightarrow> q \<notin> set (b_seq_id b) \<Longrightarrow> cells c' q = cells c q"
    and rm_cells: "0 \<le> q \<Longrightarrow> cells (llama_memory_seq_rm L c q (- 1) (- 1)) r = (if r = q then [] else cells c r)"
    and reset_cells: "cells (llama_perf_context_reset L c) q = cells c q"

section \<open>Sessions and memory in step\<close>

definition in_step :: "(int \<times> int) list \<Rightarrow> ClientSession \<Rightarrow> bool" where
  "in_step ks s \<longleftrightarrow>
     (case state s of
        PREFILL \<Rightarrow> map fst ks = map int [0..<length ks] \<and> int (length ks) = n_past s \<and>
          map snd ks = take (prefill_idx s) (prompt_tokens s) \<and> prefill_idx s \<le> length (prompt_tokens s)
      | DECODE \<Rightarrow> map fst ks = map int [0..<length ks] \<and> int (length ks) = n_past s + (if has_pending_tok s then 0 else 1) \<and>
          prefix (take (prefill_idx s) (prompt_tokens s)) (map snd ks)
      | ERRORED \<Rightarrow> True
      | _ \<Rightarrow> ks = [])"

text \<open>All sessions of a table; without a sequence id a session has no work.\<close>

definition session_memory :: "('c \<Rightarrow> int \<Rightarrow> (int \<times> int) list) \<Rightarrow> 'c \<Rightarrow> ClientSession \<Rightarrow> bool" where
  "session_memory cells c s \<longleftrightarrow>
     (if seq s < 0 then state s \<noteq> PREFILL \<and> state s \<noteq> DECODE else in_step (cells c (seq s)) s)"

definition memory_ok :: "('c \<Rightarrow> int \<Rightarrow> (int \<times> int) list) \<Rightarrow> 'c \<Rightarrow> SessionPool \<Rightarrow> bool" where
  "memory_ok cells c S \<longleftrightarrow> (\<forall>f s. pool_find S f = Some s \<longrightarrow> session_memory cells c s)"

definition seqs_distinct :: "SessionPool \<Rightarrow> bool" where
  "seqs_distinct S \<longleftrightarrow>
     (\<forall>f g s t. pool_find S f = Some s \<longrightarrow> pool_find S g = Some t \<longrightarrow> f \<noteq> g \<longrightarrow> 0 \<le> seq s \<longrightarrow> seq s \<noteq> seq t)"

section \<open>The rows of one sequence\<close>

definition row_cells :: "row list \<Rightarrow> (int \<times> int) list" where
  "row_cells rs = map (\<lambda>r. (r_pos r, r_token r)) rs"

lemma batch_cells_rows:
  "batch_cells (append_rows empty_batch rs) q = row_cells (filter (\<lambda>r. r_seq r = q) rs)"
  by (induction rs) (simp_all add: batch_cells_def row_cells_def empty_batch_def)

lemma item_rows_seq: "r \<in> set (item_rows s x) \<Longrightarrow> r_seq r = seq s"
  by (auto simp: item_rows_def split: Phase.splits)

lemma rows_other:
  "(\<And>x. x \<in> set its \<Longrightarrow> item_rows (session_of S x) x \<noteq> [] \<Longrightarrow> seq (session_of S x) \<noteq> q) \<Longrightarrow>
   filter (\<lambda>r. r_seq r = q) (rows_of S its) = []"
  unfolding filter_empty_conv rows_of_def using item_rows_seq by fastforce

lemma rows_of_one:
  assumes "distinct (map it_fd its)" and "x \<in> set its" and "session_of S x = s"
    and "\<And>y. y \<in> set its \<Longrightarrow> it_fd y \<noteq> it_fd x \<Longrightarrow> seq (session_of S y) \<noteq> seq s"
  shows "filter (\<lambda>r. r_seq r = seq s) (rows_of S its) = item_rows s x"
proof -
  obtain as bs where its: "its = as @ x # bs" using assms(2) by (metis split_list)
  have "it_fd x \<notin> it_fd ` set as" "it_fd x \<notin> it_fd ` set bs" using assms(1) by (auto simp: its)
  then have "it_fd y \<noteq> it_fd x" if "y \<in> set as \<or> y \<in> set bs" for y using that by (metis image_eqI)
  then have "seq (session_of S y) \<noteq> seq s" if "y \<in> set as \<or> y \<in> set bs" for y
    using that assms(4) [of y] by (auto simp: its)
  then have "filter (\<lambda>r. r_seq r = seq s) (rows_of S as) = []" "filter (\<lambda>r. r_seq r = seq s) (rows_of S bs) = []"
    by (intro rows_other; simp)+
  then have
    "filter (\<lambda>r. r_seq r = seq s) (rows_of S its) = filter (\<lambda>r. r_seq r = seq s) (item_rows s x)"
    by (simp add: its rows_of_def assms(3))
  also have "\<dots> = item_rows s x" by (simp add: filter_id_conv item_rows_seq)
  finally show ?thesis .
qed

section \<open>One session\<close>

text \<open>After its rows have been decoded and before its sample is taken.\<close>

definition midway :: "(int \<times> int) list \<Rightarrow> ClientSession \<Rightarrow> bool" where
  "midway ks s \<longleftrightarrow> (state s = PREFILL \<or> state s = DECODE \<and> \<not> has_pending_tok s) \<and> in_step ks s"

lemma enacted_in_step:
  assumes "runnable s x" and "0 < it_n_tokens x" and "in_step ks s"
  shows "midway (ks @ row_cells (item_rows s x)) (enacted s x)"
proof (cases "it_phase x")
  case Phase_DECODE
  then show ?thesis using assms
    by (auto simp: midway_def in_step_def runnable_def decode_ready_def enacted_def item_rows_def row_cells_def prefix_def)
next
  case Phase_PREFILL
  then have s: "state s = PREFILL" "it_n_tokens x \<le> remaining s"
    using assms(1) wanted_le_remaining [of s] by (auto simp: runnable_def prefill_ready_def)
  let ?n = "nat (it_n_tokens x)"
  have ks: "map fst ks = map int [0..<length ks]" "int (length ks) = n_past s" "map snd ks = take (prefill_idx s) (prompt_tokens s)"
    "prefill_idx s \<le> length (prompt_tokens s)" using assms(3) s(1) by (simp_all add: in_step_def)
  have fits: "prefill_idx s + ?n \<le> length (prompt_tokens s)" using s(2) ks(4) assms(2) by (simp add: remaining_def)
  have rows: "row_cells (item_rows s x) = map (\<lambda>j. (n_past s + int j, prompt_tokens s ! (prefill_idx s + j))) [0..<?n]"
    using Phase_PREFILL by (simp add: row_cells_def item_rows_def)
  have "map int [0..<length ks + ?n] = map int [0..<length ks] @ map (\<lambda>j. n_past s + int j) [0..<?n]"
    by (rule nth_equalityI) (auto simp: nth_append ks(2) [symmetric])
  moreover have "take (prefill_idx s + ?n) (prompt_tokens s) =
      take (prefill_idx s) (prompt_tokens s) @ map (\<lambda>j. prompt_tokens s ! (prefill_idx s + j)) [0..<?n]"
    using fits by (simp add: take_add) (simp add: list_eq_iff_nth_eq)
  ultimately show ?thesis using s(1) ks Phase_PREFILL fits assms(2)
    by (simp add: midway_def in_step_def enacted_def rows comp_def)
qed

section \<open>The samples\<close>

text \<open>What taking a sample does to a session and to its part of the memory.\<close>

definition sample_mem :: "llama_vocab \<Rightarrow> RuntimeConfig \<Rightarrow> u64 \<Rightarrow> SampleRef \<Rightarrow> ClientSession \<times> (int \<times> int) list \<Rightarrow>
    ClientSession \<times> (int \<times> int) list \<Rightarrow> bool" where
  "sample_mem v cfg now_ns sr = (\<lambda>(s, ks) r.
     r = (s, ks) \<or>
     (\<exists>t. r = (if sr_state_before sr = PREFILL then (first_token v now_ns t s, ks)
               else if ends_stream v cfg t s then (end_stream cfg now_ns s, [])
               else (next_token v now_ns t s, ks))))"

definition seen :: "('c \<Rightarrow> int \<Rightarrow> (int \<times> int) list) \<Rightarrow> ('c, 'r) sample_state \<Rightarrow> int \<Rightarrow>
    (ClientSession \<times> (int \<times> int) list) option" where
  "seen cells st f = map_option (\<lambda>s. (s, cells (fst (snd st)) (seq s))) (pool_find (fst st) f)"

lemma outcome_seq [simp]:
  "seq (first_token v now_ns t s) = seq s" "seq (end_stream cfg now_ns s) = seq s" "seq (next_token v now_ns t s) = seq s"
  by (simp_all add: session_outcomes)

lemma sample_step_seq:
  "map_option seq (pool_find (fst (sample_step E cfg now_ns sr st)) f) = map_option seq (pool_find (fst st) f)"
  by (cases st) (auto simp: sample_step_def Let_def pool_simps split: option.split prod.split)

context model_memory
begin

lemma sample_step_memory:
  assumes "env_llama E = L" and "seqs_distinct (fst st)" and "\<And>s. pool_find (fst st) (sr_fd sr) = Some s \<Longrightarrow> 0 \<le> seq s"
  shows "f \<noteq> sr_fd sr \<Longrightarrow> seen cells (sample_step E cfg now_ns sr st) f = seen cells st f"
    and "seen cells st (sr_fd sr) = Some v \<Longrightarrow>
      \<exists>v'. seen cells (sample_step E cfg now_ns sr st) (sr_fd sr) = Some v' \<and> sample_mem (env_vocab E) cfg now_ns sr v v'"
proof -
  obtain S c rng m fds where st: "st = (S, c, rng, m, fds)" by (metis prod_cases5)
  have rm: "cells (llama_memory_seq_rm L c (seq s) (- 1) (- 1)) q = (if q = seq s then [] else cells c q)"
    if "pool_find S (sr_fd sr) = Some s" for s q using assms(3) [of s] that by (intro rm_cells) (simp add: st)
  have ne: "seq t \<noteq> seq s" if "pool_find S (sr_fd sr) = Some s" "pool_find S f = Some t" "f \<noteq> sr_fd sr" for s t f
    using assms(2,3) that unfolding seqs_distinct_def st fst_conv by metis
  show "seen cells (sample_step E cfg now_ns sr st) f = seen cells st f" if "f \<noteq> sr_fd sr"
    using that rm ne
    by (auto simp: st seen_def sample_step_def Let_def pool_simps assms(1) map_option_case split: option.split prod.split)
  show "\<exists>v'. seen cells (sample_step E cfg now_ns sr st) (sr_fd sr) = Some v' \<and> sample_mem (env_vocab E) cfg now_ns sr v v'"
    if "seen cells st (sr_fd sr) = Some v"
    using that rm
    by (auto simp: st seen_def sample_step_def Let_def pool_simps assms(1) sample_mem_def split: option.split prod.split)
qed

end

text \<open>A sample leaves a session in step again.\<close>

lemma outcome_progress:
  "state (first_token v now_ns t s) = DECODE" "has_pending_tok (first_token v now_ns t s)" "n_past (first_token v now_ns t s) = n_past s"
  "prefill_idx (first_token v now_ns t s) = prefill_idx s" "prompt_tokens (first_token v now_ns t s) = prompt_tokens s"
  "state (next_token v now_ns t s) = DECODE" "has_pending_tok (next_token v now_ns t s)"
  "n_past (next_token v now_ns t s) = i32 (n_past s + 1)" "prefill_idx (next_token v now_ns t s) = prefill_idx s"
  "prompt_tokens (next_token v now_ns t s) = prompt_tokens s" "state (end_stream cfg now_ns s) = STREAM"
  by (simp_all add: session_outcomes)

lemma sampled_in_step:
  assumes "midway ks s" and "sr_state_before sr = state s" and "0 \<le> n_past s" and "n_past s < INT_MAX"
    and "sample_mem v cfg now_ns sr (s, ks) (s', ks')"
  shows "in_step ks' s'"
proof -
  have i: "i32 (n_past s + 1) = n_past s + 1" using assms(3,4) by (intro i32_id) simp_all
  consider "s' = s" "ks' = ks" | t where "state s = PREFILL" "s' = first_token v now_ns t s" "ks' = ks"
    | "s' = end_stream cfg now_ns s" "ks' = []" | t where "state s \<noteq> PREFILL" "s' = next_token v now_ns t s" "ks' = ks"
    using assms(2,5) by (auto simp: sample_mem_def split: if_splits)
  then show ?thesis
  proof cases
    case 1
    then show ?thesis using assms(1) by (simp add: midway_def)
  next
    case 2
    then show ?thesis using assms(1) by (simp add: midway_def in_step_def outcome_progress)
  next
    case 3
    then show ?thesis by (simp add: in_step_def outcome_progress)
  next
    case 4
    then show ?thesis using assms(1) by (auto simp: midway_def in_step_def outcome_progress i)
  qed
qed

lemma seqs_distinct_cong:
  assumes "\<And>f. map_option seq (pool_find S' f) = map_option seq (pool_find S f)" and "seqs_distinct S"
  shows "seqs_distinct S'"
proof -
  have "\<exists>t. pool_find S f = Some t \<and> seq t = seq s" if "pool_find S' f = Some s" for f s
    using assms(1) [of f] that by (auto simp: map_option_case split: option.splits)
  then show ?thesis using assms(2) unfolding seqs_distinct_def by metis
qed

context model_memory
begin

lemma samples_memory:
  fixes E :: "('c, 'r) env"
  assumes "env_llama E = L" and "distinct (map sr_fd samples)" and "seqs_distinct (fst st)"
    and "\<And>sr s. sr \<in> set samples \<Longrightarrow> pool_find (fst st) (sr_fd sr) = Some s \<Longrightarrow> 0 \<le> seq s"
  shows "(\<forall>f. f \<notin> sr_fd ` set samples \<longrightarrow> seen cells (fold (sample_step E cfg now_ns) samples st) f = seen cells st f) \<and>
    (\<forall>sr \<in> set samples. \<forall>v. seen cells st (sr_fd sr) = Some v \<longrightarrow>
       (\<exists>v'. seen cells (fold (sample_step E cfg now_ns) samples st) (sr_fd sr) = Some v' \<and>
          sample_mem (env_vocab E) cfg now_ns sr v v'))"
proof (rule fold_distinct_keys_inv [where I = "\<lambda>st'. \<forall>f. map_option seq (pool_find (fst st') f) = map_option seq (pool_find (fst st) f)"])
  fix sr and st' :: "('c, 'r) sample_state"
  assume I: "\<forall>f. map_option seq (pool_find (fst st') f) = map_option seq (pool_find (fst st) f)" and sr: "sr \<in> set samples"
  have d: "seqs_distinct (fst st')" by (rule seqs_distinct_cong [OF _ assms(3)]) (use I in blast)
  have q: "0 \<le> seq s" if "pool_find (fst st') (sr_fd sr) = Some s" for s
    using I [rule_format, of "sr_fd sr"] that assms(4) [OF sr] by (auto simp: map_option_case split: option.splits)
  note step = sample_step_memory [OF assms(1) d q, where cfg = cfg and now_ns = now_ns]
  show "seen cells (sample_step E cfg now_ns sr st') f = seen cells st' f" if "f \<noteq> sr_fd sr" for f by (rule step(1) [OF _ that])
  show "\<exists>v'. seen cells (sample_step E cfg now_ns sr st') (sr_fd sr) = Some v' \<and> sample_mem (env_vocab E) cfg now_ns sr v v'"
    if "seen cells st' (sr_fd sr) = Some v" for v by (rule step(2) [OF _ that])
  show "\<forall>f. map_option seq (pool_find (fst (sample_step E cfg now_ns sr st')) f) = map_option seq (pool_find (fst st) f)"
    using I by (simp add: sample_step_seq)
qed (use assms in simp_all)

lemma samples_other:
  assumes "env_llama E = L"
    and "\<And>sr s. sr \<in> set samples \<Longrightarrow> pool_find (fst st) (sr_fd sr) = Some s \<Longrightarrow> 0 \<le> seq s \<and> seq s \<noteq> q"
  shows "cells (fst (snd (fold (sample_step E cfg now_ns) samples st))) q = cells (fst (snd st)) q"
  using assms(2)
proof (induction samples arbitrary: st)
  case (Cons sr samples)
  obtain S c rng m fds where st: "st = (S, c, rng, m, fds)" by (metis prod_cases5)
  let ?st = "sample_step E cfg now_ns sr st"
  have "0 \<le> seq s \<and> seq s \<noteq> q" if "x \<in> set samples" "pool_find (fst ?st) (sr_fd x) = Some s" for x s
    using sample_step_seq [of E cfg now_ns sr st "sr_fd x"] that Cons.prems [of x] by (auto simp: map_option_case split: option.splits)
  from Cons.IH [OF this] have "cells (fst (snd (fold (sample_step E cfg now_ns) (sr # samples) st))) q = cells (fst (snd ?st)) q" by simp
  also have "\<dots> = cells (fst (snd st)) q" using Cons.prems [of sr]
    by (auto simp: st sample_step_def Let_def assms(1) rm_cells split: option.split prod.split)
  finally show ?case .
qed simp

end

section \<open>A tick\<close>

lemma enacted_pool_seq:
  assumes "executable S its"
  shows "map_option seq (pool_find (enacted_pool S its) f) = map_option seq (pool_find S f)"
proof (cases "f \<in> it_fd ` set its")
  case True
  then obtain x where x: "x \<in> set its" "f = it_fd x" by blast
  then have "pool_find S f = Some (session_of S x)" using assms by (force simp: executable_def session_of_def)
  then show ?thesis using enacted_pool_find [OF assms] x by (simp add: enacted_def split: Phase.split)
qed (use enacted_pool_find [OF assms] in simp)

text \<open>A session whose plan, if any, is empty has no rows and no sample; one with tokens to feed has a sequence.\<close>

lemma served_seq:
  "memory_ok cells c S \<Longrightarrow> pool_find S f = Some s \<Longrightarrow> runnable s x \<Longrightarrow> 0 \<le> seq s"
  by (fastforce simp: memory_ok_def session_memory_def runnable_def prefill_ready_def decode_ready_def split: Phase.splits if_splits)

lemma other_rows:
  assumes ex: "executable S its" and d: "seqs_distinct S" and m: "memory_ok cells c S" and s: "pool_find S f = Some s"
    and y: "y \<in> set its" "it_fd y \<noteq> f"
  shows "seq (session_of S y) \<noteq> seq s"
proof -
  have "pool_find S (it_fd y) = Some (session_of S y)" "runnable (session_of S y) y"
    using ex y(1) by (auto simp: executable_def session_of_def)
  then show ?thesis using d s y(2) served_seq [OF m] unfolding seqs_distinct_def by metis
qed

context model_memory
begin

lemma served_memory:
  assumes ex: "executable S its" and d: "seqs_distinct S" and m: "memory_ok cells c S" and s: "pool_find S (it_fd x) = Some s"
    and x: "x \<in> set its" "0 < it_n_tokens x" and c1: "\<And>q. cells c1 q = cells c q"
    and dec: "llama_decode L c1 (append_rows empty_batch (rows_of S its)) = (0, c2)"
  shows "midway (cells c2 (seq s)) (enacted s x)"
proof -
  have run: "runnable s x" "session_of S x = s" using ex x(1) s by (auto simp: executable_def session_of_def)
  have "filter (\<lambda>r. r_seq r = seq s) (rows_of S its) = item_rows s x"
    by (rule rows_of_one [OF _ x(1) run(2)]) (use ex other_rows [OF ex d m s] in \<open>auto simp: executable_def\<close>)
  then have "cells c2 (seq s) = cells c (seq s) @ row_cells (item_rows s x)"
    by (simp add: decode_cells [OF dec] batch_cells_rows c1)
  moreover have "in_step (cells c (seq s)) s" using m s served_seq [OF m s run(1)] by (auto simp: memory_ok_def session_memory_def)
  ultimately show ?thesis using enacted_in_step [OF run(1) x(2)] by simp
qed

text \<open>The context and the sessions of a tick that has something to decode.\<close>

lemma tick_decoded:
  assumes "env_llama E = L" and "sch_ok sch" and "pool_ok cfg S" and "tick_plan sch S = (p, m)"
    and "tick E now_ns dur_ns sch c S = Inr (fds, sch', c', S')" and "rows_of S (items p) \<noteq> []"
  obtains c1 rc c2 where "\<And>q. cells c1 q = cells c q"
    and "llama_decode L c1 (append_rows empty_batch (rows_of S (items p))) = (rc, c2)"
    and "rc \<noteq> 0 \<Longrightarrow> c' = c2 \<and> S' = fold fail_sample (refs_of S 0 (items p)) (enacted_pool S (items p))"
    and "rc = 0 \<Longrightarrow> \<exists>rng m. \<exists>st. st = fold (sample_step E (sch_config sch) now_ns) (refs_of S 0 (items p))
      (enacted_pool S (items p), c2, rng, m, []) \<and> S' = fst st \<and> c' = fst (snd st)"
proof -
  define c1 where "c1 = (if enable_perf (sch_config sch) then llama_perf_context_reset L c else c)"
  obtain rc c2 where dec: "llama_decode L c1 (append_rows empty_batch (rows_of S (items p))) = (rc, c2)" by fastforce
  note t = assms(5) [unfolded tick_eq(5) [OF assms(2-4), of E now_ns dur_ns c] Let_def]
  show ?thesis
  proof (rule that [of c1 rc c2])
    show "cells c1 q = cells c q" for q by (simp add: c1_def reset_cells)
    show "c' = c2 \<and> S' = fold fail_sample (refs_of S 0 (items p)) (enacted_pool S (items p))" if "rc \<noteq> 0"
      using t that assms(6) dec by (simp add: run_batch_def Let_def assms(1) c1_def)
    show "\<exists>rng m. \<exists>st. st = fold (sample_step E (sch_config sch) now_ns) (refs_of S 0 (items p))
      (enacted_pool S (items p), c2, rng, m, []) \<and> S' = fst st \<and> c' = fst (snd st)" if "rc = 0"
      using t that assms(6) dec by (simp add: run_batch_def Let_def assms(1) c1_def case_prod_beta) metis
  qed (rule dec)
qed

end

text \<open>The sessions that are sampled are those whose items have tokens.\<close>

lemma refs_sessions:
  assumes sch: "sch_ok sch" and ok: "pool_ok cfg S" and tp: "tick_plan sch S = (p, m)" and m: "memory_ok cells c S"
    and sr: "sr \<in> set (refs_of S 0 (items p))" "pool_find (enacted_pool S (items p)) (sr_fd sr) = Some s1"
  shows "\<exists>x s. x \<in> set (items p) \<and> sr_fd sr = it_fd x \<and> 0 < it_n_tokens x \<and> pool_find S (it_fd x) = Some s \<and> s1 = enacted s x \<and>
    0 \<le> seq s \<and> seq s1 = seq s \<and> sr_state_before sr = state s1"
proof -
  note ex = tick_eq(1) [OF sch ok tp]
  have wf: "pool_wf S" using ok by (simp add: pool_ok_def)
  obtain x where x: "x \<in> set (items p)" "sr_fd sr = it_fd x" "0 < it_n_tokens x"
    "sr_state_before sr = (case it_phase x of Phase_DECODE \<Rightarrow> DECODE | Phase_PREFILL \<Rightarrow> PREFILL)"
    using refs_sound [OF ex wf sr(1)] by blast
  obtain s where s: "pool_find S (it_fd x) = Some s" "runnable s x" "session_of S x = s"
    using ex x(1) by (auto simp: executable_def session_of_def)
  have s1: "s1 = enacted s x" using enacted_pool_find [OF ex] x(1,2) s(3) sr(2) by auto
  then have "seq s1 = seq s" "sr_state_before sr = state s1"
    using x(4) s(2) by (auto simp: enacted_def runnable_def decode_ready_def prefill_ready_def split: Phase.splits)
  then show ?thesis using x s(1) s1 served_seq [OF m s(1,2)] by blast
qed

lemma served_ref:
  assumes sch: "sch_ok sch" and ok: "pool_ok cfg S" and tp: "tick_plan sch S = (p, m)" and m: "memory_ok cells c S"
    and x: "x \<in> set (items p)" "0 < it_n_tokens x" and s: "pool_find S (it_fd x) = Some s"
  obtains sr where "sr \<in> set (refs_of S 0 (items p))" and "sr_fd sr = it_fd x" and "distinct (map sr_fd (refs_of S 0 (items p)))"
    and "pool_find (enacted_pool S (items p)) (sr_fd sr) = Some (enacted s x)" and "0 \<le> seq s" and "seq (enacted s x) = seq s"
    and "sr_state_before sr = state (enacted s x)" and "rows_of S (items p) \<noteq> []"
proof -
  note ex = tick_eq(1) [OF sch ok tp]
  have wf: "pool_wf S" using ok by (simp add: pool_ok_def)
  have run: "runnable s x" "session_of S x = s" using ex x(1) s by (auto simp: executable_def session_of_def)
  have "item_rows (session_of S x) x \<noteq> []" using x(2) length_item_rows [OF run(1)] run(2) by auto
  then have rows: "rows_of S (items p) \<noteq> []" using x(1) by (auto simp: rows_of_def)
  have d: "distinct (map sr_fd (refs_of S 0 (items p)))"
    using subseq_distinct [OF refs_fds [OF ex wf]] ex by (auto simp: executable_def)
  obtain sr where sr: "sr \<in> set (refs_of S 0 (items p))" "sr_fd sr = it_fd x" using refs_complete [OF ex wf x] by (metis imageE)
  have s1: "pool_find (enacted_pool S (items p)) (sr_fd sr) = Some (enacted s x)"
    using enacted_pool_find [OF ex] x(1) run(2) sr(2) by auto
  from refs_sessions [OF sch ok tp m sr(1) s1] s sr(2) show ?thesis using that [OF sr d s1] rows by auto
qed

lemma enacted_room:
  assumes "sess_ok cfg s" and "runnable s x"
  shows "0 \<le> n_past (enacted s x) \<and> n_past (enacted s x) < INT_MAX"
  using sess_ok_room [OF assms(1)] runnable_remaining [of s x] assms(2)
  by (cases "it_phase x") (auto simp: enacted_def runnable_def prefill_ready_def)

context model_memory
begin

text \<open>A sequence that is fed nothing is left alone.\<close>

lemma unfed_memory:
  assumes L: "env_llama E = L" and sch: "sch_ok sch" and ok: "pool_ok cfg S" and tp: "tick_plan sch S = (p, m)"
    and mem: "memory_ok cells c S" and t: "tick E now_ns dur_ns sch c S = Inr (fds, sch', c', S')"
    and unfed: "\<And>x. x \<in> set (items p) \<Longrightarrow> 0 < it_n_tokens x \<Longrightarrow> seq (session_of S x) \<noteq> q"
  shows "cells c' q = cells c q"
proof (cases "rows_of S (items p) = []")
  case True
  then have "c' = c" using t by (simp add: tick_eq(5) [OF sch ok tp] Let_def)
  then show ?thesis by simp
next
  case False
  note ex = tick_eq(1) [OF sch ok tp]
  obtain c1 rc c2 where c1: "\<And>q. cells c1 q = cells c q"
    and dec: "llama_decode L c1 (append_rows empty_batch (rows_of S (items p))) = (rc, c2)"
    and bad: "rc \<noteq> 0 \<Longrightarrow> c' = c2 \<and> S' = fold fail_sample (refs_of S 0 (items p)) (enacted_pool S (items p))"
    and good: "rc = 0 \<Longrightarrow> \<exists>rng m. \<exists>st. st = fold (sample_step E (sch_config sch) now_ns) (refs_of S 0 (items p))
      (enacted_pool S (items p), c2, rng, m, []) \<and> S' = fst st \<and> c' = fst (snd st)"
    using tick_decoded [OF L sch ok tp t False] by metis
  have "seq (session_of S x) \<noteq> q" if x: "x \<in> set (items p)" "item_rows (session_of S x) x \<noteq> []" for x
  proof -
    have "runnable (session_of S x) x" using ex x(1) by (auto simp: executable_def session_of_def)
    then show ?thesis using length_item_rows [of "session_of S x" x] x unfed by force
  qed
  then have "filter (\<lambda>r. r_seq r = q) (rows_of S (items p)) = []" by (intro rows_other)
  then have "q \<notin> set (b_seq_id (append_rows empty_batch (rows_of S (items p))))" by (auto simp: filter_empty_conv empty_batch_def)
  from decode_other [OF dec this] have c2: "cells c2 q = cells c q" by (simp add: c1)
  have "0 \<le> seq s1 \<and> seq s1 \<noteq> q"
    if r: "sr \<in> set (refs_of S 0 (items p))" "pool_find (enacted_pool S (items p)) (sr_fd sr) = Some s1" for sr s1
    using refs_sessions [OF sch ok tp mem r] unfed by (fastforce simp: session_of_def)
  then have "cells c' q = cells c2 q" if "rc = 0"
    using good [OF that] samples_other [OF L, where samples = "refs_of S 0 (items p)" and q = q] by fastforce
  then show ?thesis using c2 bad by (cases "rc = 0") auto
qed

lemma served_in_step:
  assumes L: "env_llama E = L" and sch: "sch_ok sch" and ok: "pool_ok cfg S" and tp: "tick_plan sch S = (p, m)"
    and d: "seqs_distinct S" and mem: "memory_ok cells c S" and t: "tick E now_ns dur_ns sch c S = Inr (fds, sch', c', S')"
    and x: "x \<in> set (items p)" "0 < it_n_tokens x" and s: "pool_find S (it_fd x) = Some s"
    and s': "pool_find S' (it_fd x) = Some s'"
  shows "in_step (cells c' (seq s')) s' \<and> 0 \<le> seq s'"
proof -
  let ?refs = "refs_of S 0 (items p)" and ?S1 = "enacted_pool S (items p)"
  note ex = tick_eq(1) [OF sch ok tp]
  obtain sr where sr: "sr \<in> set ?refs" "sr_fd sr = it_fd x" "distinct (map sr_fd ?refs)"
    and s1: "pool_find ?S1 (sr_fd sr) = Some (enacted s x)"
    and q: "0 \<le> seq s" "seq (enacted s x) = seq s" "sr_state_before sr = state (enacted s x)" and rows: "rows_of S (items p) \<noteq> []"
    by (rule served_ref [OF sch ok tp mem x s])
  obtain c1 rc c2 where c1: "\<And>q. cells c1 q = cells c q"
    and dec: "llama_decode L c1 (append_rows empty_batch (rows_of S (items p))) = (rc, c2)"
    and bad: "rc \<noteq> 0 \<Longrightarrow> c' = c2 \<and> S' = fold fail_sample ?refs ?S1"
    and good: "rc = 0 \<Longrightarrow> \<exists>rng m. \<exists>st. st = fold (sample_step E (sch_config sch) now_ns) ?refs
      (?S1, c2, rng, m, []) \<and> S' = fst st \<and> c' = fst (snd st)"
    using tick_decoded [OF L sch ok tp t rows] by metis
  show ?thesis
  proof (cases "rc = 0")
    case False
    then have "pool_find S' (it_fd x) = Some (failed (enacted s x))"
      using fold_distinct_keys [where look = pool_find and key = sr_fd, OF fail_sample_find(1) fail_sample_find(2) sr(3)] bad sr s1 by fastforce
    then show ?thesis using s' q by (simp add: in_step_def failed_def)
  next
    case True
    note mid = served_memory [OF ex d mem s x c1 dec [unfolded True]]
    obtain rng mm st where st: "st = fold (sample_step E (sch_config sch) now_ns) ?refs (?S1, c2, rng, mm, [])" "S' = fst st" "c' = fst (snd st)"
      using good [OF True] by blast
    have "0 \<le> seq s2" if "y \<in> set ?refs" "pool_find ?S1 (sr_fd y) = Some s2" for y s2
      using refs_sessions [OF sch ok tp mem that] by auto
    with samples_memory [OF L sr(3), of "(?S1, c2, rng, mm, [])" "sch_config sch" now_ns] seqs_distinct_cong [OF enacted_pool_seq [OF ex] d]
    obtain v' where v': "seen cells st (sr_fd sr) = Some v'"
      "sample_mem (env_vocab E) (sch_config sch) now_ns sr (enacted s x, cells c2 (seq s)) v'"
      using sr(1) s1 q(2) st(1) by (fastforce simp: seen_def)
    then have v: "v' = (s', cells c' (seq s'))" using s' st(2,3) sr(2) by (simp add: seen_def)
    have "sess_ok cfg s" "runnable s x" using ok s ex x(1) by (auto simp: pool_ok_def executable_def)
    from sampled_in_step [OF mid q(3) conjunct1 [OF enacted_room [OF this]] conjunct2 [OF enacted_room [OF this]] v'(2) [unfolded v]]
    show ?thesis using v'(2) q by (auto simp: v sample_mem_def split: if_splits)
  qed
qed

text \<open>A tick keeps every session in step with its sequence, and leaves the sequences of no session alone.\<close>

lemma tick_memory:
  assumes L: "env_llama E = L" and E: "env_ok E" and sch: "sch_ok sch" and ok: "pool_ok cfg S"
    and d: "seqs_distinct S" and mem: "memory_ok cells c S" and t: "tick E now_ns dur_ns sch c S = Inr (fds, sch', c', S')"
  shows "memory_ok cells c' S'"
proof -
  obtain p m where tp: "tick_plan sch S = (p, m)" by fastforce
  have keys: "map fst S' = map fst S" using tick_keys [OF sch ok t] by (simp add: tick_pool_def)
  have "session_memory cells c' s'" if s': "pool_find S' f = Some s'" for f s'
  proof -
    have "f \<in> fst ` set S" using pool_find_key [OF s'] keys by (metis set_map)
    then obtain s where s: "pool_find S f = Some s" unfolding pool_find_def by (metis map_of_eq_None_iff not_None_eq)
    show ?thesis
    proof (cases "\<exists>x \<in> set (items p). it_fd x = f \<and> 0 < it_n_tokens x")
      case True
      then obtain x where x: "x \<in> set (items p)" "0 < it_n_tokens x" "f = it_fd x" by blast
      show ?thesis using served_in_step [OF L sch ok tp d mem t x(1,2) s [unfolded x(3)] s' [unfolded x(3)]] by (simp add: session_memory_def)
    next
      case False
      then have "pool_find S' f = Some s" using tick_idle [OF sch ok E tp t s] by (auto simp: tick_pool_def not_less)
      moreover have "cells c' (seq s) = cells c (seq s)"
        by (rule unfed_memory [OF L sch ok tp mem t]) (use False other_rows [OF tick_eq(1) [OF sch ok tp] d mem s] in blast)
      ultimately show ?thesis using s s' mem by (auto simp: memory_ok_def session_memory_def)
    qed
  qed
  then show ?thesis by (simp add: memory_ok_def)
qed

lemma tick_memory_fresh:
  assumes "env_llama E = L" and sch: "sch_ok sch" and ok: "pool_ok cfg S"
    and "memory_ok cells c S" and "tick E now_ns dur_ns sch c S = Inr (fds, sch', c', S')"
    and "\<And>f s. pool_find S f = Some s \<Longrightarrow> seq s \<noteq> q"
  shows "cells c' q = cells c q"
proof -
  obtain p m where tp: "tick_plan sch S = (p, m)" by fastforce
  have "seq (session_of S x) \<noteq> q" if "x \<in> set (items p)" for x
    using that tick_eq(1) [OF sch ok tp] assms(6) by (force simp: executable_def session_of_def)
  then show ?thesis by (intro unfed_memory [OF assms(1) sch ok tp assms(4,5)])
qed

end

end
