(* ===== verification/Daemon_Memory.thy ===== *)
theory Daemon_Memory
  imports Daemon_Isolation Daemon_Stream Tick_Memory
begin

text \<open>
  The model's memory over a run of the daemon: whatever connects, asks, leaves or times out, the
  sequence of every live session holds exactly what the session has fed, as long as no client
  sends a request into the middle of another. The last section shows what such a request breaks.
\<close>

section \<open>The invariant\<close>

text \<open>Sessions in step, and nothing in the sequences that have not been handed out.\<close>

definition d_memory :: "('c \<Rightarrow> int \<Rightarrow> (int \<times> int) list) \<Rightarrow> ('k, 'c, 'r) daemon \<Rightarrow> bool" where
  "d_memory cells d \<longleftrightarrow>
     (\<forall>f s. find_session (d_sm d) f = Some s \<longrightarrow> session_memory cells (d_ctx d) s) \<and>
     (\<forall>q. next_seq_id (d_sm d) \<le> q \<longrightarrow> cells (d_ctx d) q = [])"

text \<open>
  A client does not complete a frame while its session is working or has failed. What the
  \<open>read\<close>s of an event return is part of the event.
\<close>

definition busy :: "ClientSession \<Rightarrow> bool" where
  "busy s \<longleftrightarrow> state s = PREFILL \<or> state s = DECODE \<or> state s = ERRORED"

definition polite_event :: "('k, 'c, 'r) denv \<Rightarrow> PollEvent \<times> 'k io \<Rightarrow> ('k, 'c, 'r) daemon \<Rightarrow> bool" where
  "polite_event D = (\<lambda>(ev, io) d.
     readable ev \<and> ev_fd ev \<noteq> de_server D \<longrightarrow>
       (case find_session (d_sm d) (ev_fd ev) of
          None \<Rightarrow> True
        | Some s \<Rightarrow>
            busy s \<longrightarrow> snd (io_reads io) = Read_Error \<or>
              try_read_frame (rx s @ concat (fst (io_reads io))) kDefaultMaxFrameBytes = NeedMore))"

fun polite_events :: "('k, 'c, 'r) denv \<Rightarrow> (PollEvent \<times> 'k io) list \<Rightarrow> ('k, 'c, 'r) daemon \<Rightarrow> bool" where
  "polite_events D [] d = True"
| "polite_events D (x # evs) d = (polite_event D x d \<and> polite_events D evs (handle_event D x d))"

fun polite_run :: "('k, 'c, 'r) denv \<Rightarrow> 'k wakeup list \<Rightarrow> ('k, 'c, 'r) daemon \<Rightarrow> bool" where
  "polite_run D [] d = True"
| "polite_run D (w # ws) d =
     (w_shutdown w \<or>
      (case wake d w of
         (nev, evs) \<Rightarrow>
           if nev < 0 then w_errno w = EINTR \<longrightarrow> polite_run D ws d
           else
             polite_events D evs d \<and>
             (case iterate D evs (w_idle w) (w_tick w) (w_dur w) d of Inl _ \<Rightarrow> True | Inr d' \<Rightarrow> polite_run D ws d')))"

section \<open>One session\<close>

text \<open>Memory depends on these fields only.\<close>

lemma session_memory_cong:
  assumes "seq s' = seq s" and "state s' = state s" and "n_past s' = n_past s" and "prefill_idx s' = prefill_idx s"
    and "prompt_tokens s' = prompt_tokens s" and "has_pending_tok s' = has_pending_tok s"
  shows "session_memory cells c s' = session_memory cells c s"
  using assms by (cases "state s") (simp_all add: session_memory_def in_step_def)

lemma session_memory_idle:
  assumes "state s' \<noteq> PREFILL" and "state s' \<noteq> DECODE" and "state s' \<noteq> ERRORED"
  shows "session_memory cells c s' \<longleftrightarrow> (0 \<le> seq s' \<longrightarrow> cells c (seq s') = [])"
  using assms by (cases "state s'") (auto simp: session_memory_def in_step_def)

lemma on_session_waits:
  assumes "on_session P cfg vocab now_ns chunks fin next_id s = ((s', rr), n)"
    and "fin = Read_Error \<or> try_read_frame (rx s @ concat chunks) kDefaultMaxFrameBytes = NeedMore"
  shows "same_work s s'" "n = next_id" "\<not> admin_request rr" "\<not> wants_write rr"
proof -
  define s2 where "s2 = (if fin = Read_Eof then (drain_reads chunks now_ns s)\<lparr>read_closed := True, last_activity_ns := now_ns\<rparr>
     else drain_reads chunks now_ns s)"
  define rr2 where "rr2 = (if fin = Read_Eof then no_result\<lparr>removed_read := True\<rparr> else no_result)"
  have w: "same_work s s2" "same_work s (drain_reads chunks now_ns s)" "rx s2 = rx s @ concat chunks"
    by (simp_all add: s2_def same_work_def drain_reads_keeps)
  have r: "s' = drain_reads chunks now_ns s \<and> rr = no_result\<lparr>removed_read := True\<rparr> \<and> n = next_id \<or> s' = s2 \<and> rr = rr2 \<and> n = next_id"
  proof (cases "fin = Read_Error")
    case True
    then show ?thesis using assms(1) by (auto simp: on_session_def Let_def)
  next
    case False
    then show ?thesis using assms w(3) on_session_frame [OF False s2_def rr2_def] by auto
  qed
  then show "same_work s s'" "n = next_id" "\<not> admin_request rr" "\<not> wants_write rr"
    using w by (auto simp: rr2_def no_result_def split: if_splits)
qed

lemma on_session_admin:
  assumes "on_session P cfg vocab now_ns chunks fin next_id s = ((s', rr), n)" and "admin_request rr"
  shows "state s' = STREAM"
proof (cases "fin = Read_Error")
  case True
  then show ?thesis using assms by (auto simp: on_session_def Let_def no_result_def)
next
  case False
  note eq = assms(1) [unfolded on_session_frame [OF False refl refl]]
  show ?thesis using eq assms(2)
    by (auto simp: no_result_def reject_def handle_request_def start_request_def Let_def split: frame_result.splits if_splits prod.splits)
qed

text \<open>A polite read leaves a session in step; a new sequence starts empty.\<close>

lemma on_session_memory:
  assumes o: "on_session P cfg vocab now_ns chunks fin next_id s = ((s', rr), n)" and m: "session_memory cells c s"
    and p: "busy s \<Longrightarrow> fin = Read_Error \<or> try_read_frame (rx s @ concat chunks) kDefaultMaxFrameBytes = NeedMore"
    and fresh: "cells c next_id = []" and "0 \<le> next_id"
  shows "session_memory cells c s'"
proof (cases "busy s")
  case True
  then have "same_work s s'" using on_session_waits(1) [OF o] p by blast
  then show ?thesis using m by (subst session_memory_cong [of s' s]) (auto simp: same_work_def)
next
  case False
  then have e: "0 \<le> seq s \<longrightarrow> cells c (seq s) = []" using m session_memory_idle [of s cells c] by (auto simp: busy_def)
  from on_session_outcome [OF o] consider "same_work s s'" | "request_outcome cfg vocab next_id s s' n" by blast
  then show ?thesis
  proof cases
    case 1
    then show ?thesis using m by (subst session_memory_cong [of s' s]) (auto simp: same_work_def)
  next
    case 2
    then show ?thesis
    proof (cases rule: request_outcome.cases)
      case answered
      then show ?thesis using e by (simp add: session_memory_idle)
    next
      case (started prompt)
      then show ?thesis using e fresh assms(5) by (auto simp: session_memory_def in_step_def)
    qed
  qed
qed

section \<open>The handlers\<close>

lemma d_memory_upd:
  assumes "d_memory cells d" and "\<And>s. find_session (d_sm d) f = Some s \<Longrightarrow> session_memory cells (d_ctx d) (g s)"
  shows "d_memory cells (upd_session f g d)"
proof -
  have "next_seq_id (d_sm (upd_session f g d)) = next_seq_id (d_sm d)" by (simp add: upd_session_def split: option.split)
  then show ?thesis using assms by (auto simp: d_memory_def find_upd split: if_splits)
qed

lemma d_memory_poller [simp]:
  "d_memory cells (d_add D f fl d) = d_memory cells d" "d_memory cells (d_remove D f fl d) = d_memory cells d"
  "d_memory cells (arm D f d) = d_memory cells d"
  by (simp_all add: d_memory_def arm_def split: option.split)

lemma reset_memory: "state s = STREAM \<Longrightarrow> session_memory cells c s \<Longrightarrow> session_memory cells c (reset_session s)"
  by (simp add: session_memory_idle reset_session_def)

lemma write_now_memory: "session_memory cells c (write_now w s) = session_memory cells c s"
  by (rule session_memory_cong) (simp_all add: write_now_def split: write_result.split)

lemma drain_memory: "session_memory cells c (fst (drain_tx now_ns ws s)) = session_memory cells c s"
proof (induction now_ns ws s rule: drain_tx.induct)
  case (2 now_ns w ws s)
  have "session_memory cells c (s\<lparr>tx := t, last_activity_ns := a\<rparr>) = session_memory cells c s" for t a
    by (rule session_memory_cong) simp_all
  then show ?case using 2 by (cases w) auto
qed simp

lemma upd_seqs:
  assumes "\<And>s. find_session (d_sm d) f = Some s \<Longrightarrow> seq (g s) = seq s" and "seqs_distinct (sm_sessions (d_sm d))"
  shows "seqs_distinct (sm_sessions (d_sm (upd_session f g d)))"
  by (rule seqs_distinct_cong [OF _ assms(2)])
    (use assms(1) in \<open>auto simp: upd_session_def find_session_def pool_simps split: option.split\<close>)

lemma d_ok_seqs: "d_ok D d \<Longrightarrow> seqs_distinct (sm_sessions (d_sm d))"
  unfolding d_ok_def sm_ok_def seq_ok_def seqs_distinct_def by blast

lemma close_seqs: "seqs_distinct (sm_sessions (d_sm d)) \<Longrightarrow> seqs_distinct (sm_sessions (d_sm (d_close D f d)))"
  using close_find [of D f d] unfolding seqs_distinct_def find_session_def by (metis option.distinct(1))

lemma read_answer_memory:
  assumes D: "denv_ok D" and d: "d_ok D d" and room: "next_seq_id (d_sm d) < INT_MAX" and m: "d_memory cells d"
    and p: "\<And>s. find_session (d_sm d) f = Some s \<Longrightarrow> busy s \<Longrightarrow> snd (io_reads io) = Read_Error \<or>
      try_read_frame (rx s @ concat (fst (io_reads io))) kDefaultMaxFrameBytes = NeedMore"
    and a: "read_answer D f io d = (d3, wants)"
  shows "d_memory cells d3"
proof -
  obtain sm rr where r: "on_readable (env_platform (de_env D)) f (de_cfg D) (Some (env_vocab (de_env D))) (io_now io)
             (fst (io_reads io)) (snd (io_reads io)) (d_sm d) = (sm, rr)" by fastforce
  show ?thesis using r
  proof (cases rule: on_readable_cases)
    case absent
    then show ?thesis using a m by (simp add: read_answer_def r)
  next
    case (present s s' n)
    note o = present(2) and find = present(4)
    have nid: "next_seq_id sm = n" using present(3) by simp
    have nx: "1 \<le> next_seq_id (d_sm d)" using d by (simp add: d_ok_def sm_ok_def seq_ok_def)
    have s': "session_memory cells (d_ctx d) s'"
      by (rule on_session_memory [OF o _ p [OF present(1)]]) (use m present(1) nx in \<open>auto simp: d_memory_def\<close>)
    have "i32 (next_seq_id (d_sm d) + 1) = next_seq_id (d_sm d) + 1" using nx room by (intro i32_id) simp_all
    then have "next_seq_id (d_sm d) \<le> n" using on_session_outcome [OF o] by (auto elim!: request_outcome.cases)
    then have m1: "d_memory cells (d\<lparr>d_sm := sm\<rparr>)"
      using m s' nid by (auto simp: d_memory_def find split: if_splits)
    have "d_memory cells (answer_admin D f (d\<lparr>d_sm := sm\<rparr>))" if "admin_request rr"
      unfolding answer_admin_def Let_def d_memory_poller
    proof (rule d_memory_upd [OF m1])
      fix t assume "find_session (d_sm (d\<lparr>d_sm := sm\<rparr>)) f = Some t"
      then have "t = s'" by (simp add: find)
      then show "session_memory cells (d_ctx (d\<lparr>d_sm := sm\<rparr>)) (t\<lparr>tx := x, state := STREAM, read_closed := True\<rparr>)" for x
        using s' on_session_admin [OF o that] by (simp add: session_memory_idle)
    qed
    then show ?thesis using a m1 by (auto simp: read_answer_def r Let_def split: option.splits if_splits)
  qed
qed

context model_memory
begin

lemma close_keeps_memory:
  assumes L: "env_llama (de_env D) = L" and d: "seqs_distinct (sm_sessions (d_sm d))" and m: "d_memory cells d"
  shows "d_memory cells (d_close D f d)"
proof -
  have nx: "next_seq_id (d_sm (d_close D f d)) = next_seq_id (d_sm d)"
    by (simp add: d_close_def close_session_def Let_def split: option.split)
  show ?thesis
  proof (cases "find_session (d_sm d) f")
    case None
    then have "d_ctx (d_close D f d) = d_ctx d" by (simp add: d_close_def close_session_def find_session_def Let_def)
    then show ?thesis using m nx by (auto simp: d_memory_def close_find)
  next
    case (Some s)
    have c: "cells (d_ctx (d_close D f d)) q = (if 0 \<le> seq s \<and> q = seq s then [] else cells (d_ctx d) q)" for q
      using Some by (simp add: d_close_def close_session_def find_session_def Let_def L rm_cells)
    have "session_memory cells (d_ctx (d_close D f d)) t" if t: "find_session (d_sm d) g = Some t" "g \<noteq> f" for g t
    proof -
      have "0 \<le> seq s \<longrightarrow> seq t \<noteq> seq s" using d Some t unfolding seqs_distinct_def find_session_def by metis
      then have "cells (d_ctx (d_close D f d)) (seq t) = cells (d_ctx d) (seq t)" by (auto simp: c)
      then show ?thesis using m t(1) by (auto simp: d_memory_def session_memory_def)
    qed
    then show ?thesis using m nx c by (auto simp: d_memory_def close_find)
  qed
qed

lemma finish_read_memory:
  assumes L: "env_llama (de_env D) = L" and d: "seqs_distinct (sm_sessions (d_sm d))" and m: "d_memory cells d"
  shows "d_memory cells (finish_read D f d)"
proof -
  have "d_memory cells (upd_session f reset_session d)" if "find_session (d_sm d) f = Some s" "state s = STREAM" for s
    using that m by (intro d_memory_upd) (auto simp: d_memory_def intro: reset_memory)
  then show ?thesis using m close_keeps_memory [OF L d m] by (auto simp: finish_read_def split: option.split)
qed

lemma client_write_memory:
  assumes L: "env_llama (de_env D) = L" and d: "seqs_distinct (sm_sessions (d_sm d))" and m: "d_memory cells d"
  shows "d_memory cells (on_client_write D f io d)"
proof (cases "find_session (d_sm d) f")
  case None
  then show ?thesis using m by (simp add: on_client_write_def)
next
  case (Some s)
  obtain s' broken where dr: "drain_tx (io_now io) (io_writes io) s = (s', broken)" by fastforce
  let ?d1 = "upd_session f (\<lambda>_. s') d"
  let ?d2 = "d_remove D f PollFlags_Write ?d1"
  have s': "session_memory cells (d_ctx d) s'" "seq s' = seq s"
    using drain_memory [of cells "d_ctx d" "io_now io" "io_writes io" s] drain_tx_keeps [of "io_now io" "io_writes io" s] dr m Some
    by (simp_all add: d_memory_def)
  have m1: "d_memory cells ?d1" by (rule d_memory_upd [OF m]) (rule s'(1))
  have d1: "seqs_distinct (sm_sessions (d_sm ?d1))" by (rule upd_seqs [OF _ d]) (use Some s'(2) in simp)
  have "d_memory cells (upd_session f reset_session ?d2)" if "state s' = STREAM"
    using that m1 s'(1) Some by (intro d_memory_upd) (auto simp: find_upd intro: reset_memory)
  then show ?thesis
    using m1 close_keeps_memory [OF L d1 m1] close_keeps_memory [OF L, of ?d2] d1
    by (auto simp: on_client_write_def Some dr Let_def)
qed

lemma client_read_memory:
  assumes L: "env_llama (de_env D) = L" and D: "denv_ok D" and d: "d_ok D d" and room: "next_seq_id (d_sm d) < INT_MAX"
    and m: "d_memory cells d"
    and p: "\<And>s. find_session (d_sm d) f = Some s \<Longrightarrow> busy s \<Longrightarrow> snd (io_reads io) = Read_Error \<or>
      try_read_frame (rx s @ concat (fst (io_reads io))) kDefaultMaxFrameBytes = NeedMore"
  shows "d_memory cells (on_client_read D f io d)"
proof -
  obtain d3 wants where a: "read_answer D f io d = (d3, wants)" by fastforce
  have ok3: "d_ok D d3" using d_ok_read_answer [OF D d room, of f io] a by simp
  have m3: "d_memory cells d3" by (rule read_answer_memory [OF D d room m p a])
  have "d_memory cells (upd_session f (write_now (io_write io)) d3)"
    using m3 by (intro d_memory_upd) (auto simp: d_memory_def write_now_memory)
  moreover have "seqs_distinct (sm_sessions (d_sm (upd_session f (write_now (io_write io)) d3)))"
    by (rule upd_seqs [OF _ d_ok_seqs [OF ok3]]) (simp add: write_now_def split: write_result.split)
  ultimately show ?thesis using m3 finish_read_memory [OF L] by (simp add: on_client_read_def a)
qed

end

section \<open>The loop\<close>

lemma accept_memory:
  assumes "denv_ok D" and "d_ok D d" and "d_memory cells d" and "ev_fd ev = de_server D" and "readable ev"
  shows "d_memory cells (on_accept D io d)"
proof -
  have "d_ctx (on_accept D io d) = d_ctx d" "next_seq_id (d_sm (on_accept D io d)) = next_seq_id (d_sm d)"
    using d_ok_accept [OF assms(1,2), of io] by (auto simp: on_accept_def Let_def split: prod.split)
  moreover have "session_memory cells c (new_session\<lparr>fd := g, ctx := None, last_activity_ns := n\<rparr>)" for c g n
    by (simp add: session_memory_def new_session_def)
  ultimately show ?thesis
    using assms(3) accept_find [OF assms(1,2,4,5), of io] by (auto simp: d_memory_def split: if_splits)
qed

context model_memory
begin

lemma event_memory:
  assumes "env_llama (de_env D) = L" and "denv_ok D" and "d_ok D d" and "next_seq_id (d_sm d) < INT_MAX" and "d_memory cells d"
    and "polite_event D x d"
  shows "d_memory cells (handle_event D x d)"
proof -
  obtain ev io where x: "x = (ev, io)" by fastforce
  have "d_memory cells (on_client_read D (ev_fd ev) io d)" if "readable ev" "ev_fd ev \<noteq> de_server D"
    by (rule client_read_memory [OF assms(1-5)]) (use that assms(6) in \<open>auto simp: polite_event_def x\<close>)
  then show ?thesis
    using accept_memory [OF assms(2,3,5)] client_write_memory [OF assms(1) d_ok_seqs [OF assms(3)] assms(5)] assms(5)
    by (auto simp: handle_event_def x)
qed

lemma events_memory:
  assumes "env_llama (de_env D) = L" and "denv_ok D" and "d_ok D d" and "next_seq_id (d_sm d) + int (length evs) \<le> INT_MAX"
    and "d_memory cells d" and "polite_events D evs d"
  shows "d_memory cells (fold (handle_event D) evs d)"
  using assms(3-)
proof (induction evs arbitrary: d)
  case (Cons x evs)
  have room: "next_seq_id (d_sm d) < INT_MAX" using Cons.prems(2) by simp
  note ok = d_ok_event [OF assms(2) Cons.prems(1) room, of x]
  have m: "d_memory cells (handle_event D x d)"
    by (rule event_memory [OF assms(1,2) Cons.prems(1) room Cons.prems(3)]) (use Cons.prems(4) in simp)
  have "next_seq_id (d_sm (handle_event D x d)) + int (length evs) \<le> INT_MAX" using ok Cons.prems(2) by simp
  from Cons.IH [OF conjunct1 [OF ok] this m] show ?case using Cons.prems(4) by simp
qed simp

lemma idle_memory:
  assumes "env_llama (de_env D) = L" and "seqs_distinct (sm_sessions (d_sm d))" and "d_memory cells d"
  shows "d_memory cells (close_idle D now d)"
proof -
  have "d_memory cells (fold (d_close D) fs d)" for fs
    using assms(2,3)
  proof (induction fs arbitrary: d)
    case (Cons f fs)
    show ?case using Cons.IH [OF close_seqs [OF Cons.prems(1)] close_keeps_memory [OF assms(1) Cons.prems]] by simp
  qed simp
  then show ?thesis by (simp add: close_idle_def)
qed

lemma tick_and_arm_memory:
  assumes L: "env_llama (de_env D) = L" and D: "denv_ok D" and d: "d_ok D d" and m: "d_memory cells d"
    and t: "tick_and_arm D now dur d = Inr d'"
  shows "d_memory cells d'"
proof -
  let ?S = "sm_sessions (d_sm d)"
  have sch: "sch_ok (d_sched d)" and E: "env_ok (de_env D)" and ok: "pool_ok (sch_config (d_sched d)) ?S"
    and lt: "\<And>f s. pool_find ?S f = Some s \<Longrightarrow> seq s < next_seq_id (d_sm d)"
    using d D by (auto simp: d_ok_def denv_ok_def sm_ok_def seq_ok_def)
  obtain fds sch' c' S' where tk: "tick (de_env D) now dur (d_sched d) (d_ctx d) ?S = Inr (fds, sch', c', S')"
    using tick_Inr [OF sch ok, of "de_env D" now dur "d_ctx d"] by blast
  have mem: "memory_ok cells (d_ctx d) ?S" using m by (simp add: d_memory_def memory_ok_def find_session_def)
  have "d_memory cells (fold (arm D) fds e) = d_memory cells e" for e by (induction fds arbitrary: e) simp_all
  moreover have "memory_ok cells c' S'" by (rule tick_memory [OF L E sch ok d_ok_seqs [OF d] mem tk])
  moreover have "cells c' q = []" if "next_seq_id (d_sm d) \<le> q" for q
    using tick_memory_fresh [OF L sch ok mem tk, of q] lt m that by (force simp: d_memory_def)
  ultimately show ?thesis
    using t by (auto simp: tick_and_arm_def tk) (auto simp: d_memory_def memory_ok_def find_session_def)
qed

lemma run_memory:
  assumes L: "env_llama (de_env D) = L" and D: "denv_ok D" and "d_ok D d" and "turns_ok n ws"
    and "next_seq_id (d_sm d) + int (sum_list (map n ws)) \<le> INT_MAX" and "d_memory cells d"
    and "polite_run D ws d" and "main_loop D ws d = Inr (r, d')"
  shows "d_memory cells d'"
  using assms(3-)
proof (induction ws arbitrary: d)
  case (Cons w ws)
  obtain nev evs where w: "wake d w = (nev, evs)" by fastforce
  from turn_room [OF D Cons.prems(1-3) w] obtain d1 where
    d1: "iterate D evs (w_idle w) (w_tick w) (w_dur w) d = Inr d1" "d_ok D d1" "turns_ok n ws"
      "next_seq_id (d_sm d) + int (length evs) \<le> INT_MAX" "next_seq_id (d_sm d) + int (sum_list (map n ws)) \<le> INT_MAX"
      "next_seq_id (d_sm d1) + int (sum_list (map n ws)) \<le> INT_MAX"
    by blast
  have "d_memory cells d1" if p: "polite_events D evs d"
  proof -
    note e = events_memory [OF L D Cons.prems(1) d1(4) Cons.prems(4) p] and o = d_ok_events [OF D Cons.prems(1) d1(4)]
    show ?thesis
      by (rule tick_and_arm_memory [OF L D keeps_idle [OF o] idle_memory [OF L d_ok_seqs [OF o] e] d1(1) [unfolded iterate_def]])
  qed
  then show ?case
    using Cons.IH [OF d1(2,3,6)] Cons.IH [OF Cons.prems(1) d1(3,5) Cons.prems(4)] Cons.prems(4-6)
    by (auto simp: w d1(1) split: if_splits)
qed simp

end

section \<open>From start-up on\<close>

lemma start_up_context:
  assumes "start_up H E argv = Inr (D, d)"
  shows "\<exists>m P. llama_init_from_model (h_loader H) m P = Some (d_ctx d)" and "env_llama (de_env D) = h_llama H"
  using assms
  by (auto simp: start_up_def new_context_def boot_def Let_def split: sum.splits option.splits prod.splits if_splits) blast

text \<open>
  C7. The model's memory mirrors the sessions: for any llama.cpp that keeps its sequences as
  documented and any run after start-up in which no client sends a request into the middle of
  another, the sequence of a working session holds positions 0, 1, 2, ... without a gap, exactly as many as
  the session's \<open>n_past\<close> says (one more in a session whose last token got no logits), and starts
  with the part of its prompt that has been read; the sequence of a session between requests is empty.
\<close>

theorem memory_mirrors_sessions:
  assumes "model_memory (h_llama H) cells" and "\<forall>m P c. llama_init_from_model (h_loader H) m P = Some c \<longrightarrow> cells c = (\<lambda>_. [])"
    and "host_ok H" and "from_args E argv = Inr cfg" and "\<And>m. limits_ok cfg (h_get_vocab H m)"
    and "start_up H E argv = Inr (D, d)" and "turns_ok n ws" and "1 + int (sum_list (map n ws)) \<le> INT_MAX"
    and "polite_run D ws d" and "main_loop D ws d = Inr (r, d')" and "find_session (d_sm d') f = Some s"
    and "ks = cells (d_ctx d') (seq s)"
  shows "if state s = PREFILL \<or> state s = DECODE then
      0 \<le> seq s \<and> map fst ks = map int [0..<length ks] \<and>
      int (length ks) = n_past s + (if state s = DECODE \<and> \<not> has_pending_tok s then 1 else 0) \<and>
      prefix (take (prefill_idx s) (prompt_tokens s)) (map snd ks)
    else state s = ERRORED \<or> seq s < 0 \<or> ks = []"
proof -
  note ok = start_up_ok [OF assms(3,4,5,6)] and c = start_up_context [OF assms(6)]
  have room: "next_seq_id (d_sm d) + int (sum_list (map n ws)) \<le> INT_MAX" using assms(8) ok(3) by simp
  have "cells (d_ctx d) = (\<lambda>_. [])" using c(1) assms(2) by blast
  then have "d_memory cells d" using ok(4) by (simp add: d_memory_def find_session_def pool_find_def)
  from model_memory.run_memory [OF assms(1) c(2) ok(1,2) assms(7) room this assms(9,10)]
  have "session_memory cells (d_ctx d') s" using assms(11) by (simp add: d_memory_def)
  then show ?thesis unfolding assms(12)
    by (cases "state s") (auto simp: session_memory_def in_step_def split: if_splits)
qed

section \<open>A request in the middle of another\<close>

text \<open>
  The manager does not look at the session's state: a request that arrives while a session decodes restarts
  it at position 0 in the same sequence, whose old contents stay.
\<close>

lemma restart_out_of_step:
  assumes "on_session P cfg vocab now_ns chunks fin next_id s = ((s', rr), n)" and "state s = DECODE" and "0 \<le> seq s"
    and "ks \<noteq> []" and "state s' = PREFILL"
  shows "seq s' = seq s \<and> n_past s' = 0 \<and> \<not> in_step ks s'"
  using on_session_outcome [OF assms(1)] assms(2-5)
  by (auto simp: same_work_def in_step_def elim!: request_outcome.cases)

section \<open>A model that remembers\<close>

definition cell_llama :: "(int \<Rightarrow> (int \<times> int) list) llama" where
  "cell_llama =
     \<lparr>llama_n_batch = (\<lambda>_. 32), llama_decode = (\<lambda>c b. (0, \<lambda>q. c q @ batch_cells b q)),
      llama_get_logits_ith = (\<lambda>c i. Some (replicate 258 (Fin 0))),
      llama_memory_seq_rm = (\<lambda>c q p0 p1. if 0 \<le> q then c(q := []) else (\<lambda>_. [])), llama_perf_context_reset = (\<lambda>c. c),
      llama_perf_context = (\<lambda>c. \<lparr>t_eval_ms = Fin 0, t_p_eval_ms = Fin 0, n_eval = 0, n_p_eval = 0\<rparr>)\<rparr>"

interpretation remembering: model_memory cell_llama "\<lambda>c. c"
  by unfold_locales (auto simp: cell_llama_def batch_cells_def filter_empty_conv dest!: set_zip_rightD)

definition memory_host :: "(unit, unit, unit, set_queue, int \<Rightarrow> (int \<times> int) list, nat) host" where
  "memory_host =
     \<lparr>h_loader =
        \<lparr>llama_model_default_params = llama_model_default_params (h_loader demo_host),
         llama_context_default_params = llama_context_default_params (h_loader demo_host),
         LLAMA_FLASH_ATTN_TYPE_AUTO = - 1, llama_model_load_from_file = (\<lambda>_ _. Some ()), llama_init_from_model = (\<lambda>_ _. Some (\<lambda>_. []))\<rparr>,
      h_get_vocab = (\<lambda>_. byte_vocab), h_llama = cell_llama, h_exists = (\<lambda>_. Some True), h_uds = h_uds demo_host, h_open = h_open demo_host,
      h_kqueue = 4, h_kernel = set_kernel, h_k0 = h_k0 demo_host, h_platform = demo_platform, h_psort = full_sort,
      h_uniform = demo_uniform, h_seed = 0, h_ld = f64, h_rehash = (\<lambda>p. p)\<rparr>"

lemma memory_host_ok: "host_ok memory_host"
  by (simp add: host_ok_def memory_host_def cell_llama_def sorts_logits_def byte_vocab_def)

lemma memory_host_limits: "limits_ok (default_config\<lparr>model_path := p\<rparr>) (h_get_vocab memory_host m)"
  using demo_host_limits [of p m] by (simp add: demo_host_def memory_host_def)

lemma memory_start: "\<exists>D d. start_up memory_host (\<lambda>_. None) demo_argv = Inr (D, d)"
  by (simp add: start_up_def check_args_def demo_args memory_host_def demo_host_def new_model_def new_context_def open_listen_def open_socket_def
      new_server_def new_poller_def default_config_def boot_def Let_def)

theorem memory_mirrors_sessions_witness:
  "\<exists>D d r d' s. start_up memory_host (\<lambda>_. None) demo_argv = Inr (D, d) \<and> main_loop D [hd demo_turns] d = Inr (r, d') \<and>
     find_session (d_sm d') 7 = Some s \<and> (state s = ERRORED \<or> seq s < 0 \<or> d_ctx d' (seq s) = [])"
proof -
  obtain D d where st: "start_up memory_host (\<lambda>_. None) demo_argv = Inr (D, d)" using memory_start by blast
  have j: "just_started D d"
    by (rule boot_just_started [OF memory_host_ok memory_host_limits _ _ st]) (simp_all add: memory_host_def demo_host_def)
  from client_arrives [OF j] obtain d1 where d1: "iterate D [(\<lparr>ev_fd = 3, ev_f = PollFlags_Read\<rparr>, demo_io)] 20 21 1000 d = Inr d1"
    "sm_sessions (d_sm d1) = [(7, fresh_client)]" by blast
  have turn: "\<not> w_shutdown (hd demo_turns)" "w_idle (hd demo_turns) = 20" "w_tick (hd demo_turns) = 21" "w_dur (hd demo_turns) = 1000"
    by (simp_all add: demo_turns_def)
  have loop: "main_loop D [hd demo_turns] d = Inr (None, d1)" using turn d1(1) by (simp add: client_wakes)
  have p: "polite_run D [hd demo_turns] d"
    using j by (simp add: client_wakes polite_event_def just_started_def turn split: sum.split)
  have f: "find_session (d_sm d1) 7 = Some fresh_client" using d1(2) by (simp add: find_session_def pool_find_def)
  have ok: "turns_ok (\<lambda>_. 1) [hd demo_turns]" "1 + int (sum_list (map (\<lambda>_. 1) [hd demo_turns])) \<le> INT_MAX"
    by (simp_all add: turns_ok_def demo_turns_def INT_MAX_def)
  have mem: "model_memory (h_llama memory_host) (\<lambda>c. c)" using remembering.model_memory_axioms by (simp add: memory_host_def)
  have init: "\<forall>m P c. llama_init_from_model (h_loader memory_host) m P = Some c \<longrightarrow> c = (\<lambda>_. [])" by (auto simp: memory_host_def)
  from memory_mirrors_sessions [where H = memory_host and cells = "\<lambda>c. c", OF mem init memory_host_ok demo_args memory_host_limits st ok p loop f refl]
  show ?thesis using st loop f by (auto simp: fresh_client_def new_session_def)
qed

end
