(* ===== verification/Cli.thy ===== *)
theory Cli
  imports Session_Manager
begin

text \<open>
  The command-line client, \<open>src/src/cli/main.cpp\<close>: option parsing, the request it builds by
  hand, the send loop and the loop that receives and prints events. What the system calls
  return is an input: a write accepts part of the data, a read returns part of the bytes the
  server sent and end of file when they are used up. A run whose inputs are used up is still
  waiting (\<open>None\<close>).
\<close>

section \<open>Options\<close>

text \<open>
  The two \<open>double\<close> options are a sign bit and a value: \<open>std::to_string\<close> prints the sign
  of a zero.
\<close>

record CliOptions =
  opt_socket_path :: string
  opt_id :: string
  opt_prompt :: string
  opt_max_tokens :: int
  opt_temperature :: "bool \<times> fl"
  opt_top_p :: "bool \<times> fl"
  has_temperature :: bool
  has_top_p :: bool
  opt_stream :: bool
  opt_metrics :: bool

definition default_options :: CliOptions where
  "default_options =
     \<lparr>opt_socket_path = ''/tmp/uma.sock'', opt_id = [], opt_prompt = [], opt_max_tokens = - 1,
      opt_temperature = (False, Fin 0), opt_top_p = (False, Fin 1), has_temperature = False, has_top_p = False,
      opt_stream = True, opt_metrics = False\<rparr>"

datatype cli_out = Stdout string | Stderr string | Perror string

definition newline :: string where
  "newline = [CHR 0x0A]"

definition print_usage :: "string \<Rightarrow> cli_out list" where
  "print_usage argv0 =
     [Stderr (''uma-cli - UMA Serve client (UDS, framed JSON)'' @ newline @ ''Usage: '' @ argv0 @
       '' --prompt 'text' [--socket /tmp/uma.sock] [--id req-1] [--max-tokens N] [--temp T] [--top-p P] [--no-stream] [--metrics]'' @
       newline)]"

definition gen_default_id :: "int \<Rightarrow> int \<Rightarrow> string" where
  "gen_default_id pid t = ''req-'' @ string_of_int pid @ ''-'' @ string_of_int t"

text \<open>
  \<open>std::atof\<close>: white space, a sign, then infinity, not-a-number, a hexadecimal or a decimal
  literal; zero when there is none.
\<close>

definition hex_val :: "char \<Rightarrow> nat" where
  "hex_val c =
     (let n = (of_char (tolower c) :: nat) in if n \<le> 57 then n - 48 else n - 87)"

definition hex_num :: "string \<Rightarrow> nat" where
  "hex_num ds = foldl (\<lambda>a c. 16 * a + hex_val c) 0 ds"

definition bin_exponent :: "string \<Rightarrow> int" where
  "bin_exponent s =
     (case s of
        c # r \<Rightarrow>
          if tolower c = CHR ''p'' then
            (case split_sign r of (neg, ds) \<Rightarrow>
               let v = int (dec_val (takeWhile is_digit ds)) in if neg then - v else v)
          else 0
      | [] \<Rightarrow> 0)"

definition strtod_hex :: "string \<Rightarrow> rat option" where
  "strtod_hex r =
     (let whole = takeWhile is_hex r;
          r1 = dropWhile is_hex r;
          frac = (case r1 of c # r2 \<Rightarrow> if c = CHR ''.'' then takeWhile is_hex r2 else [] | [] \<Rightarrow> []);
          r3 = (case r1 of c # r2 \<Rightarrow> if c = CHR ''.'' then dropWhile is_hex r2 else r1 | [] \<Rightarrow> [])
      in if whole @ frac = [] then None
         else Some (of_nat (hex_num (whole @ frac)) * 2 powi (bin_exponent r3 - 4 * int (length frac))))"

definition atof :: "string \<Rightarrow> bool \<times> fl" where
  "atof s =
     (let s1 = dropWhile is_space s;
          (neg, r) = split_sign s1;
          low = map tolower r;
          decimal = (case strtod s1 of None \<Rightarrow> (False, Fin 0) | Some v \<Rightarrow> (neg, v))
      in if prefix ''inf'' low then (neg, if neg then NInf else PInf)
         else if prefix ''nan'' low then (neg, NaN)
         else if prefix ''0x'' low then
           (case strtod_hex (drop 2 r) of
              None \<Rightarrow> decimal
            | Some v \<Rightarrow> (neg, fround f64 (if neg then - v else v)))
         else decimal)"

text \<open>
  The loop over \<open>argv\<close> from index 1. A flag that needs a value and has none falls through to
  the last branch. The left summand is an early return: what was printed and the exit code.
\<close>

fun parse_cli :: "string \<Rightarrow> CliOptions \<Rightarrow> string list \<Rightarrow> (cli_out list \<times> int) + CliOptions" where
  "parse_cli argv0 opt [] = Inr opt"
| "parse_cli argv0 opt (a # rest) =
     (if a = ''--help'' \<or> a = ''-h'' then Inl (print_usage argv0, 0)
      else if a = ''--no-stream'' then parse_cli argv0 (opt\<lparr>opt_stream := False\<rparr>) rest
      else if a = ''--metrics'' then parse_cli argv0 (opt\<lparr>opt_metrics := True\<rparr>) rest
      else
        let unknown = Inl (Stderr (''Unknown or incomplete flag: '' @ a @ newline) # print_usage argv0, 1) in
          case rest of
            [] \<Rightarrow> unknown
          | v # rest' \<Rightarrow>
              if a = ''--socket'' then parse_cli argv0 (opt\<lparr>opt_socket_path := v\<rparr>) rest'
              else if a = ''--prompt'' then parse_cli argv0 (opt\<lparr>opt_prompt := v\<rparr>) rest'
              else if a = ''--id'' then parse_cli argv0 (opt\<lparr>opt_id := v\<rparr>) rest'
              else if a = ''--max-tokens'' then parse_cli argv0 (opt\<lparr>opt_max_tokens := i32 (strtol v)\<rparr>) rest'
              else if a = ''--temp'' then parse_cli argv0 (opt\<lparr>opt_temperature := atof v, has_temperature := True\<rparr>) rest'
              else if a = ''--top-p'' then parse_cli argv0 (opt\<lparr>opt_top_p := atof v, has_top_p := True\<rparr>) rest'
              else unknown)"

section \<open>The request\<close>

text \<open>\<open>std::to_string\<close> on a \<open>double\<close>: six digits after the point.\<close>

definition pad6 :: "nat \<Rightarrow> string" where
  "pad6 n = (let ds = string_of_nat n in replicate (6 - length ds) (CHR ''0'') @ ds)"

definition to_string_double :: "bool \<times> fl \<Rightarrow> string" where
  "to_string_double x =
     (case snd x of
        NaN \<Rightarrow> ''nan'' | PInf \<Rightarrow> ''inf'' | NInf \<Rightarrow> ''-inf''
      | Fin r \<Rightarrow>
          (let n = nat (round_half_even (\<bar>r\<bar> * 1000000))
           in (if fst x then ''-'' else []) @ string_of_nat (n div 1000000) @ ''.'' @ pad6 (n mod 1000000)))"

definition num_field :: "string \<Rightarrow> string \<Rightarrow> string" where
  "num_field name v = '','' @ dquote @ name @ dquote @ '':'' @ v"

definition request_payload :: "CliOptions \<Rightarrow> string" where
  "request_payload opt =
     ''{'' @ dquote @ ''id'' @ dquote @ '':'' @ dquote @ json_escape (opt_id opt) @ dquote @ '','' @
     dquote @ ''prompt'' @ dquote @ '':'' @ dquote @ json_escape (opt_prompt opt) @ dquote @ '','' @
     dquote @ ''stream'' @ dquote @ '':'' @ (if opt_stream opt then ''true'' else ''false'') @
     (if opt_max_tokens opt > 0 then num_field ''max_tokens'' (string_of_int (opt_max_tokens opt)) else []) @
     (if has_temperature opt then num_field ''temperature'' (to_string_double (opt_temperature opt)) else []) @
     (if has_top_p opt then num_field ''top_p'' (to_string_double (opt_top_p opt)) else []) @ ''}''"

definition cli_payload :: "CliOptions \<Rightarrow> string" where
  "cli_payload opt =
     (if opt_metrics opt then ''{'' @ dquote @ ''type'' @ dquote @ '':'' @ dquote @ ''metrics'' @ dquote @ ''}''
      else request_payload opt)"

section \<open>Sending and receiving\<close>

text \<open>What one \<open>write\<close> did: accepted up to \<open>n\<close> bytes, or failed.\<close>

datatype send_step = Sent nat | Send_Intr | Send_Again | Send_Fail

fun send_all :: "send_step list \<Rightarrow> byte list \<Rightarrow> (bool \<times> byte list) option" where
  "send_all ws [] = Some (True, [])"
| "send_all [] (b # bs) = None"
| "send_all (w # ws) (b # bs) =
     (case w of
        Sent n \<Rightarrow> map_option (\<lambda>(ok, sent). (ok, take n (b # bs) @ sent)) (send_all ws (drop n (b # bs)))
      | Send_Intr \<Rightarrow> send_all ws (b # bs)
      | Send_Again \<Rightarrow> send_all ws (b # bs)
      | Send_Fail \<Rightarrow> Some (False, []))"

text \<open>
  One \<open>read\<close> when the server's remaining bytes are \<open>stream\<close>: between 1 and \<open>k\<close> of them,
  never more than asked for, end of file when there are none; or a failure. The payload loop
  looks at \<open>errno\<close> also after end of file, so whether the last failed read left \<open>EINTR\<close> there
  is part of the state.
\<close>

datatype read_step = Give nat | Read_Intr | Read_Fail

fun recv_payload :: "nat \<Rightarrow> string \<Rightarrow> bool \<Rightarrow> byte list \<Rightarrow> read_step list \<Rightarrow>
    (string \<times> bool \<times> byte list \<times> read_step list) option" where
  "recv_payload len js eintr stream [] =
     (if length js < len then None else Some (js, eintr, stream, []))"
| "recv_payload len js eintr stream (st # steps) =
     (if \<not> length js < len then Some (js, eintr, stream, st # steps)
      else
        case st of
          Give k \<Rightarrow>
            if stream = [] then
              (if eintr then recv_payload len js eintr stream steps else Some (js, eintr, stream, steps))
            else
              let n = min (len - length js) (max 1 k)
              in recv_payload len (js @ map char_of_byte (take n stream)) eintr (drop n stream) steps
        | Read_Intr \<Rightarrow> recv_payload len js True stream steps
        | Read_Fail \<Rightarrow> Some (js, False, stream, steps))"

text \<open>What is printed for one event, and the exit code when the event ends the program.\<close>

definition on_event :: "bool \<Rightarrow> string \<Rightarrow> cli_out list \<times> int option" where
  "on_event metrics js =
     (if metrics then ([Stdout (js @ newline)], Some 0)
      else
        let event = json_get_string js ''event'' in
          if event = ''token'' then
            (let t = json_get_string js ''text'' in (if t \<noteq> [] then [Stdout t] else [], None))
          else if event = ''eos'' then ([Stdout newline], Some 0)
          else if event = ''error'' then
            (let msg = json_get_string js ''message'' in ([Stderr ((if msg = [] then js else msg) @ newline)], Some 2))
          else if event = ''metrics'' then ([Stdout (js @ newline)], Some 0)
          else ([Stdout (js @ newline)], None))"

lemma recv_payload_steps:
  "recv_payload len js e stream steps = Some (js', e', stream', steps') \<Longrightarrow> length steps' \<le> length steps"
proof (induction steps arbitrary: js e stream)
  case (Cons st steps)
  have "length steps' \<le> length steps \<or> steps' = st # steps"
    using Cons.prems by (auto simp: Let_def split: if_splits read_step.splits dest: Cons.IH)
  then show ?case by auto
qed (simp split: if_splits)

function client_loop :: "bool \<Rightarrow> bool \<Rightarrow> byte list \<Rightarrow> read_step list \<Rightarrow> (cli_out list \<times> int) option" where
  "client_loop metrics eintr stream [] = None"
| "client_loop metrics eintr stream (st # steps) =
     (case st of
        Read_Intr \<Rightarrow> client_loop metrics True stream steps
      | Read_Fail \<Rightarrow> Some ([Perror ''read''], 3)
      | Give k \<Rightarrow>
          if stream = [] then Some ([], 0)
          else
            let n = min 4 (max 1 k); hdr = take n stream in
              if length hdr \<noteq> 4 then Some ([Stderr (''short header read'' @ newline)], 0)
              else
                let len = unat (read_u32_le hdr) in
                  (case recv_payload len [] eintr (drop n stream) steps of
                    None \<Rightarrow> None
                  | Some (js, eintr', stream', steps') \<Rightarrow>
                      if length js \<noteq> len then Some ([Stderr (''short payload read'' @ newline)], 0)
                      else
                        (case on_event metrics js of
                          (printed, Some code) \<Rightarrow> Some (printed, code)
                        | (printed, None) \<Rightarrow>
                            map_option (\<lambda>(more, code). (printed @ more, code)) (client_loop metrics eintr' stream' steps'))))"
  by pat_completeness auto
termination
proof (relation "measure (\<lambda>(m, e, s, steps). length steps)", goal_cases)
  case 2
  then show ?case by simp (metis case_prod_conv le_imp_less_Suc recv_payload_steps)
qed simp_all

section \<open>The program\<close>

record cli_env =
  ce_pid :: int
  ce_time :: int
  ce_sun_path :: nat
  ce_socket :: int
  ce_connect :: "string \<Rightarrow> bool"
  ce_writes :: "send_step list"
  ce_stream :: "byte list"
  ce_reads :: "read_step list"

definition connect_uds :: "cli_env \<Rightarrow> string \<Rightarrow> cli_out list + int" where
  "connect_uds E path =
     (if ce_socket E < 0 then Inl [Perror ''socket'']
      else if length path \<ge> ce_sun_path E then Inl [Stderr (''socket path too long'' @ newline)]
      else if \<not> ce_connect E path then Inl [Perror ''connect'']
      else Inr (ce_socket E))"

text \<open>The exit code with what was printed and the bytes the server received.\<close>

definition cli_main :: "cli_env \<Rightarrow> string list \<Rightarrow> (byte list \<times> cli_out list \<times> int) option" where
  "cli_main E argv =
     (case parse_cli (hd argv) default_options (tl argv) of
        Inl (printed, code) \<Rightarrow> Some ([], printed, code)
      | Inr opt0 \<Rightarrow>
          if \<not> opt_metrics opt0 \<and> opt_prompt opt0 = [] then
            Some ([], Stderr (''--prompt is required (or use --metrics)'' @ newline) # print_usage (hd argv), 1)
          else
            let opt = (if opt_id opt0 = [] then opt0\<lparr>opt_id := gen_default_id (ce_pid E) (ce_time E)\<rparr> else opt0) in
              (case connect_uds E (opt_socket_path opt) of
                Inl printed \<Rightarrow> Some ([], printed, 3)
              | Inr sock \<Rightarrow>
                  (case send_all (ce_writes E) (write_frame [] (cli_payload opt)) of
                     None \<Rightarrow> None
                   | Some (False, sent) \<Rightarrow> Some (sent, [Perror ''send''], 3)
                   | Some (True, sent) \<Rightarrow>
                       map_option (\<lambda>(printed, code). (sent, printed, code))
                         (client_loop (opt_metrics opt) False (ce_stream E) (ce_reads E)))))"

end
