(* ===== verification/Cli_Properties.thy ===== *)
theory Cli_Properties
  imports Cli Sampling
begin

text \<open>
  The client and the server understand each other: the request the client builds is what the
  server extracts, however the bytes are cut, and the events the server appends are what the
  client prints, with its exit code. The field lookups are textual searches, so both results
  exclude the request ids that end in a quoted key.
\<close>

section \<open>Lookups in the objects both sides build\<close>

definition ends_as :: "string \<Rightarrow> string \<Rightarrow> bool" where
  "ends_as key s \<longleftrightarrow> suffix (dquote @ key) (dquote @ s)"

definition plain_key :: "string \<Rightarrow> bool" where
  "plain_key key \<longleftrightarrow> key \<noteq> [] \<and> set key \<inter> set [CHR 0x22, CHR 0x5C, CHR '':'', CHR '','', CHR ''{''] = {}"

lemma plain_last: "plain_key key \<Longrightarrow> last key \<notin> set [CHR 0x22, CHR 0x5C, CHR '':'', CHR '','', CHR ''{'']"
  unfolding plain_key_def using last_in_set [of key] by blast

lemma suffix_last_quote:
  assumes "suffix (dquote @ key) (P @ dquote @ name)" and "CHR 0x22 \<notin> set key" and "CHR 0x22 \<notin> set name"
  shows "key = name"
proof -
  let ?t = "takeWhile (\<lambda>c. c \<noteq> CHR 0x22)"
  have t: "?t (rev (Q @ dquote @ z)) = rev z" if "CHR 0x22 \<notin> set z" for Q z
    using that by (induction z rule: rev_induct) (auto simp: dquote_def)
  obtain Q where "P @ dquote @ name = Q @ dquote @ key" using assms(1) by (auto simp: suffix_def)
  then have "rev name = rev key" using t [OF assms(2), of Q] t [OF assms(3), of P] by simp
  then show ?thesis by simp
qed

lemma no_key_name:
  assumes X: "\<not> sublist (dquote @ key @ dquote) X" "X \<noteq> []" "last X = CHR '','' \<or> last X = CHR ''{''"
    and k: "plain_key key" "CHR 0x22 \<notin> set name" "key \<noteq> name"
  shows "\<not> sublist (dquote @ key @ dquote) (X @ dquote @ name @ dquote @ '':'')"
proof -
  note l = plain_last [OF k(1)]
  have key: "key \<noteq> []" "CHR 0x22 \<notin> set key" using k(1) by (auto simp: plain_key_def)
  have "quotes_follow {CHR '','', CHR ''{''} (last X) (dquote @ name)"
    using X(3) k(2) by (auto simp: dquote_def quotes_follow_plain)
  then have "\<not> sublist (dquote @ key @ dquote) (X @ dquote @ name)"
    by (rule no_key_follow [OF X(1) _ X(2) key(1)]) (use l in auto)
  moreover have "\<not> suffix (dquote @ key) (X @ dquote @ name)"
    using suffix_last_quote [of key X name] key(2) k(2,3) by blast
  ultimately have "\<not> sublist (dquote @ key @ dquote) ((X @ dquote @ name) @ dquote)"
    by (intro no_key_quote) simp_all
  then have "\<not> sublist (dquote @ key @ dquote) (((X @ dquote @ name) @ dquote) @ '':'')"
    by (rule no_key_follow [where S = "{}"]) (simp_all add: key(1) dquote_def)
  then show ?thesis by simp
qed

lemma no_key_value:
  assumes X: "\<not> sublist (dquote @ key @ dquote) X" "X \<noteq> []" "last X = CHR '':''" and k: "plain_key key"
  shows "\<not> sublist (dquote @ key @ dquote) (X @ dquote @ json_escape v)"
proof -
  have "quotes_follow {CHR '':'', CHR 0x5C} (last X) (dquote @ json_escape v)"
    using X(3) by (simp add: dquote_def quotes_follow_escape)
  then show ?thesis
    by (rule no_key_follow [OF X(1) _ X(2)]) (use k plain_last [OF k] in \<open>auto simp: plain_key_def\<close>)
qed

lemma no_key_close:
  assumes X: "\<not> sublist (dquote @ key @ dquote) X" "X \<noteq> []" "last X = CHR '':''" and k: "plain_key key"
    and v: "\<not> ends_as key v"
  shows "\<not> sublist (dquote @ key @ dquote) (X @ dquote @ json_escape v @ dquote)"
proof -
  have "\<not> suffix (dquote @ key) (X @ dquote @ json_escape v)"
    using suffix_escape [of key X v] k v by (auto simp: ends_as_def plain_key_def)
  then show ?thesis using no_key_quote [OF no_key_value [OF X k, of v]] by simp
qed

lemma no_key_text:
  assumes "\<not> sublist (dquote @ key @ dquote) X" and "X \<noteq> []" and "plain_key key" and "CHR 0x22 \<notin> set Y"
  shows "\<not> sublist (dquote @ key @ dquote) (X @ Y)"
  by (rule no_key_follow [OF assms(1) quotes_follow_plain [OF assms(4)] assms(2), where S = "{}"])
    (use assms(3) in \<open>auto simp: plain_key_def\<close>)

text \<open>The opening both sides share, up to the id's last character.\<close>

definition id_open :: "string \<Rightarrow> string" where
  "id_open rid = ''{'' @ dquote @ ''id'' @ dquote @ '':'' @ dquote @ json_escape rid"

lemma no_key_id_field:
  assumes "plain_key key" and "key \<noteq> ''id''"
  shows "\<not> sublist (dquote @ key @ dquote) (''{'' @ dquote @ ''id'' @ dquote @ '':'')"
proof -
  have "\<not> sublist (dquote @ key @ dquote) ''{''" by (auto simp: dquote_def sublist_Cons_right)
  from no_key_name [OF this, where name = "''id''"] show ?thesis using assms by simp
qed

lemma no_key_id_open:
  assumes "plain_key key" and "key \<noteq> ''id''"
  shows "\<not> sublist (dquote @ key @ dquote) (id_open rid)"
  using no_key_value [OF no_key_id_field [OF assms], of rid] assms(1) by (simp add: id_open_def)

lemma no_key_id_close:
  assumes "plain_key key" and "key \<noteq> ''id''" and "\<not> ends_as key rid"
  shows "\<not> sublist (dquote @ key @ dquote) (id_open rid @ dquote)"
  using no_key_close [OF no_key_id_field [OF assms(1,2)] _ _ assms(1,3)] by (simp add: id_open_def)

lemma id_open_neq [simp]: "id_open rid \<noteq> []"
  by (simp add: id_open_def)

text \<open>A string field right after a text that does not hold its key, and the field after the id.\<close>

lemma value_text_next:
  assumes "\<not> sublist (dquote @ key @ dquote) X" and "plain_key key"
  shows "value_text (X @ dquote @ '','' @ dquote @ key @ dquote @ '':'' @ dquote @ body) key = Some body"
proof -
  have "sublist (dquote @ key @ dquote) (X @ dquote @ '','' @ dquote @ key @ dquote)"
    by (metis append.assoc sublist_appendI append_Nil2)
  moreover have "CHR '':'' \<notin> set key" using assms(2) by (auto simp: plain_key_def)
  ultimately show ?thesis
    using value_text_spanning [OF assms(1), of "dquote @ '','' @ dquote @ key @ dquote" body]
    by (simp add: dquote_def)
qed

lemma value_text_id: "value_text (id_open rid @ dquote @ rest) ''id'' = Some (json_escape rid @ dquote @ rest)"
proof -
  have "\<not> sublist (dquote @ ''id'' @ dquote) ''{''" by (auto simp: dquote_def sublist_Cons_right)
  moreover have "sublist (dquote @ ''id'' @ dquote) (''{'' @ dquote @ ''id'' @ dquote)"
    by (metis append_Nil2 sublist_appendI)
  ultimately show ?thesis
    using value_text_spanning [of "''id''" "''{''" "dquote @ ''id'' @ dquote" "json_escape rid @ dquote @ rest"]
    by (simp add: id_open_def dquote_def)
qed

section \<open>What the client reads in an event\<close>

text \<open>
  The client knows five escapes; of the six characters the server writes for a control
  character it drops the backslash and keeps the rest.
\<close>

definition client_view :: "char \<Rightarrow> string" where
  "client_view c = (if is_ctrl c then tl (escape_char c) else [c])"

lemma json_get_body_escape_char:
  "json_get_body (escape_char c @ rest) = client_view c @ json_get_body rest"
proof -
  have hex: "hex_char h \<noteq> CHR 0x22 \<and> hex_char h \<noteq> CHR 0x5C" for h
    using is_hex_hex_char [of h] by (auto simp: is_hex_def)
  show ?thesis using escape_char_cases [of c] hex
    by (elim disjE conjE exE) (simp_all add: client_view_def is_ctrl_def)
qed

lemma json_get_body_escape [text_simps]:
  "json_get_body (json_escape s @ dquote @ rest) = concat (map client_view s)"
proof (induction s)
  case (Cons c s)
  then show ?case
    using json_get_body_escape_char [of c "json_escape s @ dquote @ rest"] by (simp add: json_escape_def)
qed (simp add: json_escape_def dquote_def)

definition client_text :: "string \<Rightarrow> string" where
  "client_text s = concat (map client_view s)"

lemma client_text_empty: "client_text s = [] \<longleftrightarrow> s = []"
proof -
  have "client_view c \<noteq> []" for c by (simp add: client_view_def is_ctrl_def escape_char_def)
  then show ?thesis by (cases s) (simp_all add: client_text_def)
qed

lemma client_text_id: "\<not> list_ex is_ctrl s \<Longrightarrow> client_text s = s"
  by (induction s) (auto simp: client_text_def client_view_def)

definition token_json :: "string \<Rightarrow> string \<Rightarrow> int \<Rightarrow> string" where
  "token_json rid t i =
     id_open rid @ dquote @ '','' @ dquote @ ''event'' @ dquote @ '':'' @ dquote @ ''token'' @ dquote @ '','' @
     dquote @ ''text'' @ dquote @ '':'' @ dquote @ json_escape t @ dquote @ '','' @
     dquote @ ''token_id'' @ dquote @ '':'' @ string_of_int i @ ''}''"

definition eos_json :: "string \<Rightarrow> string \<Rightarrow> string" where
  "eos_json rid reason =
     id_open rid @ dquote @ '','' @ dquote @ ''event'' @ dquote @ '':'' @ dquote @ ''eos'' @ dquote @ '','' @
     dquote @ ''reason'' @ dquote @ '':'' @ dquote @ json_escape reason @ dquote @ ''}''"

definition error_json :: "string \<Rightarrow> string \<Rightarrow> string \<Rightarrow> string" where
  "error_json rid code msg =
     id_open rid @ dquote @ '','' @ dquote @ ''event'' @ dquote @ '':'' @ dquote @ ''error'' @ dquote @ '','' @
     dquote @ ''code'' @ dquote @ '':'' @ dquote @ json_escape code @ dquote @ '','' @
     dquote @ ''message'' @ dquote @ '':'' @ dquote @ json_escape msg @ dquote @ ''}''"

lemma append_events:
  "append_token_event b rid t i = b @ write_frame [] (token_json rid t i)"
  "append_eos_event b rid reason = b @ write_frame [] (eos_json rid reason)"
  "append_error_event b rid code msg = b @ write_frame [] (error_json rid code msg)"
  by (simp_all add: append_token_event_def append_eos_event_def append_error_event_def token_json_def eos_json_def
      error_json_def id_open_def write_frame_append [of b])

lemma client_event:
  assumes "CHR 0x22 \<notin> set ev" and "CHR 0x5C \<notin> set ev"
  shows "json_get_string (id_open rid @ dquote @ '','' @ dquote @ ''event'' @ dquote @ '':'' @ dquote @ ev @ dquote @ rest) ''event'' = ev"
proof -
  have "plain_key ''event''" by (simp add: plain_key_def)
  moreover from this have "\<not> sublist (dquote @ ''event'' @ dquote) (id_open rid)" by (rule no_key_id_open) simp
  moreover have "json_get_body (ev @ dquote @ rest) = ev"
    using assms by (induction ev) (auto simp: dquote_def)
  ultimately show ?thesis
    using value_text_next [of "''event''" "id_open rid" "ev @ dquote @ rest"] by (simp add: json_get_string_def)
qed

lemma on_event_token:
  assumes "\<not> ends_as ''text'' rid"
  shows "on_event False (token_json rid t i) = (if t = [] then [] else [Stdout (client_text t)], None)"
proof -
  have k: "plain_key ''text''" by (simp add: plain_key_def)
  have "\<not> sublist (dquote @ ''text'' @ dquote) ((id_open rid @ dquote) @ '','')"
    by (rule no_key_text [OF no_key_id_close [OF k _ assms]]) (simp_all add: k)
  from no_key_name [OF this, where name = "''event''"]
  have "\<not> sublist (dquote @ ''text'' @ dquote) (((id_open rid @ dquote) @ '','') @ dquote @ ''event'' @ dquote @ '':'')"
    by (simp add: k)
  from no_key_value [OF this _ _ k, of "''token''"]
  have "\<not> sublist (dquote @ ''text'' @ dquote)
      (id_open rid @ dquote @ '','' @ dquote @ ''event'' @ dquote @ '':'' @ dquote @ ''token'')"
    by (simp add: json_escape_def escape_char_def)
  from value_text_next [OF this k]
  have "value_text (token_json rid t i) ''text'' =
      Some (json_escape t @ dquote @ '','' @ dquote @ ''token_id'' @ dquote @ '':'' @ string_of_int i @ ''}'')"
    by (simp add: token_json_def)
  then have got: "json_get_string (token_json rid t i) ''text'' = client_text t"
    by (simp add: json_get_string_def json_get_body_escape client_text_def)
  have "client_text t = [] \<longleftrightarrow> t = []" by (rule client_text_empty)
  moreover have "json_get_string (token_json rid t i) ''event'' = ''token''"
    unfolding token_json_def by (rule client_event) simp_all
  ultimately show ?thesis by (simp add: on_event_def got)
qed

lemma on_event_eos: "on_event False (eos_json rid reason) = ([Stdout newline], Some 0)"
proof -
  have "json_get_string (eos_json rid reason) ''event'' = ''eos''"
    unfolding eos_json_def by (rule client_event) simp_all
  then show ?thesis by (simp add: on_event_def)
qed

lemma on_event_error:
  assumes "\<not> ends_as ''message'' rid" and "\<not> ends_as ''message'' code" and "msg \<noteq> []"
  shows "on_event False (error_json rid code msg) = ([Stderr (client_text msg @ newline)], Some 2)"
proof -
  let ?X = "id_open rid @ dquote @ '','' @ dquote @ ''event'' @ dquote @ '':''"
  have k: "plain_key ''message''" by (simp add: plain_key_def)
  have "\<not> sublist (dquote @ ''message'' @ dquote) ((id_open rid @ dquote) @ '','')"
    by (rule no_key_text [OF no_key_id_close [OF k _ assms(1)]]) (simp_all add: k)
  from no_key_name [OF this, where name = "''event''"]
  have "\<not> sublist (dquote @ ''message'' @ dquote) ?X" by (simp add: k)
  from no_key_close [OF this _ _ k, of "''error''"]
  have "\<not> sublist (dquote @ ''message'' @ dquote) (?X @ dquote @ ''error'' @ dquote)"
    by (simp add: json_escape_def escape_char_def ends_as_def suffix_to_prefix dquote_def)
  from no_key_text [OF this _ k, of "'',''"]
  have "\<not> sublist (dquote @ ''message'' @ dquote) ((?X @ dquote @ ''error'' @ dquote) @ '','')"
    by (rule meta_mp) (simp_all add: dquote_def)
  from no_key_name [OF this, where name = "''code''"]
  have "\<not> sublist (dquote @ ''message'' @ dquote) (((?X @ dquote @ ''error'' @ dquote) @ '','') @ dquote @ ''code'' @ dquote @ '':'')"
    by (simp add: k)
  from value_text_next [OF no_key_value [OF this _ _ k] k]
  have "value_text (error_json rid code msg) ''message'' = Some (json_escape msg @ dquote @ ''}'')"
    by (simp add: error_json_def)
  then have "json_get_string (error_json rid code msg) ''message'' = client_text msg"
    by (simp add: json_get_string_def json_get_body_escape client_text_def)
  moreover have "client_text msg \<noteq> []" using assms(3) by (simp add: client_text_empty)
  moreover have "json_get_string (error_json rid code msg) ''event'' = ''error''"
    unfolding error_json_def by (rule client_event) simp_all
  ultimately show ?thesis by (simp add: on_event_def)
qed

section \<open>The receive loop\<close>

text \<open>Reads that succeed and return at least four bytes when there are that many.\<close>

definition steady :: "read_step list \<Rightarrow> bool" where
  "steady steps \<longleftrightarrow> list_all (\<lambda>st. case st of Give k \<Rightarrow> 4 \<le> k | _ \<Rightarrow> False) steps"

lemma steady_drop: "steady steps \<Longrightarrow> steady (drop n steps)"
  by (auto simp: steady_def list_all_iff dest: in_set_dropD)

lemma steady_Cons: "steady (st # steps) \<longleftrightarrow> (\<exists>k \<ge> 4. st = Give k) \<and> steady steps"
  by (auto simp: steady_def split: read_step.split)

lemma recv_payload_all:
  assumes "steady steps" and "length js \<le> length steps"
  shows "\<exists>m \<le> length js. recv_payload (length acc + length js) acc e (map byte_of_char js @ rest) steps =
    Some (acc @ js, e, rest, drop m steps)"
  using assms
proof (induction steps arbitrary: acc js)
  case Nil
  then show ?case by simp
next
  case (Cons st steps)
  show ?case
  proof (cases "js = []")
    case True
    then show ?thesis by (intro exI [of _ 0]) simp
  next
    case False
    obtain k where k: "st = Give k" "4 \<le> k" and st: "steady steps" using Cons.prems(1) by (auto simp: steady_Cons)
    define n where "n = min (length js) (max (Suc 0) k)"
    define bytes where "bytes = map byte_of_char js @ rest"
    have n: "0 < n" "n \<le> length js" using k(2) False by (auto simp: n_def)
    have tk: "map char_of_byte (take n bytes) = take n js" "drop n bytes = map byte_of_char (drop n js) @ rest" "bytes \<noteq> []"
      using n(2) False by (simp_all add: bytes_def take_map drop_map)
    have "length (drop n js) \<le> length steps" using Cons.prems(2) n(1) by simp
    from Cons.IH [OF st this, of "acc @ take n js"] n(2) obtain m where m: "m \<le> length (drop n js)"
      "recv_payload (length acc + length js) (acc @ take n js) e (map byte_of_char (drop n js) @ rest) steps =
        Some (acc @ js, e, rest, drop m steps)"
      by auto
    have "recv_payload (length acc + length js) acc e bytes (st # steps) = Some (acc @ js, e, rest, drop m steps)"
      using False m(2) tk by (simp add: k(1) Let_def n_def [symmetric])
    then show ?thesis using m(1) n unfolding bytes_def by (intro exI [of _ "Suc m"]) simp
  qed
qed

text \<open>One whole frame is one event.\<close>

lemma client_loop_frame:
  assumes "steady steps" and "length (write_frame [] js) \<le> length steps" and "length js < 2 ^ 32"
  shows "\<exists>m \<le> length (write_frame [] js). client_loop metrics e (write_frame [] js @ rest) steps =
    (case on_event metrics js of
       (printed, Some code) \<Rightarrow> Some (printed, code)
     | (printed, None) \<Rightarrow> map_option (\<lambda>(more, code). (printed @ more, code)) (client_loop metrics e rest (drop m steps)))"
proof -
  obtain st steps1 where st: "steps = st # steps1" using assms(2) length_write_frame [of js] by (cases steps) auto
  obtain k where k: "st = Give k" "4 \<le> k" and s1: "steady steps1" using assms(1) by (auto simp: st steady_Cons)
  have n: "min 4 (max (Suc 0) k) = 4" using k(2) by simp
  define hdr where "hdr = frame_hdr (word_of_nat (length js))"
  have w: "write_frame [] js @ rest = hdr @ map byte_of_char js @ rest"
    by (simp add: write_frame_def Let_def hdr_def)
  have h: "length hdr = 4" "unat (read_u32_le hdr) = length js"
    using read_u32_le_hdr [of "word_of_nat (length js)" "[]"] unat_frame_len [OF assms(3)] by (simp_all add: hdr_def)
  have nonempty: "hdr \<noteq> []" using h(1) by auto
  have "length js \<le> length steps1" using assms(2) by (simp add: st length_write_frame)
  from recv_payload_all [OF s1 this, of "[]" e rest] obtain m where
    m: "m \<le> length js" "recv_payload (length js) [] e (map byte_of_char js @ rest) steps1 = Some (js, e, rest, drop m steps1)"
    by auto
  have "client_loop metrics e (hdr @ map byte_of_char js @ rest) (st # steps1) =
    (case on_event metrics js of
       (printed, Some code) \<Rightarrow> Some (printed, code)
     | (printed, None) \<Rightarrow> map_option (\<lambda>(more, code). (printed @ more, code)) (client_loop metrics e rest (drop m steps1)))"
    using m(2) h nonempty by (simp add: k(1) n Let_def)
  moreover have "drop (Suc m) steps = drop m steps1" "Suc m \<le> length (write_frame [] js)"
    using m(1) by (simp_all add: st length_write_frame)
  ultimately show ?thesis unfolding w st by (intro exI [of _ "Suc m"]) (simp only: simp_thms drop_Suc_Cons)
qed

lemma client_loop_frames:
  assumes "steady steps" and "length (concat (map (write_frame []) (msgs @ [final]))) \<le> length steps"
    and "\<forall>js \<in> set (msgs @ [final]). length js < 2 ^ 32"
    and "\<forall>js \<in> set msgs. on_event metrics js = (out js, None)" and "on_event metrics final = (last_out, Some code)"
  shows "client_loop metrics e (concat (map (write_frame []) (msgs @ [final])) @ rest) steps =
    Some (concat (map out msgs) @ last_out, code)"
  using assms(1-4)
proof (induction msgs arbitrary: steps)
  case Nil
  then show ?case using client_loop_frame [of steps final metrics e rest] assms(5) by auto
next
  case (Cons js msgs)
  let ?rest = "concat (map (write_frame []) (msgs @ [final])) @ rest"
  have "length (write_frame [] js) \<le> length steps" "length js < 2 ^ 32" using Cons.prems(2,3) by auto
  from client_loop_frame [OF Cons.prems(1) this, of metrics e ?rest] obtain m where
    m: "m \<le> length (write_frame [] js)" "client_loop metrics e (write_frame [] js @ ?rest) steps =
      map_option (\<lambda>(more, code). (out js @ more, code)) (client_loop metrics e ?rest (drop m steps))"
    using Cons.prems(4) by auto
  have "client_loop metrics e ?rest (drop m steps) = Some (concat (map out msgs) @ last_out, code)"
    by (rule Cons.IH) (use Cons.prems m(1) in \<open>auto intro: steady_drop\<close>)
  then show ?case using m(2) by simp
qed

lemma fold_token_events:
  "fold (\<lambda>(t, i) b. append_token_event b rid t i) toks b =
     b @ concat (map (write_frame []) (map (\<lambda>(t, i). token_json rid t i) toks))"
  by (induction toks arbitrary: b) (auto simp: append_events)

lemma member_frame_length: "js \<in> set msgs \<Longrightarrow> length js \<le> length (concat (map (write_frame []) msgs))"
  by (induction msgs) (auto simp: length_write_frame intro: order_trans)

lemma client_loop_stream:
  assumes "\<not> ends_as ''text'' rid" and "steady steps"
    and s: "stream = fold (\<lambda>(t, i) b. append_token_event b rid t i) toks [] @ write_frame [] final"
    and "length stream \<le> length steps" and "length stream < 2 ^ 32"
    and f: "on_event False final = (last_out, Some code)"
  shows "client_loop False e (stream @ later) steps =
    Some (concat (map (\<lambda>(t, i). if t = [] then [] else [Stdout (client_text t)]) toks) @ last_out, code)"
proof -
  let ?msgs = "map (\<lambda>(t, i). token_json rid t i) toks"
  define out where "out js = fst (on_event False js)" for js
  have stream: "stream = concat (map (write_frame []) (?msgs @ [final]))" by (simp add: s fold_token_events)
  have "length js < 2 ^ 32" if "js \<in> set (?msgs @ [final])" for js
    using member_frame_length [OF that] assms(5) by (simp only: stream)
  then have len: "\<forall>js \<in> set (?msgs @ [final]). length js < 2 ^ 32" by blast
  have outs: "out (token_json rid t i) = (if t = [] then [] else [Stdout (client_text t)])" for t i
    by (simp add: out_def on_event_token [OF assms(1)])
  have "\<forall>js \<in> set ?msgs. on_event False js = (out js, None)"
    by (auto simp: out_def on_event_token [OF assms(1)])
  from client_loop_frames [OF assms(2) _ len this f, of e later]
  have "client_loop False e (stream @ later) steps = Some (concat (map out ?msgs) @ last_out, code)"
    using assms(4) by (simp only: stream)
  moreover have "map out ?msgs = map (\<lambda>(t, i). if t = [] then [] else [Stdout (client_text t)]) toks"
    by (simp add: outs case_prod_beta)
  ultimately show ?thesis by (simp only:)
qed

text \<open>
  C23. The client prints what the server generated: given the bytes of any number of token events
  followed by an end-of-stream event, cut into reads in any way that does not split a header,
  the client prints the text of each token in order (exactly, where it has no control characters
  other than tab, newline and return), a newline, and exits with code 0. The request id must not
  be \<open>text\<close> nor end in a quote followed by it.
\<close>

theorem client_prints_stream:
  assumes "\<not> ends_as ''text'' rid" and "steady steps"
    and "stream = append_eos_event (fold (\<lambda>(t, i) b. append_token_event b rid t i) toks []) rid reason"
    and "length stream \<le> length steps" and "length stream < 2 ^ 32"
  shows "client_loop False e (stream @ later) steps =
    Some (concat (map (\<lambda>(t, i). if t = [] then [] else [Stdout (client_text t)]) toks) @ [Stdout newline], 0)"
  by (rule client_loop_stream [OF assms(1,2) _ assms(4,5) on_event_eos])
    (simp add: assms(3) append_events)

theorem client_prints_stream_witness:
  "client_loop False False
     (append_eos_event (fold (\<lambda>(t, i) b. append_token_event b ''r1'' t i) [(''Hi'', 7), ([], 8), (''!'', 9)] []) ''r1'' ''stop'')
     (replicate 400 (Give 4)) = Some ([Stdout ''Hi'', Stdout ''!'', Stdout newline], 0)"
proof -
  let ?s = "append_eos_event (fold (\<lambda>(t, i) b. append_token_event b ''r1'' t i) [(''Hi'', 7), ([], 8), (''!'', 9)] []) ''r1'' ''stop''"
  have len: "length ?s \<le> 400" by code_simp
  have id: "\<not> ends_as ''text'' ''r1''" by code_simp
  have st: "steady (replicate 400 (Give 4))" by (simp add: steady_def list_all_iff)
  have "client_text ''Hi'' = ''Hi''" "client_text ''!'' = ''!''" by code_simp+
  then show ?thesis
    using client_prints_stream [OF id st refl, where reason = "''stop''" and e = False and later = "[]"
        and toks = "[(''Hi'', 7), ([], 8), (''!'', 9)]"] len by simp
qed

text \<open>
  C35. The client reports the server's error: after any token events, an error event makes it
  print the message to standard error and exit with code 2.
\<close>

theorem client_reports_error:
  assumes "\<not> ends_as ''text'' rid" and "\<not> ends_as ''message'' rid" and "\<not> ends_as ''message'' code" and "msg \<noteq> []"
    and "steady steps"
    and "stream = append_error_event (fold (\<lambda>(t, i) b. append_token_event b rid t i) toks []) rid code msg"
    and "length stream \<le> length steps" and "length stream < 2 ^ 32"
  shows "client_loop False e (stream @ later) steps =
    Some (concat (map (\<lambda>(t, i). if t = [] then [] else [Stdout (client_text t)]) toks) @
      [Stderr (client_text msg @ newline)], 2)"
  by (rule client_loop_stream [OF assms(1,5) _ assms(7,8) on_event_error [OF assms(2-4)]])
    (simp add: assms(6) append_events)

theorem client_reports_error_witness:
  "client_loop False False (append_error_event [] ''r1'' ''E_RUNTIME_DECODE'' ''decode failed'') (replicate 200 (Give 9)) =
     Some ([Stderr (''decode failed'' @ newline)], 2)"
proof -
  have len: "length (append_error_event [] ''r1'' ''E_RUNTIME_DECODE'' ''decode failed'') \<le> 200" by code_simp
  have id: "\<not> ends_as ''text'' ''r1''" "\<not> ends_as ''message'' ''r1''" "\<not> ends_as ''message'' ''E_RUNTIME_DECODE''" by code_simp+
  have st: "steady (replicate 200 (Give 9))" by (simp add: steady_def list_all_iff)
  have "client_text ''decode failed'' = ''decode failed''" by code_simp
  then show ?thesis
    using client_reports_error [OF id(1,2,3) _ st, where toks = "[]" and e = False and later = "[]" and msg = "''decode failed''"] len
    by simp
qed

section \<open>The request reaches the scheduler\<close>

lemma json_str_body_escape_dquote: "json_str_body (json_escape s @ dquote @ rest) = (map server_view s, False)"
  using json_str_body_escape [of s rest] by (simp add: dquote_def)

text \<open>The part of the request up to the prompt's last character, and the part after the colon that follows it.\<close>

definition prompt_open :: "CliOptions \<Rightarrow> string" where
  "prompt_open opt =
     id_open (opt_id opt) @ dquote @ '','' @ dquote @ ''prompt'' @ dquote @ '':'' @ dquote @ json_escape (opt_prompt opt)"

definition option_fields :: "CliOptions \<Rightarrow> (string \<times> string) list" where
  "option_fields opt =
     (if opt_max_tokens opt > 0 then [(''max_tokens'', string_of_int (opt_max_tokens opt))] else []) @
     (if has_temperature opt then [(''temperature'', to_string_double (opt_temperature opt))] else []) @
     (if has_top_p opt then [(''top_p'', to_string_double (opt_top_p opt))] else [])"

definition fields_text :: "(string \<times> string) list \<Rightarrow> string" where
  "fields_text fs = concat (map (\<lambda>(name, v). num_field name v) fs) @ ''}''"

definition stream_text :: "CliOptions \<Rightarrow> string" where
  "stream_text opt = (if opt_stream opt then ''true'' else ''false'')"

lemma request_payload_split:
  "request_payload opt =
     prompt_open opt @ (dquote @ '','' @ dquote @ ''stream'' @ dquote) @ '':'' @ stream_text opt @ fields_text (option_fields opt)"
  by (simp add: request_payload_def prompt_open_def id_open_def stream_text_def fields_text_def option_fields_def)

definition quote_free :: "(string \<times> string) list \<Rightarrow> bool" where
  "quote_free fs \<longleftrightarrow> list_all (\<lambda>(name, v). CHR 0x22 \<notin> set name \<and> CHR 0x5C \<notin> set name \<and> CHR 0x22 \<notin> set v) fs"

lemma string_of_nat_no_quote: "CHR 0x22 \<notin> set (string_of_nat n)"
  using string_of_nat_digits [of n] by auto

lemma option_fields_quote_free: "quote_free (option_fields opt)"
proof -
  have "CHR 0x22 \<notin> set (string_of_int n)" for n by (simp add: string_of_int_def string_of_nat_no_quote)
  moreover have "CHR 0x22 \<notin> set (to_string_double x)" for x
    by (auto simp: to_string_double_def pad6_def Let_def string_of_nat_no_quote split: fl.split)
  ultimately show ?thesis by (auto simp: quote_free_def option_fields_def)
qed

lemma no_key_fields:
  assumes X: "\<not> sublist (dquote @ key @ dquote) X" "X \<noteq> []" and k: "plain_key key"
    and fs: "quote_free fs" "key \<notin> fst ` set fs"
  shows "\<not> sublist (dquote @ key @ dquote) (X @ fields_text fs)"
  using X fs
proof (induction fs arbitrary: X)
  case Nil
  then show ?case using no_key_text [OF Nil.prems(1,2) k, of "''}''"] by (simp add: fields_text_def)
next
  case (Cons f fs)
  obtain name v where f: "f = (name, v)" by fastforce
  have p: "CHR 0x22 \<notin> set name" "CHR 0x22 \<notin> set v" "key \<noteq> name" "quote_free fs" "key \<notin> fst ` set fs"
    using Cons.prems(3,4) by (auto simp: f quote_free_def)
  have "\<not> sublist (dquote @ key @ dquote) (X @ '','')" using no_key_text [OF Cons.prems(1,2) k] by simp
  from no_key_name [OF this _ _ k p(1,3)] have "\<not> sublist (dquote @ key @ dquote) ((X @ '','') @ dquote @ name @ dquote @ '':'')"
    by simp
  from no_key_text [OF this _ k p(2)] have "\<not> sublist (dquote @ key @ dquote) (X @ num_field name v)"
    by (simp add: num_field_def)
  from Cons.IH [OF this _ p(4,5)] show ?case by (simp add: f fields_text_def num_field_def)
qed

text \<open>What a lookup finds when it starts after the value of \<open>stream\<close>: the name of an option, if anything.\<close>

lemma first_quote_in_fields:
  assumes "quote_free fs" and "CHR 0x22 \<notin> set b"
  shows "map_option (\<lambda>q. drop (q + 1) (b @ fields_text fs)) (find_sub dquote (b @ fields_text fs)) =
    (case fs of [] \<Rightarrow> None | (name, v) # gs \<Rightarrow> Some (name @ dquote @ '':'' @ v @ fields_text gs))"
proof (cases fs)
  case Nil
  have "find_sub dquote s = None" if "CHR 0x22 \<notin> set s" for s
    using that by (induction s) (auto simp: dquote_def)
  from this [of "b @ ''}''"] show ?thesis using assms(2) by (simp add: Nil fields_text_def)
next
  case (Cons f gs)
  obtain name v where f: "f = (name, v)" by fastforce
  have t: "b @ fields_text fs = (b @ '','') @ CHR 0x22 # name @ dquote @ '':'' @ v @ fields_text gs"
    by (simp add: Cons f fields_text_def num_field_def dquote_def)
  have "find_sub dquote (b @ fields_text fs) = Some (length (b @ '',''))"
    unfolding t dquote_def by (rule find_sub_char_skip) (use assms(2) in simp)
  then show ?thesis by (simp only: t) (simp add: Cons f)
qed

lemma lookup_after_stream:
  assumes k: "plain_key key" "key \<noteq> ''id''" "key \<noteq> ''prompt''" "\<not> ends_as key (opt_id opt)"
    and fs: "key \<notin> {''max_tokens'', ''temperature'', ''top_p''}"
  shows "fst (extract_json_string (request_payload opt) key) \<in> {[], ''max_tokens'', ''temperature'', ''top_p''}"
proof -
  let ?Y = "dquote @ '','' @ dquote @ ''stream'' @ dquote" and ?Z = "stream_text opt @ fields_text (option_fields opt)"
  have b: "CHR 0x22 \<notin> set (stream_text opt)" by (simp add: stream_text_def)
  have "\<not> sublist (dquote @ key @ dquote) ((id_open (opt_id opt) @ dquote) @ '','')"
    by (rule no_key_text [OF no_key_id_close [OF k(1,2,4)] _ k(1)]) simp_all
  from no_key_name [OF this _ _ k(1), where name = "''prompt''"]
  have "\<not> sublist (dquote @ key @ dquote) (((id_open (opt_id opt) @ dquote) @ '','') @ dquote @ ''prompt'' @ dquote @ '':'')"
    using k(3) by simp
  from no_key_value [OF this _ _ k(1)]
  have X: "\<not> sublist (dquote @ key @ dquote) (prompt_open opt)" by (simp add: prompt_open_def)
  have names: "fst ` set (option_fields opt) \<subseteq> {''max_tokens'', ''temperature'', ''top_p''}"
    by (auto simp: option_fields_def split: if_splits)
  show ?thesis
  proof (cases "sublist (dquote @ key @ dquote) (prompt_open opt @ ?Y)")
    case True
    have "CHR '':'' \<notin> set key" using k(1) by (auto simp: plain_key_def)
    from value_text_at_colon [OF X True this, of ?Z]
    have v: "value_text (request_payload opt) key =
        (case option_fields opt of [] \<Rightarrow> None | (name, v) # gs \<Rightarrow> Some (name @ dquote @ '':'' @ v @ fields_text gs))"
      using first_quote_in_fields [OF option_fields_quote_free b, of opt] by (simp add: request_payload_split dquote_def)
    have body: "json_str_body (name @ dquote @ r) = (name, False)" if "name \<in> {''max_tokens'', ''temperature'', ''top_p''}" for name r
      using that by (auto simp: dquote_def push_char_def)
    show ?thesis
    proof (cases "option_fields opt")
      case (Cons f gs)
      then have n: "fst f \<in> {''max_tokens'', ''temperature'', ''top_p''}" using names by auto
      from body [OF n] n show ?thesis by (cases f) (simp add: extract_json_string_def v Cons)
    qed (simp add: extract_json_string_def v)
  next
    case False
    have "\<not> sublist (dquote @ key @ dquote) ((prompt_open opt @ ?Y) @ '':'' @ stream_text opt)"
      by (rule no_key_text [OF False _ k(1)]) (use b in \<open>auto simp: dquote_def\<close>)
    from no_key_fields [OF this _ k(1) option_fields_quote_free]
    have "\<not> sublist (dquote @ key @ dquote) (request_payload opt)"
      using names fs by (auto simp: request_payload_split dquote_def)
    then show ?thesis by (simp add: extract_json_string_def value_text_absent)
  qed
qed

lemma request_not_admin:
  assumes "\<not> ends_as ''type'' (opt_id opt)" and "\<not> ends_as ''event'' (opt_id opt)"
  shows "\<not> is_admin (request_payload opt)"
proof -
  have "fst (extract_json_string (request_payload opt) key) \<noteq> ''metrics''" if "key = ''type'' \<or> key = ''event''" for key
    using lookup_after_stream [of key opt] that assms by (auto simp: plain_key_def)
  then show ?thesis by (auto simp: is_admin_def split: prod.splits) (metis fst_conv)+
qed

lemma request_id_prompt:
  "extract_json_string (request_payload opt) ''id'' = (map server_view (opt_id opt), False)"
  "extract_json_string (request_payload opt) ''prompt'' = (map server_view (opt_prompt opt), False)"
proof -
  let ?rest = "'','' @ dquote @ ''stream'' @ dquote @ '':'' @ stream_text opt @ fields_text (option_fields opt)"
  have p: "request_payload opt = id_open (opt_id opt) @ dquote @ '','' @ dquote @ ''prompt'' @ dquote @ '':'' @ dquote @
      json_escape (opt_prompt opt) @ dquote @ ?rest"
    by (simp add: request_payload_split prompt_open_def)
  show "extract_json_string (request_payload opt) ''id'' = (map server_view (opt_id opt), False)"
    by (simp only: p value_text_id extract_json_string_def option.case json_str_body_escape_dquote)
  have k: "plain_key ''prompt''" by (simp add: plain_key_def)
  then have "\<not> sublist (dquote @ ''prompt'' @ dquote) (id_open (opt_id opt))" by (rule no_key_id_open) simp
  from value_text_next [OF this k]
  show "extract_json_string (request_payload opt) ''prompt'' = (map server_view (opt_prompt opt), False)"
    by (simp only: p extract_json_string_def option.case json_str_body_escape_dquote)
qed

lemma request_verdict:
  assumes "\<not> ends_as ''type'' (opt_id opt)" and "\<not> ends_as ''event'' (opt_id opt)" and "opt_prompt opt \<noteq> []"
    and "length (opt_prompt opt) \<le> unat (max_prompt_bytes cfg)" and "tokenize vocab (map server_view (opt_prompt opt)) True True \<noteq> []"
  shows "verdict cfg vocab (request_payload opt) = Run"
  using request_not_admin [OF assms(1,2)] assms(3-5) by (simp add: verdict_def asked_prompt_def request_id_prompt)

lemma send_all_sent: "send_all ws data = Some (True, sent) \<Longrightarrow> sent = data"
proof (induction ws data arbitrary: sent rule: send_all.induct)
  case (3 w ws b bs)
  then show ?case
    by (cases w) (force simp: map_option_case split: option.splits)+
qed simp_all

text \<open>
  C10. End to end: whatever sizes the client's writes and the server's reads have, once the
  client's frame has been sent and read the server's session is in PREFILL with the tokens of
  the prompt the user gave and the id the user gave, nothing of the request left in the receive
  buffer, a sequence id assigned, and no response queued. Control characters other than tab,
  newline and return arrive as question marks. The id must not be \<open>type\<close> or \<open>event\<close> nor end in a
  quote followed by one of them, which the server would take for an admin request's key.
\<close>

theorem request_reaches_prefill:
  assumes "send_all ws (write_frame [] (cli_payload opt)) = Some (True, sent)" and "\<not> opt_metrics opt"
    and "concat chunks = sent" and "rx s = []"
    and "\<not> ends_as ''type'' (opt_id opt)" and "\<not> ends_as ''event'' (opt_id opt)"
    and "opt_prompt opt \<noteq> []" and "length (opt_prompt opt) \<le> unat (max_prompt_bytes cfg)"
    and "length (request_payload opt) \<le> kDefaultMaxFrameBytes"
    and "tokenize vocab (map server_view (opt_prompt opt)) True True = toks" and "toks \<noteq> []"
    and "on_session P cfg vocab now_ns chunks Read_Again nxt s = ((s', rr), nxt')"
  shows "state s' = PREFILL \<and> prompt_tokens s' = toks \<and> prefill_idx s' = 0 \<and> n_past s' = 0 \<and>
    request_id s' = map server_view (opt_id opt) \<and> rx s' = [] \<and> tx s' = tx s \<and>
    seq s' = (if seq s < 0 then nxt else seq s) \<and> rr = no_result"
proof -
  let ?js = "request_payload opt"
  have sent: "sent = write_frame [] ?js" using send_all_sent [OF assms(1)] assms(2) by (simp add: cli_payload_def)
  have "frame_ok kDefaultMaxFrameBytes ?js"
    using assms(9) by (simp add: frame_ok_def request_payload_def kDefaultMaxFrameBytes_def)
  from try_read_frame_write_frame [OF this, of "[]"]
  have f: "try_read_frame (rx (drain_reads chunks now_ns s)) kDefaultMaxFrameBytes = Frame ?js []"
    using assms(3,4) by (simp add: drain_reads_keeps sent)
  have "on_session P cfg vocab now_ns chunks Read_Again nxt s =
      handle_request P cfg vocab now_ns ?js nxt ((drain_reads chunks now_ns s)\<lparr>rx := []\<rparr>, no_result)"
    by (simp add: on_session_def Let_def f)
  moreover have "\<dots> =
      (let s1 = (set_sampling P ?js ((drain_reads chunks now_ns s)\<lparr>rx := [], request_id := map server_view (opt_id opt)\<rparr>))\<lparr>prompt_tokens := []\<rparr>
       in ((fst (start_request cfg now_ns toks nxt s1), no_result), snd (start_request cfg now_ns toks nxt s1)))"
    using request_not_admin [OF assms(5,6)] assms(7,8,10,11)
    by (simp add: handle_request_def request_id_prompt Let_def case_prod_beta)
  ultimately have r: "((s', rr), nxt') =
      (let s1 = (set_sampling P ?js ((drain_reads chunks now_ns s)\<lparr>rx := [], request_id := map server_view (opt_id opt)\<rparr>))\<lparr>prompt_tokens := []\<rparr>
       in ((fst (start_request cfg now_ns toks nxt s1), no_result), snd (start_request cfg now_ns toks nxt s1)))"
    using assms(12) by simp
  then show ?thesis
    by (simp add: Let_def start_request_def set_sampling_keeps drain_reads_keeps)
qed

definition demo_options :: CliOptions where
  "demo_options = default_options\<lparr>opt_id := ''r1'', opt_prompt := ''Hi'', opt_max_tokens := 5\<rparr>"

theorem request_reaches_prefill_witness:
  "\<exists>s' rr n'. on_session demo_platform default_config (Some byte_vocab) 7
       [take 3 (write_frame [] (cli_payload demo_options)), drop 3 (write_frame [] (cli_payload demo_options))] Read_Again 1 new_session =
     ((s', rr), n') \<and> state s' = PREFILL \<and> prompt_tokens s' = byte_toks ''Hi'' True True \<and> request_id s' = ''r1''"
proof -
  let ?f = "write_frame [] (cli_payload demo_options)"
  obtain s' rr n' where r: "on_session demo_platform default_config (Some byte_vocab) 7 [take 3 ?f, drop 3 ?f] Read_Again 1 new_session =
      ((s', rr), n')" by (metis surj_pair)
  have "send_all [Sent 2, Send_Intr, Sent 1000] ?f = Some (True, ?f)" by code_simp
  moreover have "\<not> opt_metrics demo_options" "\<not> ends_as ''type'' (opt_id demo_options)" "\<not> ends_as ''event'' (opt_id demo_options)"
    by code_simp+
  moreover have "length (request_payload demo_options) \<le> kDefaultMaxFrameBytes"
  proof -
    have "length (request_payload demo_options) \<le> 100" by code_simp
    then show ?thesis by (simp add: kDefaultMaxFrameBytes_def)
  qed
  moreover have "map server_view (opt_prompt demo_options) = ''Hi''" by code_simp
  then have "tokenize (Some byte_vocab) (map server_view (opt_prompt demo_options)) True True = byte_toks ''Hi'' True True"
    using byte_tokenize [of "''Hi''"] by (simp add: INT_MAX_def)
  moreover have "byte_toks ''Hi'' True True \<noteq> []" by (simp add: byte_toks_def)
  moreover have "map server_view (opt_id demo_options) = ''r1''" by code_simp
  ultimately have "state s' = PREFILL \<and> prompt_tokens s' = byte_toks ''Hi'' True True \<and> request_id s' = ''r1''"
    using request_reaches_prefill [OF _ _ _ _ _ _ _ _ _ _ _ r, of "[Sent 2, Send_Intr, Sent 1000]" demo_options ?f "byte_toks ''Hi'' True True"]
    by (simp add: demo_options_def new_session_def default_config_def)
  then show ?thesis using r by blast
qed

end
