(* ===== verification/Tick_Progress.thy ===== *)
theory Tick_Progress
  imports Tick_Properties
begin

text \<open>
  Progress of a request: with a model that decodes and returns logits, a tick serves every
  decoding session as long as they are not more than the smaller of 8 and the capacity, and each
  service either ends the stream or counts a token, so the stream ends within \<open>max_tokens + 1\<close>
  ticks.
\<close>

section \<open>A responsive model\<close>

definition responsive :: "('c, 'r) env \<Rightarrow> bool" where
  "responsive E \<longleftrightarrow>
     (\<forall>c b. fst (llama_decode (env_llama E) c b) = 0) \<and> (\<forall>c i. llama_get_logits_ith (env_llama E) c i \<noteq> None)"

definition sampled :: "llama_vocab \<Rightarrow> RuntimeConfig \<Rightarrow> u64 \<Rightarrow> SampleRef \<Rightarrow> ClientSession \<Rightarrow> ClientSession \<Rightarrow> bool" where
  "sampled v cfg now_ns sr s s' \<longleftrightarrow>
     (\<exists>t. s' = (if sr_state_before sr = PREFILL then first_token v now_ns t s
                else if ends_stream v cfg t s then end_stream cfg now_ns s else next_token v now_ns t s))"

lemma sample_step_sampled:
  assumes "responsive E" and "pool_find (fst st) (sr_fd sr) = Some s"
  shows "\<exists>s'. pool_find (fst (sample_step E cfg now_ns sr st)) (sr_fd sr) = Some s' \<and> sampled (env_vocab E) cfg now_ns sr s s'"
proof -
  obtain S c rng m fds where st: "st = (S, c, rng, m, fds)" by (metis prod_cases5)
  have s: "pool_find S (sr_fd sr) = Some s" using assms(2) st by simp
  obtain row where row: "llama_get_logits_ith (env_llama E) c (sr_batch_index sr) = Some row"
    using assms(1) unfolding responsive_def by (metis option.exhaust)
  obtain t rng' where smp: "sample (env_platform E) (env_psort E) (env_uniform E) row
      (vocab_n_tokens (env_vocab E)) (sampling_params s) rng = (t, rng')" by fastforce
  show ?thesis by (simp add: st sample_step_def s row smp Let_def pool_simps sampled_def) blast
qed

lemma run_batch_sampled:
  assumes "responsive E" and "distinct (map sr_fd samples)" and "sr \<in> set samples" and "pool_find S (sr_fd sr) = Some s"
  shows "\<exists>s'. pool_find (tick_pool (run_batch E now_ns dur_ns p b samples sch c S)) (sr_fd sr) = Some s' \<and>
    sampled (env_vocab E) (sch_config sch) now_ns sr s s'"
proof -
  obtain c2 where dec: "llama_decode (env_llama E)
      (if enable_perf (sch_config sch) then llama_perf_context_reset (env_llama E) c else c) b = (0, c2)"
    using assms(1) by (metis responsive_def prod.collapse)
  have "\<exists>m. tick_pool (run_batch E now_ns dur_ns p b samples sch c S) =
      fst (fold (sample_step E (sch_config sch) now_ns) samples (S, c2, sch_rng sch, m, []))"
    by (simp add: tick_pool_def run_batch_def Let_def dec case_prod_beta) (rule exI, rule refl)
  then show ?thesis
    using fold_distinct_keys [where look = "\<lambda>st. pool_find (fst st)" and key = sr_fd,
        OF sample_step_other sample_step_sampled [OF assms(1)] assms(2)] assms(3,4) by fastforce
qed

text \<open>What a tick makes of a session it serves: nothing fails.\<close>

definition responded :: "llama_vocab \<Rightarrow> RuntimeConfig \<Rightarrow> u64 \<Rightarrow> BatchItem \<Rightarrow> ClientSession \<Rightarrow> ClientSession \<Rightarrow> bool" where
  "responded v cfg now_ns x s s' \<longleftrightarrow>
     (\<exists>t. prefill_ready s \<and> it_phase x = Phase_PREFILL \<and> s' = first_token v now_ns t (advance (it_n_tokens x) s) \<or>
          decode_ready s \<and> it_phase x = Phase_DECODE \<and>
            s' = (if ends_stream v cfg t s then end_stream cfg now_ns (consume s) else next_token v now_ns t (consume s)))"

lemma tick_responds:
  assumes "sch_ok sch" and "pool_ok cfg S" and "responsive E" and tp: "tick_plan sch S = (p, m)"
    and "tick E now_ns dur_ns sch c S = Inr r" and x: "x \<in> set (items p)" "0 < it_n_tokens x" and s: "pool_find S (it_fd x) = Some s"
  shows "\<exists>s'. pool_find (tick_pool r) (it_fd x) = Some s' \<and> responded (env_vocab E) (sch_config sch) now_ns x s s'"
proof -
  from served_sample [OF assms(1,2) tp assms(5) x s] obtain sr sch0 b samples S1 where
    sr: "sr \<in> set samples" "sr_fd sr = it_fd x" "distinct (map sr_fd samples)"
      "sr_state_before sr = (case it_phase x of Phase_DECODE \<Rightarrow> DECODE | Phase_PREFILL \<Rightarrow> PREFILL)"
    and run: "runnable s x" and en: "pool_find S1 (it_fd x) = Some (enacted s x)"
    and r: "sch_config sch0 = sch_config sch" "tick_pool r = tick_pool (run_batch E now_ns dur_ns p b samples sch0 c S1)"
    by blast
  have "\<exists>s'. pool_find (tick_pool r) (it_fd x) = Some s' \<and> sampled (env_vocab E) (sch_config sch) now_ns sr (enacted s x) s'"
    using run_batch_sampled [OF assms(3) sr(3,1), of S1 "enacted s x" now_ns dur_ns p b sch0 c] sr(2) en r by simp
  then show ?thesis using sr(4) run x(2)
    by (cases "it_phase x") (auto simp: sampled_def responded_def enacted_eq runnable_def)
qed

lemma tick_no_failure:
  assumes "sch_ok sch" and "pool_ok cfg S" and "env_ok E" and "responsive E" and "tick E now_ns dur_ns sch c S = Inr r"
    and "pool_find S f = Some s" and "pool_find (tick_pool r) f = Some s'" and "state s' = ERRORED"
  shows "s' = s"
proof -
  obtain p m where tp: "tick_plan sch S = (p, m)" by fastforce
  show ?thesis
  proof (cases "\<exists>x \<in> set (items p). it_fd x = f \<and> 0 < it_n_tokens x")
    case True
    then obtain x where x: "x \<in> set (items p)" "0 < it_n_tokens x" "it_fd x = f" by blast
    then show ?thesis
      using tick_responds [OF assms(1,2,4) tp assms(5) x(1,2)] assms(6-8) by (auto simp: responded_def session_outcomes split: if_splits)
  next
    case False
    then have "pool_find (tick_pool r) f = Some s"
      by (intro tick_idle [OF assms(1-3) tp assms(5,6)]) (auto simp: not_less)
    then show ?thesis using assms(7) by simp
  qed
qed

section \<open>Decoding sessions are served\<close>

lemma decode_planned:
  assumes "sch_ok sch" and "pool_ok cfg S" and "tick_plan sch S = (p, m)"
    and "int (length S) \<le> min 8 (batch_cap sch)" and "pool_find S f = Some s" and "decode_ready s"
  shows "decode_item f \<in> set (items p)"
proof -
  have wf: "pool_wf S" using assms(2) by (simp add: pool_ok_def)
  have cur: "cursor_ok S (rr_decode_idx sch) (rr_prefill_idx sch)"
    using assms(1,2) by (simp add: cursor_ok_def sch_ok_def pool_ok_def)
  let ?B = "min (target_batch sch) (batch_cap sch)" and ?D = "decode_pool S"
  have "(f, s) \<in> set S" "fd s = f" using assms(5) pool_find_iff [OF wf] pool_wf_find [OF wf] by auto
  then have f: "f \<in> set ?D" using assms(6) by (force simp: decode_pool_def)
  have "int (length ?D) \<le> ?B" using assms(1,4) pool_lengths(1) [of S] by (auto simp: sch_ok_def min_def split: if_splits)
  then have "take (nat ?B) (rotate (rr_decode_idx sch) ?D) = rotate (rr_decode_idx sch) ?D" by (simp add: le_nat_iff)
  then have "decode_item f \<in> set (items (schedule_tick S (batch_cap sch) (target_batch sch) (rr_decode_idx sch) (rr_prefill_idx sch)))"
    using plan_parts [OF refl, of S "batch_cap sch" "target_batch sch" "rr_decode_idx sch" "rr_prefill_idx sch"]
      rr_order_rotate [OF cursor_bounds(1) [OF cur]] f by (auto simp: decode_part_def)
  then show ?thesis using baseline.guarded_decode [OF assms(2) cur assms(3) [unfolded tick_plan_def]] by simp
qed

lemma tick_decodes:
  assumes "sch_ok sch" and "pool_ok cfg S" and "responsive E" and "int (length S) \<le> min 8 (batch_cap sch)"
    and "tick E now_ns dur_ns sch c S = Inr r" and "pool_find S f = Some s" and "decode_ready s"
  shows "\<exists>s' t. pool_find (tick_pool r) f = Some s' \<and>
    s' = (if ends_stream (env_vocab E) (sch_config sch) t s then end_stream (sch_config sch) now_ns (consume s)
          else next_token (env_vocab E) now_ns t (consume s))"
proof -
  obtain p m where tp: "tick_plan sch S = (p, m)" by fastforce
  have "decode_item f \<in> set (items p)" by (rule decode_planned [OF assms(1,2) tp assms(4,6,7)])
  from tick_responds [OF assms(1,2,3) tp assms(5) this] assms(6) show ?thesis by (auto simp: responded_def)
qed

section \<open>The stream ends\<close>

text \<open>
  A run of ticks with nothing in between: each tick starts from what the previous one left.
\<close>

definition tick_run :: "('c, 'r) env \<Rightarrow> (nat \<Rightarrow> u64) \<Rightarrow> (nat \<Rightarrow> nat) \<Rightarrow> (nat \<Rightarrow> 'r Scheduler) \<Rightarrow> (nat \<Rightarrow> 'c) \<Rightarrow>
    (nat \<Rightarrow> SessionPool) \<Rightarrow> bool" where
  "tick_run E now dur sch c S \<longleftrightarrow>
     (\<forall>k. \<exists>fds. tick E (now k) (dur k) (sch k) (c k) (S k) = Inr (fds, sch (Suc k), c (Suc k), S (Suc k)))"

lemma tick_run_ok:
  assumes "tick_run E now dur sch c S" and "sch_ok (sch 0)" and "env_ok E" and "pool_ok (sch_config (sch 0)) (S 0)"
  shows "sch_ok (sch k) \<and> pool_ok (sch_config (sch 0)) (S k) \<and> sch_config (sch k) = sch_config (sch 0) \<and>
    batch_cap (sch k) = batch_cap (sch 0) \<and> length (S k) = length (S 0)"
proof (induction k)
  case 0
  then show ?case using assms by simp
next
  case (Suc k)
  obtain fds where t: "tick E (now k) (dur k) (sch k) (c k) (S k) = Inr (fds, sch (Suc k), c (Suc k), S (Suc k))"
    using assms(1) by (auto simp: tick_run_def)
  have "sch_ok (sch (Suc k)) \<and> sch_config (sch (Suc k)) = sch_config (sch k) \<and> batch_cap (sch (Suc k)) = batch_cap (sch k) \<and>
      pool_ok (sch_config (sch k)) (S (Suc k)) \<and> map fst (S (Suc k)) = map fst (S k)"
    using tick_sound [of "sch k" E "S k" "now k" "dur k" "c k"] Suc assms(3) t by auto
  then show ?case using Suc by (metis length_map)
qed

lemma next_token_facts:
  "decode_ready (next_token v now_ns t (consume s))" "generated_count (next_token v now_ns t (consume s)) = generated_count s + 1"
  "state (end_stream cfg now_ns s) = STREAM"
  by (simp_all add: decode_ready_def session_outcomes)

lemma run_decodes:
  assumes run: "tick_run E now dur sch c S" and ok: "sch_ok (sch 0)" "env_ok E" "pool_ok (sch_config (sch 0)) (S 0)"
    and E: "responsive E" and few: "int (length (S 0)) \<le> min 8 (batch_cap (sch 0))"
    and s: "pool_find (S j) f = Some s" "decode_ready s"
  shows "\<exists>s' tk. pool_find (S (Suc j)) f = Some s' \<and>
    s' = (if ends_stream (env_vocab E) (sch_config (sch 0)) tk s then end_stream (sch_config (sch 0)) (now j) (consume s)
          else next_token (env_vocab E) (now j) tk (consume s))"
proof -
  note inv = tick_run_ok [OF run ok, of j]
  obtain fds where t: "tick E (now j) (dur j) (sch j) (c j) (S j) = Inr (fds, sch (Suc j), c (Suc j), S (Suc j))"
    using run unfolding tick_run_def by blast
  have "sch_ok (sch j)" "pool_ok (sch_config (sch 0)) (S j)" "int (length (S j)) \<le> min 8 (batch_cap (sch j))"
    and cfg: "sch_config (sch j) = sch_config (sch 0)" using inv few by simp_all
  from tick_decodes [OF this(1,2) E this(3) t s] show ?thesis by (simp only: cfg tick_pool_def prod.case)
qed

lemma decode_ends_from:
  assumes run: "tick_run E now dur sch c S" and ok: "sch_ok (sch 0)" "env_ok E" "pool_ok (sch_config (sch 0)) (S 0)"
    and E: "responsive E" and few: "int (length (S 0)) \<le> min 8 (batch_cap (sch 0))"
    and "pool_find (S j) f = Some s" and "decode_ready s"
    and "unat (max_tokens (sch_config (sch 0))) - unat (generated_count s) = n"
  shows "\<exists>k s'. j < k \<and> k \<le> j + n + 1 \<and> pool_find (S k) f = Some s' \<and> state s' = STREAM"
  using assms(7-9)
proof (induction n arbitrary: j s)
  case (0 j s)
  from run_decodes [OF run ok E few 0(1,2)] obtain s' tk where s': "pool_find (S (Suc j)) f = Some s'"
    "s' = (if ends_stream (env_vocab E) (sch_config (sch 0)) tk s then end_stream (sch_config (sch 0)) (now j) (consume s)
           else next_token (env_vocab E) (now j) tk (consume s))" by blast
  have "ends_stream (env_vocab E) (sch_config (sch 0)) tk s" using 0(3) by (simp add: ends_stream_def word_le_nat_alt)
  then show ?case using s' by (intro exI [of _ "Suc j"] exI [of _ s']) (simp add: next_token_facts)
next
  case (Suc n j s)
  from run_decodes [OF run ok E few Suc.prems(1,2)] obtain s' tk where s': "pool_find (S (Suc j)) f = Some s'"
    "s' = (if ends_stream (env_vocab E) (sch_config (sch 0)) tk s then end_stream (sch_config (sch 0)) (now j) (consume s)
           else next_token (env_vocab E) (now j) tk (consume s))" by blast
  show ?case
  proof (cases "ends_stream (env_vocab E) (sch_config (sch 0)) tk s")
    case True
    then show ?thesis using s' by (intro exI [of _ "Suc j"] exI [of _ s']) (simp add: next_token_facts)
  next
    case False
    then have s2: "s' = next_token (env_vocab E) (now j) tk (consume s)" using s'(2) by simp
    have lt: "generated_count s < max_tokens (sch_config (sch 0))" using False by (simp add: ends_stream_def not_le)
    have "unat (generated_count s') = unat (generated_count s) + 1"
      using count_step_nat [OF lt] by (simp add: s2 next_token_facts)
    then have n: "unat (max_tokens (sch_config (sch 0))) - unat (generated_count s') = n" using Suc.prems(3) by simp
    have "decode_ready s'" by (simp add: s2 next_token_facts)
    from Suc.IH [OF s'(1) this n] obtain k t where "Suc j < k" "k \<le> Suc j + n + 1" "pool_find (S k) f = Some t" "state t = STREAM"
      by blast
    then show ?thesis by (intro exI [of _ k] exI [of _ t]) simp
  qed
qed

text \<open>
  C13. Generation terminates: when the model decodes and returns logits and there are at most 8
  sessions (and at most the batch capacity), a session that is decoding with a pending token is
  served by every tick and its stream ends after at most as many ticks as tokens it has left,
  plus one, whatever tokens are sampled.
\<close>

theorem decode_terminates:
  assumes "tick_run E now dur sch c S" and "sch_ok (sch 0)" and "env_ok E" and "pool_ok (sch_config (sch 0)) (S 0)"
    and "responsive E" and "int (length (S 0)) \<le> min 8 (batch_cap (sch 0))"
    and "pool_find (S 0) f = Some s" and "decode_ready s"
  shows "\<exists>k s'. k \<le> unat (max_tokens (sch_config (sch 0))) - unat (generated_count s) + 1 \<and>
    pool_find (S k) f = Some s' \<and> state s' = STREAM"
  using decode_ends_from [OF assms refl] by auto

text \<open>A run that exists: ticks repeated on the sample table.\<close>

definition demo_step :: "nat Scheduler \<times> unit \<times> SessionPool \<Rightarrow> nat Scheduler \<times> unit \<times> SessionPool" where
  "demo_step st =
     (case st of (sch, c, S) \<Rightarrow>
        (case tick (demo_env 0) 5 1000 sch c S of Inl _ \<Rightarrow> st | Inr (fds, st') \<Rightarrow> st'))"

definition demo_run :: "nat \<Rightarrow> nat Scheduler \<times> unit \<times> SessionPool" where
  "demo_run k = (demo_step ^^ k) (demo_sched, (), demo_pool)"

lemma demo_run_step:
  "\<exists>fds. tick (demo_env 0) 5 1000 (fst (demo_run k)) (fst (snd (demo_run k))) (snd (snd (demo_run k))) = Inr (fds, demo_run (Suc k)) \<and>
     sch_ok (fst (demo_run k)) \<and> sch_config (fst (demo_run k)) = default_config \<and> pool_ok default_config (snd (snd (demo_run k)))"
proof (induction k)
  case 0
  obtain fds st where "tick (demo_env 0) 5 1000 demo_sched () demo_pool = Inr (fds, st)" using demo_tick [of 0] by blast
  then show ?case using demo_sched_ok(1,3) demo_pool_ok by (simp add: demo_run_def demo_step_def)
next
  case (Suc k)
  obtain sch c S where k: "demo_run k = (sch, c, S)" by (metis prod_cases3)
  from Suc obtain fds where t: "tick (demo_env 0) 5 1000 sch c S = Inr (fds, demo_run (Suc k))"
    and ok: "sch_ok sch" "sch_config sch = default_config" "pool_ok (sch_config sch) S" by (auto simp: k)
  obtain sch' c' S' where k1: "demo_run (Suc k) = (sch', c', S')" by (metis prod_cases3)
  from tick_sound [OF ok(1) demo_sched_ok(2) ok(3) t [unfolded k1]]
  have ok': "sch_ok sch'" "sch_config sch' = default_config" "pool_ok default_config S'" using ok(2) by auto
  then obtain fds' st where t': "tick (demo_env 0) 5 1000 sch' c' S' = Inr (fds', st)"
    using tick_Inr [of sch' default_config S' "demo_env 0" 5 1000 c'] by blast
  have "demo_run (Suc (Suc k)) = demo_step (demo_run (Suc k))" by (simp add: demo_run_def)
  also have "\<dots> = st" using t' by (simp add: k1 demo_step_def)
  finally show ?case using ok' t' by (simp add: k1)
qed

theorem decode_terminates_witness:
  "\<exists>k \<le> 65. \<exists>s'. pool_find (snd (snd (demo_run k))) 3 = Some s' \<and> state s' = STREAM"
proof -
  have run: "tick_run (demo_env 0) (\<lambda>_. 5) (\<lambda>_. 1000) (\<lambda>k. fst (demo_run k)) (\<lambda>k. fst (snd (demo_run k))) (\<lambda>k. snd (snd (demo_run k)))"
    unfolding tick_run_def using demo_run_step by (metis prod.collapse)
  have start: "demo_run 0 = (demo_sched, (), demo_pool)" by (simp add: demo_run_def)
  have "responsive (demo_env 0)" by (simp add: responsive_def demo_env_def demo_llama_def)
  moreover have "int (length demo_pool) \<le> min 8 (batch_cap demo_sched)" by (simp add: demo_pool_def demo_sched_def)
  moreover have "unat (max_tokens (sch_config demo_sched)) = 64" "decode_ready (decoding 3)"
    by (simp_all add: demo_sched_ok(3) default_config_def)
  moreover have "generated_count (decoding 3) = 0" by (simp add: decoding_def new_session_def)
  ultimately show ?thesis
    using decode_terminates [OF run, where f = 3 and s = "decoding 3"] demo_sched_ok demo_ok demo_pool_facts(5)
    by (auto simp: start)
qed

end
