(* ===== verification/Daemon_Dialogue.thy ===== *)
theory Daemon_Dialogue
  imports Daemon_Memory Cli_Properties Tick_Progress
begin

text \<open>
  The conversation between a client and the daemon. The answers of the daemon are described as
  responses: a stream of tokens with its end event, a stream broken off by an error event, a
  metrics reply. Over every run in which no client sends a request into the middle of another, what
  is sent and queued for a client is one response for each frame taken from it, in order, then
  the tokens so far of the request in hand. Together with the client's loop this says
  what the user of the command-line client sees.
\<close>

section \<open>Responses\<close>

datatype response =
    Streamed string "(string \<times> int) list" string
  | Broken string "(string \<times> int) list" string string
  | Metrics_Reply string

definition token_payloads :: "string \<Rightarrow> (string \<times> int) list \<Rightarrow> string list" where
  "token_payloads rid toks = map (\<lambda>(t, i). token_json rid t i) toks"

fun response_payloads :: "response \<Rightarrow> string list" where
  "response_payloads (Streamed rid toks reason) = token_payloads rid toks @ [eos_json rid reason]"
| "response_payloads (Broken rid toks code msg) = token_payloads rid toks @ [error_json rid code msg]"
| "response_payloads (Metrics_Reply p) = [p]"

text \<open>Tokens with their text, without those that have none.\<close>

definition pieces :: "llama_vocab \<Rightarrow> (string \<times> int) list \<Rightarrow> bool" where
  "pieces v toks \<longleftrightarrow> list_all (\<lambda>(t, i). in_vocab v i \<and> t = token_to_piece_str (Some v) i True \<and> t \<noteq> []) toks"

text \<open>
  The answer to a frame, \<open>None\<close> standing for a malformed header. The text of a request decides between
  the metrics, one particular refusal, an empty stream and a stream under the request's id: of at
  most \<open>max_tokens + 1\<close> tokens of the vocabulary, closed by an end event or, when the model may fail, by the error of a failed decode.
\<close>

definition stream_ok :: "('k, 'c, 'r) denv \<Rightarrow> (string \<times> int) list \<Rightarrow> bool" where
  "stream_ok D toks \<longleftrightarrow> pieces (env_vocab (de_env D)) toks \<and> length toks \<le> Suc (unat (max_tokens (de_cfg D)))"

definition verdict_of :: "('k, 'c, 'r) denv \<Rightarrow> string \<Rightarrow> verdict" where
  "verdict_of D = verdict (de_cfg D) (Some (env_vocab (de_env D)))"

fun answers :: "('k, 'c, 'r) denv \<Rightarrow> string option \<Rightarrow> response \<Rightarrow> bool" where
  "answers D None (Broken rid toks code msg) \<longleftrightarrow>
     toks = [] \<and> (code, msg) \<in> {(''E_PROTO_INVALID_LEN'', ''invalid frame length 0''), (''E_PROTO_FRAME_TOO_LARGE'', ''frame too large'')}"
| "answers D None _ \<longleftrightarrow> False"
| "answers D (Some js) (Metrics_Reply p) \<longleftrightarrow>
     verdict_of D js = Admin \<and> (\<exists>m active. p = metrics_payload (de_ld D) m active (de_debug D))"
| "answers D (Some js) (Streamed rid toks reason) \<longleftrightarrow>
     rid = asked_id js \<and>
     (verdict_of D js = Nothing_To_Do \<and> toks = [] \<and> reason = ''stop'' \<or>
      verdict_of D js = Run \<and> stream_ok D toks \<and> reason \<in> {''stop'', ''length''})"
| "answers D (Some js) (Broken rid toks code msg) \<longleftrightarrow>
     rid = asked_id js \<and>
     (verdict_of D js = Refuse code msg \<and> toks = [] \<or>
      verdict_of D js = Run \<and> stream_ok D toks \<and> code = ''E_RUNTIME_DECODE'' \<and> msg = ''decode failed'' \<and>
      \<not> responsive (de_env D))"

section \<open>One conversation\<close>

text \<open>All that was asked has been answered.\<close>

definition settled :: "('k, 'c, 'r) denv \<Rightarrow> string option list \<Rightarrow> byte list \<Rightarrow> bool" where
  "settled D asks out \<longleftrightarrow> (\<exists>rs. list_all2 (answers D) asks rs \<and> out = frames (concat (map response_payloads rs)))"

text \<open>A request being worked on, with the tokens it has got so far.\<close>

definition working :: "ClientSession \<Rightarrow> bool" where
  "working s \<longleftrightarrow> state s = PREFILL \<or> state s = DECODE"

definition in_hand :: "('k, 'c, 'r) denv \<Rightarrow> string \<Rightarrow> (string \<times> int) list \<Rightarrow> ClientSession \<Rightarrow> bool" where
  "in_hand D js toks s \<longleftrightarrow>
     verdict_of D js = Run \<and> request_id s = asked_id js \<and>
     prompt_tokens s = tokenize (Some (env_vocab (de_env D))) (asked_prompt js) True True \<and>
     pieces (env_vocab (de_env D)) toks \<and>
     (if state s = PREFILL then toks = [] else length toks \<le> Suc (unat (generated_count s)))"

text \<open>
  What was received is the frames taken and the rest of the buffer; what was sent and queued is the
  answers to them, and for a request in hand its tokens.
\<close>

definition dialogue :: "('k, 'c, 'r) denv \<Rightarrow> byte list \<times> string option list \<Rightarrow> byte list \<Rightarrow> ClientSession \<Rightarrow> bool" where
  "dialogue D = (\<lambda>(got, asks) out s.
     got = frames (List.map_filter (\<lambda>a. a) asks) @ rx s \<and>
     (if working s
      then \<exists>earlier js out0 toks. asks = earlier @ [Some js] \<and> settled D earlier out0 \<and> in_hand D js toks s \<and>
             out = out0 @ frames (token_payloads (request_id s) toks)
      else settled D asks out))"

lemma settled_Nil [simp]: "settled D [] []"
  by (simp add: settled_def frames_def)

lemma settled_snoc:
  assumes "settled D asks out" and "answers D a r"
  shows "settled D (asks @ [a]) (out @ frames (response_payloads r))"
proof -
  obtain rs where "list_all2 (answers D) asks rs" "out = frames (concat (map response_payloads rs))"
    using assms(1) by (auto simp: settled_def)
  then show ?thesis using assms(2)
    unfolding settled_def by (intro exI [of _ "rs @ [r]"]) (simp add: list_all2_appendI frames_append)
qed

lemma frames_one: "frames [p] = write_frame [] p"
  by (simp add: frames_def)

lemma frames_Nil [simp]: "frames [] = []"
  by (simp add: frames_def)

lemma token_payloads_simps [simp]:
  "token_payloads rid [] = []" "token_payloads rid (toks @ toks') = token_payloads rid toks @ token_payloads rid toks'"
  by (simp_all add: token_payloads_def)

lemma dialogue_cong:
  assumes "dialogue D g out s" and "rx s' = rx s" and "state s' = state s \<or> (\<not> working s \<and> \<not> working s')"
    and "request_id s' = request_id s" and "prompt_tokens s' = prompt_tokens s \<or> \<not> working s"
    and "generated_count s' = generated_count s \<or> \<not> working s"
  shows "dialogue D g out s'"
proof -
  have w: "working s' = working s" using assms(3) by (auto simp: working_def)
  have "in_hand D js toks s' = in_hand D js toks s" if "working s" for js toks
    using that assms(3-6) by (auto simp: in_hand_def)
  then show ?thesis using assms(1,2,4) by (cases g) (auto simp: dialogue_def w)
qed

section \<open>Ticks\<close>

text \<open>The end of a request in hand.\<close>

lemma dialogue_ends:
  assumes "dialogue D g out s" and "working s" and "rx s' = rx s" and "\<not> working s'"
    and "\<And>js toks. in_hand D js toks s \<Longrightarrow> \<exists>r. answers D (Some js) r \<and>
      response_payloads r = token_payloads (request_id s) toks @ [p]"
  shows "dialogue D g (out @ write_frame [] p) s'"
proof -
  obtain got asks where g: "g = (got, asks)" by fastforce
  from assms(1,2) obtain earlier js out0 toks where
    a: "asks = earlier @ [Some js]" "settled D earlier out0" "in_hand D js toks s" "out = out0 @ frames (token_payloads (request_id s) toks)"
    by (auto simp: dialogue_def g)
  from assms(5) [OF a(3)] obtain r where r: "answers D (Some js) r" "response_payloads r = token_payloads (request_id s) toks @ [p]" by blast
  have "settled D asks (out @ write_frame [] p)"
    using settled_snoc [OF a(2) r(1)] by (simp add: a(1,4) r(2) frames_append frames_one)
  then show ?thesis using assms(1,3,4) by (simp add: dialogue_def g)
qed

text \<open>One token more.\<close>

definition extra :: "llama_vocab \<Rightarrow> int \<Rightarrow> (string \<times> int) list" where
  "extra v t = (let piece = token_to_piece_str (Some v) t True in if piece = [] then [] else [(piece, t)])"

lemma emit_piece_tx: "tx (emit_piece v t s) = tx s @ frames (token_payloads (request_id s) (extra v t))"
  by (simp add: emit_piece_def extra_def Let_def append_events token_payloads_def frames_one)

lemma pieces_extra: "in_vocab v t \<Longrightarrow> pieces v toks \<Longrightarrow> pieces v (toks @ extra v t)"
  by (simp add: pieces_def extra_def Let_def)

lemma dialogue_token:
  assumes "dialogue D g out s" and "working s" and "in_vocab (env_vocab (de_env D)) t" and "state s' = DECODE"
    and "rx s' = rx s" and "request_id s' = request_id s" and "prompt_tokens s' = prompt_tokens s"
    and "state s = DECODE \<Longrightarrow> unat (generated_count s') = Suc (unat (generated_count s))"
  shows "dialogue D g (out @ frames (token_payloads (request_id s) (extra (env_vocab (de_env D)) t))) s'"
proof -
  let ?x = "extra (env_vocab (de_env D)) t"
  obtain got asks where g: "g = (got, asks)" by fastforce
  from assms(1,2) obtain earlier js out0 toks where
    a: "asks = earlier @ [Some js]" "settled D earlier out0" "in_hand D js toks s" "out = out0 @ frames (token_payloads (request_id s) toks)"
    by (auto simp: dialogue_def g)
  have "length ?x \<le> 1" by (simp add: extra_def Let_def)
  moreover have "state s = PREFILL \<Longrightarrow> toks = []" "state s = DECODE \<Longrightarrow> length toks \<le> Suc (unat (generated_count s))"
    using a(3) by (auto simp: in_hand_def)
  ultimately have "length (toks @ ?x) \<le> Suc (unat (generated_count s'))"
    using assms(2,8) by (cases "state s = PREFILL") (auto simp: working_def)
  then have "in_hand D js (toks @ ?x) s'"
    using a(3) assms(3-7) by (simp add: in_hand_def pieces_extra)
  moreover have "got = frames (List.map_filter (\<lambda>a. a) asks) @ rx s'" using assms(1,5) by (simp add: dialogue_def g)
  ultimately show ?thesis
    using a(1,2,4) assms(4,6) by (auto simp: dialogue_def g working_def frames_append intro!: exI [of _ "toks @ ?x"])
qed

lemma in_hand_bound: "in_hand D js toks s \<Longrightarrow> sess_ok (de_cfg D) s \<Longrightarrow> stream_ok D toks"
  by (auto simp: in_hand_def stream_ok_def sess_ok_def word_le_nat_alt split: if_splits)

text \<open>The four ways a session that is served changes its queue.\<close>

lemma dialogue_failed:
  assumes "dialogue D g (h @ tx s) s" and "working s" and "sess_ok (de_cfg D) s" and "\<not> responsive (de_env D)"
    and "tx t = tx s" and "rx t = rx s" and "request_id t = request_id s"
  shows "dialogue D g (h @ tx (failed t)) (failed t)"
proof -
  have "dialogue D g ((h @ tx s) @ write_frame [] (error_json (request_id s) ''E_RUNTIME_DECODE'' ''decode failed'')) (failed t)"
  proof (rule dialogue_ends [OF assms(1,2)])
    fix js toks assume "in_hand D js toks s"
    then show "\<exists>r. answers D (Some js) r \<and> response_payloads r =
        token_payloads (request_id s) toks @ [error_json (request_id s) ''E_RUNTIME_DECODE'' ''decode failed'']"
      using in_hand_bound [OF _ assms(3)] assms(4)
      by (intro exI [of _ "Broken (request_id s) toks ''E_RUNTIME_DECODE'' ''decode failed''"]) (auto simp: in_hand_def)
  qed (use assms(6) in \<open>simp_all add: failed_def working_def\<close>)
  then show ?thesis using assms(5,7) by (simp add: failed_def append_events)
qed

lemma dialogue_first:
  assumes "dialogue D g (h @ tx s) s" and "state s = PREFILL" and "in_vocab (env_vocab (de_env D)) t"
    and s': "s' = first_token (env_vocab (de_env D)) now_ns t (advance n s)"
  shows "dialogue D g (h @ tx s') s'"
proof -
  have "dialogue D g ((h @ tx s) @ frames (token_payloads (request_id s) (extra (env_vocab (de_env D)) t))) s'"
    by (rule dialogue_token [OF assms(1) _ assms(3)])
      (use assms(2) in \<open>simp_all add: s' working_def first_token_def advance_def stamp_emit_def emit_piece_def Let_def\<close>)
  then show ?thesis by (simp add: s' first_token_def advance_def stamp_emit_def emit_piece_tx)
qed

lemma dialogue_next:
  assumes "dialogue D g (h @ tx s) s" and "state s = DECODE" and "in_vocab (env_vocab (de_env D)) t"
    and "generated_count s < max_tokens (de_cfg D)" and s': "s' = next_token (env_vocab (de_env D)) now_ns t (consume s)"
  shows "dialogue D g (h @ tx s') s'"
proof -
  have "dialogue D g ((h @ tx s) @ frames (token_payloads (request_id s) (extra (env_vocab (de_env D)) t))) s'"
    by (rule dialogue_token [OF assms(1) _ assms(3)])
      (use assms(2) count_step_nat [OF assms(4)]
        in \<open>simp_all add: s' working_def next_token_def consume_def stamp_emit_def emit_piece_def Let_def\<close>)
  then show ?thesis by (simp add: s' next_token_def consume_def stamp_emit_def emit_piece_tx)
qed

lemma dialogue_end:
  assumes "dialogue D g (h @ tx s) s" and "state s = DECODE" and "sess_ok (de_cfg D) s"
    and s': "s' = end_stream (de_cfg D) now_ns (consume s)"
  shows "dialogue D g (h @ tx s') s'"
proof -
  let ?r = "if generated_count s \<ge> max_tokens (de_cfg D) then ''length'' else ''stop''"
  have "dialogue D g ((h @ tx s) @ write_frame [] (eos_json (request_id s) ?r)) s'"
  proof (rule dialogue_ends [OF assms(1)])
    fix js toks assume "in_hand D js toks s"
    then show "\<exists>r. answers D (Some js) r \<and> response_payloads r = token_payloads (request_id s) toks @ [eos_json (request_id s) ?r]"
      using in_hand_bound [OF _ assms(3)] by (intro exI [of _ "Streamed (request_id s) toks ?r"]) (auto simp: in_hand_def)
  qed (use assms(2) in \<open>simp_all add: s' working_def end_stream_def consume_def stamp_emit_def\<close>)
  then show ?thesis by (simp add: s' end_stream_def consume_def stamp_emit_def append_events)
qed

lemma tick_dialogue:
  assumes "tick_trans (env_vocab (de_env D)) (de_cfg D) now_ns s s'" and ok: "sess_ok (de_cfg D) s" and d: "dialogue D g (h @ tx s) s"
    and nf: "responsive (de_env D) \<Longrightarrow> state s' = ERRORED \<Longrightarrow> s' = s"
  shows "dialogue D g (h @ tx s') s'"
proof -
  have fails: "dialogue D g (h @ tx s') s'"
    if "s' = failed t" "working s" "tx t = tx s" "rx t = rx s" "request_id t = request_id s" for t
  proof -
    have "\<not> responsive (de_env D)" using nf that(1,2) by (auto simp: failed_def working_def)
    from dialogue_failed [OF d that(2) ok this that(3-5)] show ?thesis by (simp add: that(1))
  qed
  show ?thesis using assms(1)
  proof (cases rule: tick_trans.cases)
    case (prefill_failed n)
    then show ?thesis using fails by (simp add: chunk_of_def prefill_ready_def advance_def working_def)
  next
    case (prefill_no_logits n)
    then show ?thesis using dialogue_cong [OF d, of s'] by (simp add: advance_def)
  next
    case (prefill_first n t)
    then show ?thesis using dialogue_first [OF d] by (simp add: chunk_of_def prefill_ready_def)
  next
    case decode_failed
    then show ?thesis using fails by (simp add: decode_ready_def consume_def working_def)
  next
    case decode_no_logits
    then show ?thesis using dialogue_cong [OF d, of s'] by (simp add: consume_def)
  next
    case (decode_next t)
    then show ?thesis using dialogue_next [OF d] by (simp add: decode_ready_def ends_stream_def not_le)
  next
    case (decode_end t)
    then show ?thesis using dialogue_end [OF d _ ok] by (simp add: decode_ready_def)
  qed (use d in simp)
qed

section \<open>Reading\<close>

text \<open>What one readable event takes off the buffer \<open>b\<close>.\<close>

definition taken :: "read_end \<Rightarrow> byte list \<Rightarrow> string option list" where
  "taken fin b =
     (if fin = Read_Error then []
      else case try_read_frame b kDefaultMaxFrameBytes of NeedMore \<Rightarrow> [] | FrameErr _ \<Rightarrow> [None] | Frame js _ \<Rightarrow> [Some js])"

lemma map_filter_snoc:
  "List.map_filter f (xs @ [x]) = List.map_filter f xs @ (case f x of None \<Rightarrow> [] | Some y \<Rightarrow> [y])"
  by (induction xs) (simp_all add: List.map_filter_simps split: option.split)

lemma dialogue_more:
  assumes "dialogue D (got, asks) out s" and "rx s' = rx s @ b" and "same_work s s'" and "request_id s' = request_id s"
  shows "dialogue D (got @ b, asks) out s'"
proof -
  have "dialogue D (got, asks) out (s'\<lparr>rx := rx s\<rparr>)"
    by (rule dialogue_cong [OF assms(1)]) (use assms(3,4) in \<open>simp_all add: same_work_def\<close>)
  then show ?thesis using assms(2) by (auto simp: dialogue_def working_def in_hand_def)
qed

text \<open>A frame answered at once, and a request taken in hand.\<close>

lemma dialogue_answered:
  assumes "dialogue D (got, asks) out s" and "\<not> working s" and "answers D a r" and "\<not> working s'"
    and "rx s @ b = (case a of None \<Rightarrow> [] | Some js \<Rightarrow> write_frame [] js) @ rx s'"
    and "out' = out @ frames (response_payloads r)"
  shows "dialogue D (got @ b, asks @ [a]) out' s'"
  using assms settled_snoc [of D asks out a r]
  by (auto simp: dialogue_def map_filter_snoc frames_append frames_one split: option.split)

lemma dialogue_started:
  assumes "dialogue D (got, asks) out s" and "\<not> working s" and "in_hand D js [] s'" and "state s' = PREFILL"
    and "rx s @ b = write_frame [] js @ rx s'"
  shows "dialogue D (got @ b, asks @ [Some js]) out s'"
  using assms by (auto simp: dialogue_def map_filter_snoc frames_append frames_one working_def intro!: exI [of _ out] exI [of _ "[] :: (string \<times> int) list"])

lemma request_dialogue:
  assumes h: "handle_request P (de_cfg D) (Some (env_vocab (de_env D))) now_ns js next_id (s2, rr2) = ((s', rr), n)"
    and d: "dialogue D (got, asks) (h @ tx s) s" and w: "\<not> working s"
    and rx: "rx s @ b = write_frame [] js @ rx s2" and tx: "tx s2 = tx s" and rr2: "\<not> admin_request rr2"
  shows "if admin_request rr then verdict_of D js = Admin \<and> rx s' = rx s2 \<and> tx s' = tx s \<and> state s' = STREAM
    else dialogue D (got @ b, asks @ [Some js]) (h @ tx s') s'"
  using h
proof (cases rule: handle_request_cases)
  case admin
  then show ?thesis using tx by (simp add: verdict_of_def)
next
  case (refused rid code msg s1)
  have s1: "rx s1 = rx s2" "tx s1 = tx s" using refused(4) tx by (auto simp: set_sampling_keeps)
  have s': "s' = s1\<lparr>tx := append_error_event (tx s1) rid code msg, state := STREAM, read_closed := True\<rparr>" "\<not> admin_request rr"
    using refused(3) rr2 by (auto simp: reject_def)
  have "dialogue D (got @ b, asks @ [Some js]) (h @ tx s') s'"
  proof (rule dialogue_answered [OF d w, of "Some js" "Broken rid [] code msg"])
    show "answers D (Some js) (Broken rid [] code msg)" using refused(6,7) by (simp add: verdict_of_def)
  qed (use s' s1 rx in \<open>simp_all add: working_def frames_one append_events\<close>)
  then show ?thesis using s'(2) by simp
next
  case (nothing_to_do rid)
  have "dialogue D (got @ b, asks @ [Some js]) (h @ tx s') s'"
  proof (rule dialogue_answered [OF d w, of "Some js" "Streamed rid [] ''stop''"])
    show "answers D (Some js) (Streamed rid [] ''stop'')" using nothing_to_do(5,6) by (simp add: verdict_of_def)
  qed (use nothing_to_do rx tx in \<open>simp_all add: working_def frames_one append_events set_sampling_keeps\<close>)
  then show ?thesis using nothing_to_do rr2 by simp
next
  case (started rid prompt)
  have s': "state s' = PREFILL" "rx s' = rx s2" "tx s' = tx s" "request_id s' = rid"
    "prompt_tokens s' = tokenize (Some (env_vocab (de_env D))) prompt True True"
    using started(5) tx by (auto simp: start_request_def set_sampling_keeps)
  have "in_hand D js [] s'" using started(6-8) s' by (simp add: in_hand_def verdict_of_def pieces_def)
  from dialogue_started [OF d w this s'(1)] show ?thesis using rx s' started(4) rr2 by simp
qed

text \<open>A malformed header is answered by the refusal that goes with it.\<close>

lemma frame_error_dialogue:
  assumes d: "dialogue D (got, asks) (h @ tx s) s" and w: "\<not> working s"
    and e: "try_read_frame (rx s @ b) kDefaultMaxFrameBytes = FrameErr e"
    and s2: "rx s2 = rx s @ b" "tx s2 = tx s"
    and s': "reject rid (if str_find e ''invalid frame length 0'' 0 \<noteq> None then ''E_PROTO_INVALID_LEN'' else ''E_PROTO_FRAME_TOO_LARGE'') e
      (s2, rr2) = (s', rr)"
  shows "dialogue D (got @ b, asks @ [None]) (h @ tx s') s'" and "admin_request rr = admin_request rr2"
proof -
  define code where "code = (if str_find e ''invalid frame length 0'' 0 \<noteq> None then ''E_PROTO_INVALID_LEN'' else ''E_PROTO_FRAME_TOO_LARGE'')"
  have "e = ''invalid frame length 0'' \<or> e = ''frame too large''" using e by (auto simp: try_read_frame_def Let_def split: if_splits)
  then have "(code, e) \<in> {(''E_PROTO_INVALID_LEN'', ''invalid frame length 0''), (''E_PROTO_FRAME_TOO_LARGE'', ''frame too large'')}"
    unfolding code_def by (elim disjE; hypsubst; code_simp)
  then have a: "answers D None (Broken rid [] code e)" by simp
  have r: "s' = s2\<lparr>tx := append_error_event (tx s2) rid code e, state := STREAM, read_closed := True\<rparr>" "admin_request rr = admin_request rr2"
    using s' by (auto simp: reject_def code_def)
  then show "admin_request rr = admin_request rr2" by simp
  show "dialogue D (got @ b, asks @ [None]) (h @ tx s') s'"
    by (rule dialogue_answered [OF d w a]) (use r s2 in \<open>simp_all add: working_def frames_one append_events\<close>)
qed

lemma on_session_dialogue:
  assumes o: "on_session P (de_cfg D) (Some (env_vocab (de_env D))) now_ns chunks fin next_id s = ((s', rr), n)"
    and d: "dialogue D (got, asks) (h @ tx s) s"
    and p: "busy s \<Longrightarrow> fin = Read_Error \<or> try_read_frame (rx s @ concat chunks) kDefaultMaxFrameBytes = NeedMore"
  shows "if admin_request rr
    then \<not> working s \<and> tx s' = tx s \<and> state s' = STREAM \<and>
      (\<exists>js. verdict_of D js = Admin \<and> taken fin (rx s @ concat chunks) = [Some js] \<and> rx s @ concat chunks = write_frame [] js @ rx s')
    else dialogue D (got @ concat chunks, asks @ taken fin (rx s @ concat chunks)) (h @ tx s') s'"
proof (cases "fin = Read_Error \<or> try_read_frame (rx s @ concat chunks) kDefaultMaxFrameBytes = NeedMore")
  case True
  have t: "taken fin (rx s @ concat chunks) = []" using True by (auto simp: taken_def)
  note w = on_session_waits [OF o True]
  have "rx s' = rx s @ concat chunks" "request_id s' = request_id s"
    using o True by (auto simp: on_session_def Let_def drain_reads_keeps split: if_splits)
  then show ?thesis using dialogue_more [OF d _ w(1)] w t by (simp add: same_work_def)
next
  case False
  then have w: "\<not> working s" and fin: "fin \<noteq> Read_Error" using p by (auto simp: busy_def working_def)
  define s2 where "s2 = (if fin = Read_Eof then (drain_reads chunks now_ns s)\<lparr>read_closed := True, last_activity_ns := now_ns\<rparr>
               else drain_reads chunks now_ns s)"
  define rr2 where "rr2 = (if fin = Read_Eof then no_result\<lparr>removed_read := True\<rparr> else no_result)"
  have s2: "rx s2 = rx s @ concat chunks" "tx s2 = tx s" "request_id s2 = request_id s" and rr2: "\<not> admin_request rr2"
    by (simp_all add: s2_def rr2_def drain_reads_keeps no_result_def)
  note eq = o [unfolded on_session_frame [OF fin s2_def rr2_def], unfolded s2(1)]
  show ?thesis
  proof (cases "try_read_frame (rx s @ concat chunks) kDefaultMaxFrameBytes")
    case NeedMore
    then show ?thesis using False by simp
  next
    case (FrameErr e)
    then have "reject (request_id s2) (if str_find e ''invalid frame length 0'' 0 \<noteq> None then ''E_PROTO_INVALID_LEN'' else ''E_PROTO_FRAME_TOO_LARGE'') e
        (s2, rr2) = (s', rr)" using eq by simp
    from frame_error_dialogue [OF d w FrameErr s2(1,2) this] show ?thesis using FrameErr rr2 fin by (simp add: taken_def)
  next
    case (Frame js rest)
    then have h: "handle_request P (de_cfg D) (Some (env_vocab (de_env D))) now_ns js next_id (s2\<lparr>rx := rest\<rparr>, rr2) = ((s', rr), n)"
      using eq by simp
    have rx: "rx s @ concat chunks = write_frame [] js @ rx (s2\<lparr>rx := rest\<rparr>)" using try_read_frame_sound [OF Frame] by simp
    have "taken fin (rx s @ concat chunks) = [Some js]" using Frame fin by (simp add: taken_def)
    then show ?thesis using request_dialogue [OF h d w rx _ rr2] s2(2) w rx by (auto split: if_splits)
  qed
qed

section \<open>The handlers\<close>

lemma read_answer_dialogue:
  assumes a: "read_answer D f io d = (d3, wants)" and s3: "find_session (d_sm d3) f = Some s3" and s: "find_session (d_sm d) f = Some s"
    and dl: "dialogue D (got, asks) (h @ tx s) s"
    and p: "busy s \<Longrightarrow> snd (io_reads io) = Read_Error \<or>
      try_read_frame (rx s @ concat (fst (io_reads io))) kDefaultMaxFrameBytes = NeedMore"
  shows "dialogue D (got @ concat (fst (io_reads io)), asks @ taken (snd (io_reads io)) (rx s @ concat (fst (io_reads io))))
    (h @ tx s3) s3"
proof -
  obtain sm rr where r: "on_readable (env_platform (de_env D)) f (de_cfg D) (Some (env_vocab (de_env D))) (io_now io)
             (fst (io_reads io)) (snd (io_reads io)) (d_sm d) = (sm, rr)" by fastforce
  show ?thesis using r
  proof (cases rule: on_readable_cases)
    case absent
    then show ?thesis using s by simp
  next
    case (present s0 s' n)
    note os = on_session_dialogue [OF present(2)] and find = present(4)
    have s0: "s0 = s" using present(1) s by simp
    show ?thesis
    proof (cases "admin_request rr")
      case False
      then have "s3 = s'" using a s3 by (auto simp: read_answer_def r Let_def find split: if_splits)
      then show ?thesis using os [unfolded s0, OF dl p] False by simp
    next
      case True
      then obtain js where js: "\<not> working s" "tx s' = tx s" "verdict_of D js = Admin"
        "taken (snd (io_reads io)) (rx s @ concat (fst (io_reads io))) = [Some js]"
        "rx s @ concat (fst (io_reads io)) = write_frame [] js @ rx s'"
        using os [unfolded s0, OF dl p] by auto
      obtain m active where s3': "s3 = s'\<lparr>tx := write_frame (tx s') (metrics_payload (de_ld D) m active (de_debug D)), state := STREAM, read_closed := True\<rparr>"
        using a s3 True by (auto simp: read_answer_def r Let_def find find_upd answer_admin_def split: if_splits)
      have "dialogue D (got @ concat (fst (io_reads io)), asks @ [Some js]) (h @ tx s3) s3"
        by (rule dialogue_answered [OF dl js(1), of "Some js" "Metrics_Reply (metrics_payload (de_ld D) m active (de_debug D))"])
          (use js s3' in \<open>auto simp: working_def frames_one write_frame_append [of "tx s"]\<close>)
      then show ?thesis by (simp add: js(4))
    qed
  qed
qed

lemma reset_dialogue: "state s = STREAM \<Longrightarrow> dialogue D g out s \<Longrightarrow> dialogue D g out (reset_session s)"
  by (erule dialogue_cong) (simp_all add: reset_session_def working_def)

lemma finish_read_session:
  assumes "find_session (d_sm (finish_read D f d)) f = Some s'"
  obtains s where "find_session (d_sm d) f = Some s" "s' = s \<or> s' = reset_session s \<and> state s = STREAM"
  using assms by (auto simp: finish_read_def close_find find_upd split: option.splits if_splits)

lemma client_read_dialogue:
  assumes "find_session (d_sm (on_client_read D f io d)) f = Some s'" and "ev_fd ev = f" and "readable ev" and "f \<noteq> de_server D"
    and s: "find_session (d_sm d) f = Some s" and dl: "dialogue D (got, asks) (h @ tx s) s"
    and p: "busy s \<Longrightarrow> snd (io_reads io) = Read_Error \<or>
      try_read_frame (rx s @ concat (fst (io_reads io))) kDefaultMaxFrameBytes = NeedMore"
  shows "dialogue D (got @ concat (fst (io_reads io)), asks @ taken (snd (io_reads io)) (rx s @ concat (fst (io_reads io))))
    (h @ sent_event D (ev, io) d @ tx s') s'"
proof -
  obtain d3 wants where a: "read_answer D f io d = (d3, wants)" by fastforce
  note ra = read_answer_dialogue [OF a _ s dl p]
  show ?thesis
  proof (cases wants)
    case False
    then show ?thesis using assms(1-4) ra by (simp add: on_client_read_def a sent_event_def)
  next
    case True
    then have "find_session (d_sm (finish_read D f (upd_session f (write_now (io_write io)) d3))) f = Some s'"
      using assms(1) by (simp add: on_client_read_def a)
    then obtain s4 where s4: "find_session (d_sm (upd_session f (write_now (io_write io)) d3)) f = Some s4"
      "s' = s4 \<or> s' = reset_session s4 \<and> state s4 = STREAM" by (rule finish_read_session)
    then obtain s3 where s3: "find_session (d_sm d3) f = Some s3" "s4 = write_now (io_write io) s3" by (auto simp: find_upd)
    have sent: "sent_event D (ev, io) d @ tx s4 = tx s3" using True assms(2-4) s3 by (simp add: sent_event_def a written_now_split)
    have "dialogue D (got @ concat (fst (io_reads io)), asks @ taken (snd (io_reads io)) (rx s @ concat (fst (io_reads io))))
        (h @ sent_event D (ev, io) d @ tx s4) s4"
      unfolding sent by (rule dialogue_cong [OF ra [OF s3(1)]]) (simp_all add: s3(2) write_now_def split: write_result.split)
    moreover have "tx s' = tx s4" using s4(2) by (auto simp: reset_session_def)
    ultimately show ?thesis using s4(2) reset_dialogue by metis
  qed
qed

lemma drain_tx_quiet:
  assumes "drain_tx now_ns ws s = (t, broken)"
  shows "rx t = rx s" "request_id t = request_id s" "prompt_tokens t = prompt_tokens s" "generated_count t = generated_count s"
    "state t = state s"
proof -
  have "rx (fst (drain_tx now_ns ws s)) = rx s \<and> request_id (fst (drain_tx now_ns ws s)) = request_id s \<and>
    prompt_tokens (fst (drain_tx now_ns ws s)) = prompt_tokens s \<and> generated_count (fst (drain_tx now_ns ws s)) = generated_count s \<and>
    state (fst (drain_tx now_ns ws s)) = state s"
  proof (induction now_ns ws s rule: drain_tx.induct)
    case (2 now_ns w ws s)
    then show ?case by (cases w) auto
  qed simp
  then show "rx t = rx s" "request_id t = request_id s" "prompt_tokens t = prompt_tokens s" "generated_count t = generated_count s"
    "state t = state s" using assms by simp_all
qed

lemma client_write_dialogue:
  assumes "find_session (d_sm (on_client_write D f io d)) f = Some s'" and "ev_fd ev = f" and "\<not> readable ev" and "writable ev"
    and s: "find_session (d_sm d) f = Some s" and dl: "dialogue D g (h @ tx s) s"
  shows "dialogue D g (h @ sent_event D (ev, io) d @ tx s') s'"
proof -
  obtain t broken where dr: "drain_tx (io_now io) (io_writes io) s = (t, broken)" by fastforce
  have t: "s' = t \<or> s' = reset_session t \<and> state t = STREAM"
    using assms(1) by (auto simp: on_client_write_def s dr Let_def close_find find_upd split: if_splits)
  have sent: "sent_event D (ev, io) d @ tx t = tx s"
    using assms(2-4) s written_split [of "io_writes io" s "io_now io"] dr by (simp add: sent_event_def)
  have "dialogue D g (h @ sent_event D (ev, io) d @ tx t) t"
    unfolding sent by (rule dialogue_cong [OF dl]) (simp_all add: drain_tx_quiet [OF dr])
  moreover have "tx s' = tx t" using t by (auto simp: reset_session_def)
  ultimately show ?thesis using t reset_dialogue by metis
qed

end
