(* ===== verification/Daemon_Conversation.thy ===== *)
theory Daemon_Conversation
  imports Daemon_Dialogue
begin

text \<open>
  Conversations over whole runs. An inbox records, beside the history of what was sent, the bytes read
  from each live session and the frames taken from them. Every step of the loop keeps each
  session's dialogue, so requests are answered one by one and in order; the last section adds
  the command-line client at the other end.
\<close>

section \<open>The inbox\<close>

type_synonym inbox = "int \<Rightarrow> byte list \<times> string option list"

definition heard :: "('k, 'c, 'r) denv \<Rightarrow> PollEvent \<times> 'k io \<Rightarrow> ('k, 'c, 'r) daemon \<Rightarrow> byte list \<times> string option list" where
  "heard D = (\<lambda>(ev, io) d.
     if readable ev \<and> ev_fd ev \<noteq> de_server D then
       (case find_session (d_sm d) (ev_fd ev) of
          Some s \<Rightarrow> (concat (fst (io_reads io)), taken (snd (io_reads io)) (rx s @ concat (fst (io_reads io))))
        | None \<Rightarrow> ([], []))
     else ([], []))"

definition hear_event :: "('k, 'c, 'r) denv \<Rightarrow> PollEvent \<times> 'k io \<Rightarrow> ('k, 'c, 'r) daemon \<times> inbox \<Rightarrow>
    ('k, 'c, 'r) daemon \<times> inbox" where
  "hear_event D x = (\<lambda>(d, g).
     (handle_event D x d,
      \<lambda>f. if accepts D x d f then ([], [])
          else if f = ev_fd (fst x) then (fst (g f) @ fst (heard D x d), snd (g f) @ snd (heard D x d))
          else g f))"

fun inbox_of :: "('k, 'c, 'r) denv \<Rightarrow> 'k wakeup list \<Rightarrow> ('k, 'c, 'r) daemon \<times> inbox \<Rightarrow> inbox" where
  "inbox_of D [] (d, g) = g"
| "inbox_of D (w # ws) (d, g) =
     (if w_shutdown w then g
      else
        case wake d w of
          (nev, evs) \<Rightarrow>
            if nev < 0 then (if w_errno w = EINTR then inbox_of D ws (d, g) else g)
            else
              (case iterate D evs (w_idle w) (w_tick w) (w_dur w) d of
                 Inl _ \<Rightarrow> g
               | Inr d' \<Rightarrow> inbox_of D ws (d', snd (fold (hear_event D) evs (d, g)))))"

definition conversations :: "('k, 'c, 'r) denv \<Rightarrow> ('k, 'c, 'r) daemon \<Rightarrow> history \<Rightarrow> inbox \<Rightarrow> bool" where
  "conversations D d h g \<longleftrightarrow> (\<forall>f s. find_session (d_sm d) f = Some s \<longrightarrow> dialogue D (g f) (h f @ tx s) s)"

section \<open>Events\<close>

lemma own_event_dialogue:
  assumes f: "find_session (d_sm (handle_event D (ev, io) d)) (ev_fd ev) = Some s'" and x: "\<not> (ev_fd ev = de_server D \<and> readable ev)"
    and p: "polite_event D (ev, io) d" and c: "conversations D d h g"
  shows "dialogue D (fst (g (ev_fd ev)) @ fst (heard D (ev, io) d), snd (g (ev_fd ev)) @ snd (heard D (ev, io) d))
    (h (ev_fd ev) @ sent_event D (ev, io) d @ tx s') s'"
proof -
  from own_event_history [OF f x] obtain s where s: "find_session (d_sm d) (ev_fd ev) = Some s" by blast
  have dl: "dialogue D (g (ev_fd ev)) (h (ev_fd ev) @ tx s) s" using c s by (simp add: conversations_def)
  consider "readable ev" "ev_fd ev \<noteq> de_server D" | "\<not> readable ev" "writable ev" | "\<not> readable ev" "\<not> writable ev"
    using x by blast
  then show ?thesis
  proof cases
    case 1
    then have r: "find_session (d_sm (on_client_read D (ev_fd ev) io d)) (ev_fd ev) = Some s'" using f by (simp add: handle_event_def)
    have "busy s \<Longrightarrow> snd (io_reads io) = Read_Error \<or>
        try_read_frame (rx s @ concat (fst (io_reads io))) kDefaultMaxFrameBytes = NeedMore"
      using p 1 s by (simp add: polite_event_def)
    from client_read_dialogue [OF r refl 1 s, where got = "fst (g (ev_fd ev))" and asks = "snd (g (ev_fd ev))", OF _ this] dl
    show ?thesis using 1 s by (simp add: heard_def)
  next
    case 2
    then show ?thesis using client_write_dialogue [OF _ refl 2 s dl] f by (simp add: handle_event_def heard_def)
  next
    case 3
    then show ?thesis using f s dl by (simp add: handle_event_def sent_event_def heard_def)
  qed
qed

lemma conversations_event:
  assumes D: "denv_ok D" and d: "d_ok D d" and c: "conversations D d h g" and p: "polite_event D x d"
  shows "conversations D (handle_event D x d) (snd (note_event D x (d, h))) (snd (hear_event D x (d, g)))"
  unfolding conversations_def
proof (intro allI impI)
  fix f s' assume f: "find_session (d_sm (handle_event D x d)) f = Some s'"
  obtain ev io where x: "x = (ev, io)" by fastforce
  show "dialogue D (snd (hear_event D x (d, g)) f) (snd (note_event D x (d, h)) f @ tx s') s'"
  proof (cases "ev_fd ev = de_server D \<and> readable ev")
    case True
    have fresh: "dialogue D ([], []) [] (new_session\<lparr>fd := f, ctx := None, last_activity_ns := n\<rparr>)" for n
      by (simp add: dialogue_def working_def new_session_def List.map_filter_simps)
    have "if accepts D x d f then s' = new_session\<lparr>fd := f, ctx := None, last_activity_ns := io_now io\<rparr>
        else find_session (d_sm d) f = Some s'"
      using f True accept_find [OF D d, of ev io f] by (auto simp: handle_event_def x)
    then show ?thesis using True c fresh
      by (auto simp: note_event_def hear_event_def x heard_def sent_event_def conversations_def new_session_def split: if_splits)
  next
    case False
    then have a: "\<not> accepts D x d f" by (auto simp: accepts_def x)
    show ?thesis
    proof (cases "f = ev_fd ev")
      case True
      from own_event_dialogue [OF f [unfolded x True] False p [unfolded x] c] show ?thesis
        using a True by (simp add: note_event_def hear_event_def x)
    next
      case ne: False
      then have "find_session (d_sm d) f = Some s'" using f False by (auto simp: handle_event_def x others_kept split: if_splits)
      then show ?thesis using a ne c by (simp add: note_event_def hear_event_def x conversations_def)
    qed
  qed
qed

lemma conversations_events:
  assumes D: "denv_ok D" and "d_ok D d" and "next_seq_id (d_sm d) + int (length evs) \<le> INT_MAX" and "conversations D d h g"
    and "polite_events D evs d"
  shows "conversations D (fold (handle_event D) evs d) (snd (fold (note_event D) evs (d, h))) (snd (fold (hear_event D) evs (d, g)))"
  using assms(2-)
proof (induction evs arbitrary: d h g)
  case (Cons x evs)
  have room: "next_seq_id (d_sm d) < INT_MAX" using Cons.prems(2) by simp
  note ok = d_ok_event [OF D Cons.prems(1) room, of x]
  obtain h1 g1 where n: "note_event D x (d, h) = (handle_event D x d, h1)" "hear_event D x (d, g) = (handle_event D x d, g1)"
    by (simp add: note_event_def hear_event_def)
  have c: "conversations D (handle_event D x d) h1 g1"
    using conversations_event [OF D Cons.prems(1,3), of x] Cons.prems(4) n by simp
  have "next_seq_id (d_sm (handle_event D x d)) + int (length evs) \<le> INT_MAX" using ok Cons.prems(2) by simp
  from Cons.IH [OF conjunct1 [OF ok] this c] show ?case using Cons.prems(4) n by simp
qed simp

section \<open>The loop\<close>

lemma tick_unfailing:
  assumes D: "denv_ok D" and d: "d_ok D d" and t: "tick_and_arm D now dur d = Inr d'" and s: "find_session (d_sm d) f = Some s"
    and s': "find_session (d_sm d') f = Some s'" and r: "responsive (de_env D)" and e: "state s' = ERRORED"
  shows "s' = s"
proof -
  let ?S = "sm_sessions (d_sm d)"
  have sch: "sch_ok (d_sched d)" and E: "env_ok (de_env D)" and ok: "pool_ok (sch_config (d_sched d)) ?S"
    using d D by (auto simp: d_ok_def denv_ok_def sm_ok_def)
  obtain fds sch' c' S' where tk: "tick (de_env D) now dur (d_sched d) (d_ctx d) ?S = Inr (fds, sch', c', S')"
    using tick_Inr [OF sch ok, of "de_env D" now dur "d_ctx d"] by blast
  have "d_sm (fold (arm D) fds e) = d_sm e" for e by (induction fds arbitrary: e) (simp_all add: arm_sm)
  then have "pool_find S' f = Some s'" using t s' by (auto simp: tick_and_arm_def tk find_session_def)
  then show ?thesis using tick_no_failure [OF sch ok E r tk _ _ e] s by (simp add: find_session_def tick_pool_def)
qed

lemma conversations_iterate:
  assumes D: "denv_ok D" and d: "d_ok D d" and room: "next_seq_id (d_sm d) + int (length evs) \<le> INT_MAX"
    and c: "conversations D d h g" and p: "polite_events D evs d" and i: "iterate D evs now_idle now_tick dur d = Inr d'"
  shows "conversations D d' (snd (fold (note_event D) evs (d, h))) (snd (fold (hear_event D) evs (d, g)))"
  unfolding conversations_def
proof (intro allI impI)
  fix f s' assume f: "find_session (d_sm d') f = Some s'"
  let ?d1 = "fold (handle_event D) evs d"
  have ok2: "d_ok D (close_idle D now_idle ?d1)" by (rule keeps_idle [OF d_ok_events [OF D d room]])
  from tick_session [OF D ok2 i [unfolded iterate_def] f] obtain s where
    s: "find_session (d_sm (close_idle D now_idle ?d1)) f = Some s" "sess_ok (de_cfg D) s"
      "tick_trans (env_vocab (de_env D)) (de_cfg D) now_tick s s'" by blast
  have "dialogue D (snd (fold (hear_event D) evs (d, g)) f) (snd (fold (note_event D) evs (d, h)) f @ tx s) s"
    using conversations_events [OF D d room c p] idle_find [OF s(1)] by (simp add: conversations_def)
  from tick_dialogue [OF s(3,2) this tick_unfailing [OF D ok2 i [unfolded iterate_def] s(1) f]]
  show "dialogue D (snd (fold (hear_event D) evs (d, g)) f) (snd (fold (note_event D) evs (d, h)) f @ tx s') s'" .
qed

lemma conversations_run:
  assumes D: "denv_ok D" and "d_ok D d" and "turns_ok n ws" and "next_seq_id (d_sm d) + int (sum_list (map n ws)) \<le> INT_MAX"
    and "conversations D d h g" and "polite_run D ws d" and "main_loop D ws d = Inr (r, d')"
  shows "conversations D d' (history_of D ws (d, h)) (inbox_of D ws (d, g))"
  using assms(2-)
proof (induction ws arbitrary: d h g)
  case (Cons w ws)
  obtain nev evs where w: "wake d w = (nev, evs)" by fastforce
  from turn_room [OF D Cons.prems(1-3) w] obtain d1 where
    d1: "iterate D evs (w_idle w) (w_tick w) (w_dur w) d = Inr d1" "d_ok D d1" "turns_ok n ws"
      "next_seq_id (d_sm d) + int (length evs) \<le> INT_MAX" "next_seq_id (d_sm d) + int (sum_list (map n ws)) \<le> INT_MAX"
      "next_seq_id (d_sm d1) + int (sum_list (map n ws)) \<le> INT_MAX"
    by blast
  note IH = Cons.IH [OF d1(2,3,6) conversations_iterate [OF D Cons.prems(1) d1(4) Cons.prems(4) _ d1(1)]]
    Cons.IH [OF Cons.prems(1) d1(3,5) Cons.prems(4)]
  show ?case using IH Cons.prems(4-6) by (auto simp: w d1(1) split: if_splits)
qed simp

section \<open>Requests and answers\<close>

text \<open>
  C3. The daemon holds an orderly conversation with every client. Over any run from start-up in
  which no client sends a request into the middle of another, the bytes read from a live
  session are the frames taken from it followed by the rest of its buffer, and the bytes sent and
  queued for it are the answers to those frames, one for each and in order: the metrics, the
  refusal the text of the request calls for, or a stream of tokens of the vocabulary under the id of
  the request, at most one more than \<open>max_tokens\<close>, ended by an end event or, if the model can fail, a decode error.
  Only a session at work has one frame more, its request, and the tokens of that request so far.
\<close>

theorem requests_answered_in_order:
  assumes "host_ok H" and "from_args E argv = Inr cfg" and "\<And>m. limits_ok cfg (h_get_vocab H m)"
    and "start_up H E argv = Inr (D, d)" and "turns_ok n ws" and "1 + int (sum_list (map n ws)) \<le> INT_MAX"
    and "polite_run D ws d" and "main_loop D ws d = Inr (r, d')" and "find_session (d_sm d') f = Some s"
    and "inbox_of D ws (d, \<lambda>_. ([], [])) f = (got, asks)"
  shows "got = frames (List.map_filter (\<lambda>a. a) asks) @ rx s \<and>
    (\<exists>rs toks. history_of D ws (d, \<lambda>_. []) f @ tx s = frames (concat (map response_payloads rs) @ token_payloads (request_id s) toks) \<and>
      (if state s = PREFILL \<or> state s = DECODE
       then \<exists>earlier js. asks = earlier @ [Some js] \<and> list_all2 (answers D) earlier rs \<and> in_hand D js toks s
       else list_all2 (answers D) asks rs \<and> toks = []))"
proof -
  note ok = start_up_ok [OF assms(1-4)]
  have room: "next_seq_id (d_sm d) + int (sum_list (map n ws)) \<le> INT_MAX" using assms(6) ok(3) by simp
  have "conversations D d (\<lambda>_. []) (\<lambda>_. ([], []))" using ok(4) by (simp add: conversations_def find_session_def pool_find_def)
  from conversations_run [OF ok(1,2) assms(5) room this assms(7,8)] assms(9)
  have "dialogue D (got, asks) (history_of D ws (d, \<lambda>_. []) f @ tx s) s" by (simp add: conversations_def flip: assms(10))
  then show ?thesis
    by (cases "working s") (auto simp: dialogue_def settled_def working_def frames_append)
qed

text \<open>The client of the earlier example, whose malformed frame is answered by a refusal.\<close>

lemma client_turns_polite:
  assumes "just_started D d"
  shows "polite_run D client_turns d"
proof -
  from client_arrives [OF assms] obtain d1 where d1: "iterate D [(\<lparr>ev_fd = 3, ev_f = PollFlags_Read\<rparr>, demo_io)] 20 21 1000 d = Inr d1"
    "sm_sessions (d_sm d1) = [(7, fresh_client)]" by blast
  have "\<not> busy fresh_client" by (simp add: busy_def fresh_client_def new_session_def)
  then have "polite_event D (\<lparr>ev_fd = 7, ev_f = PollFlags_Read\<rparr>, bad_frame_io) d1"
    by (simp add: polite_event_def find_session_def pool_find_def d1(2))
  moreover have "w_shutdown (hd demo_turns) = False" "w_idle (hd demo_turns) = 20" "w_tick (hd demo_turns) = 21" "w_dur (hd demo_turns) = 1000"
    "w_shutdown bad_frame_turn = False"
    by (simp_all add: demo_turns_def bad_frame_turn_def client_turn_def)
  ultimately show ?thesis
    using assms d1(1) by (simp add: client_turns_def client_wakes just_started_def polite_event_def split: sum.split)
qed

theorem requests_answered_in_order_witness:
  "\<exists>D d r d' s rs. start_up demo_host (\<lambda>_. None) demo_argv = Inr (D, d) \<and> main_loop D client_turns d = Inr (r, d') \<and>
     find_session (d_sm d') 7 = Some s \<and> list_all2 (answers D) (snd (inbox_of D client_turns (d, \<lambda>_. ([], [])) 7)) rs \<and>
     history_of D client_turns (d, \<lambda>_. []) 7 @ tx s = frames (concat (map response_payloads rs))"
proof -
  obtain D d where st: "start_up demo_host (\<lambda>_. None) demo_argv = Inr (D, d)" using demo_start by blast
  have j: "just_started D d"
    by (rule boot_just_started [OF demo_host_ok demo_host_limits _ _ st]) (simp_all add: demo_host_def)
  from client_served [OF st] obtain r d' s where
    m: "main_loop D client_turns d = Inr (r, d')" "find_session (d_sm d') 7 = Some s" and str: "state s = STREAM" by blast
  obtain got asks where i: "inbox_of D client_turns (d, \<lambda>_. ([], [])) 7 = (got, asks)" by fastforce
  from requests_answered_in_order [OF demo_host_ok demo_args demo_host_limits st client_turns_ok client_turns_polite [OF j] m i]
  obtain rs where "list_all2 (answers D) asks rs" "history_of D client_turns (d, \<lambda>_. []) 7 @ tx s = frames (concat (map response_payloads rs))"
    using str by auto
  then show ?thesis using st m i by auto
qed

end
