(* ===== verification/Daemon_Progress.thy ===== *)
theory Daemon_Progress
  imports Daemon_Conversation
begin

text \<open>
  Progress of the sessions at work. With a model that decodes and returns logits and room for at least one
  token in a batch, every iteration that starts with a session at work brings one of them closer to its
  end, whatever the clients do meanwhile short of sending a new request. The bandwidth guard cannot
  prevent it: it leaves decode items alone and at least one token of prompts that have not been started.
\<close>

section \<open>Work left\<close>

text \<open>The ticks a session can still use: a token for each one left, one to end, one for the prompt.\<close>

definition weight :: "RuntimeConfig \<Rightarrow> ClientSession \<Rightarrow> nat" where
  "weight cfg s =
     (case state s of
        PREFILL \<Rightarrow> unat (max_tokens cfg) + 2
      | DECODE \<Rightarrow> unat (max_tokens cfg) - unat (generated_count s) + 1
      | _ \<Rightarrow> 0)"

definition work_left :: "RuntimeConfig \<Rightarrow> SessionPool \<Rightarrow> nat" where
  "work_left cfg S = (\<Sum>f \<in> dom (pool_find S). weight cfg (the (pool_find S f)))"

text \<open>A session at work has something to do: a prompt not yet started, or a token pending.\<close>

definition can_go :: "ClientSession \<Rightarrow> bool" where
  "can_go s \<longleftrightarrow> (working s \<longrightarrow> prefill_ready s \<and> n_past s = 0 \<or> decode_ready s)"

definition all_can_go :: "SessionPool \<Rightarrow> bool" where
  "all_can_go S \<longleftrightarrow> (\<forall>f s. pool_find S f = Some s \<longrightarrow> can_go s)"

lemma dom_pool: "dom (pool_find S) = set (map fst S)"
  by (force simp: pool_find_def dom_def map_of_eq_None_iff image_iff dest: map_of_SomeD intro: weak_map_of_SomeI)

lemma finite_pool: "finite (dom (pool_find S))"
  by (simp add: dom_pool)

lemma weight_working: "weight cfg s = 0 \<longleftrightarrow> \<not> working s"
  by (simp add: weight_def working_def split: SessionState.split)

lemma weight_le: "weight cfg s \<le> unat (max_tokens cfg) + 2"
  by (cases "state s") (simp_all add: weight_def)

lemma work_left_zero: "work_left cfg S = 0 \<Longrightarrow> pool_find S f = Some s \<Longrightarrow> \<not> working s"
  using finite_pool [of S] by (auto simp: work_left_def weight_working dom_def)

lemma work_left_le:
  assumes "\<And>f s'. pool_find S' f = Some s' \<Longrightarrow> weight cfg s' = 0 \<or> (\<exists>s. pool_find S f = Some s \<and> weight cfg s' \<le> weight cfg s)"
  shows "work_left cfg S' \<le> work_left cfg S"
proof -
  let ?w = "\<lambda>S f. weight cfg (the (pool_find S f))"
  let ?A = "{f \<in> dom (pool_find S'). ?w S' f \<noteq> 0}"
  have A: "f \<in> dom (pool_find S) \<and> ?w S' f \<le> ?w S f" if "f \<in> ?A" for f using that assms by fastforce
  have "work_left cfg S' = (\<Sum>f \<in> ?A. ?w S' f)"
    unfolding work_left_def by (rule sum.mono_neutral_right) (auto simp: finite_pool)
  also have "\<dots> \<le> (\<Sum>f \<in> ?A. ?w S f)" by (rule sum_mono) (use A in blast)
  also have "\<dots> \<le> work_left cfg S" unfolding work_left_def by (rule sum_mono2) (use A finite_pool in auto)
  finally show ?thesis .
qed

lemma work_left_less:
  assumes dom: "dom (pool_find S') = dom (pool_find S)"
    and le: "\<And>f s s'. pool_find S f = Some s \<Longrightarrow> pool_find S' f = Some s' \<Longrightarrow> weight cfg s' \<le> weight cfg s"
    and lt: "pool_find S g = Some t" "pool_find S' g = Some t'" "weight cfg t' < weight cfg t"
  shows "work_left cfg S' < work_left cfg S"
  unfolding work_left_def dom
proof (rule sum_strict_mono_ex1)
  show "\<forall>f \<in> dom (pool_find S). weight cfg (the (pool_find S' f)) \<le> weight cfg (the (pool_find S f))"
    using dom le by fastforce
  show "\<exists>f \<in> dom (pool_find S). weight cfg (the (pool_find S' f)) < weight cfg (the (pool_find S f))"
    using lt by (intro bexI [of _ g]) auto
qed (rule finite_pool)

lemma work_left_bound: "work_left cfg S \<le> length S * (unat (max_tokens cfg) + 2)"
proof -
  have "work_left cfg S \<le> card (dom (pool_find S)) * (unat (max_tokens cfg) + 2)"
    unfolding work_left_def
    using sum_bounded_above [of "dom (pool_find S)" "\<lambda>f. weight cfg (the (pool_find S f))" "unat (max_tokens cfg) + 2"] weight_le by simp
  moreover have "card (dom (pool_find S)) \<le> length S" using card_length [of "map fst S"] by (simp only: dom_pool length_map)
  ultimately show ?thesis by (meson le_trans mult_le_mono1)
qed

section \<open>A tick makes progress\<close>

text \<open>A session that is served comes closer to its end and has something to do again.\<close>

lemma responded_weight:
  assumes "responded v cfg now_ns x s s'"
  shows "weight cfg s' < weight cfg s" and "can_go s'"
proof -
  have n: "unat (generated_count s + 1) = unat (generated_count s) + 1" "unat (generated_count s) < unat (max_tokens cfg)"
    if "\<not> ends_stream v cfg t s" for t
    using that count_step_nat [of "generated_count s" "max_tokens cfg"] by (simp_all add: ends_stream_def not_le word_less_nat_alt)
  from assms obtain t where t: "prefill_ready s \<and> s' = first_token v now_ns t (advance (it_n_tokens x) s) \<or>
      decode_ready s \<and> s' = (if ends_stream v cfg t s then end_stream cfg now_ns (consume s) else next_token v now_ns t (consume s))"
    unfolding responded_def by blast
  show "weight cfg s' < weight cfg s"
    using t n [of t]
    by (auto simp: weight_def prefill_ready_def decode_ready_def session_outcomes stamp_emit_def emit_piece_def Let_def)
  show "can_go s'"
    using t
    by (auto simp: can_go_def working_def prefill_ready_def decode_ready_def session_outcomes stamp_emit_def
        emit_piece_def Let_def split: if_splits)
qed

lemma tick_progress:
  assumes "sch_ok sch" and "pool_ok cfg S" and "responsive E" and "tick_plan sch S = (p, m)"
    and "tick E now_ns dur_ns sch c S = Inr r" and "x \<in> set (items p)" "0 < it_n_tokens x" and "pool_find S (it_fd x) = Some s"
  shows "\<exists>s'. pool_find (tick_pool r) (it_fd x) = Some s' \<and> weight (sch_config sch) s' < weight (sch_config sch) s \<and> can_go s'"
  using tick_responds [OF assms] responded_weight by blast

lemma tick_plan_ready:
  assumes sch: "sch_ok sch" "0 < batch_cap sch" and ok: "pool_ok cfg S" and tp: "tick_plan sch S = (p, m)"
    and go: "all_can_go S" and "has_ready_work S"
  shows "\<exists>x \<in> set (items p). 0 < it_n_tokens x \<and> (\<exists>s. pool_find S (it_fd x) = Some s)"
proof -
  let ?p = "schedule_tick S (batch_cap sch) (target_batch sch) (rr_decode_idx sch) (rr_prefill_idx sch)"
  have wf: "pool_wf S" using ok by (simp add: pool_ok_def)
  have cur: "cursor_ok S (rr_decode_idx sch) (rr_prefill_idx sch)"
    using sch ok by (simp add: cursor_ok_def sch_ok_def pool_ok_def)
  have "0 < min (target_batch sch) (batch_cap sch)" using sch by (auto simp: sch_ok_def)
  from ready_work_plan [OF wf this cur] assms(6) have ne: "items ?p \<noteq> []" by simp
  have item: "it_phase x = Phase_DECODE \<and> it_n_tokens x = 1 \<or> fresh_chunk S x" if x: "x \<in> set (items ?p)" for x
  proof (cases "x \<in> set (decode_part S (min (target_batch sch) (batch_cap sch)) (rr_decode_idx sch))")
    case False
    then obtain s where "pool_find S (it_fd x) = Some s" "it_phase x = Phase_PREFILL" "prefill_ready s" "0 < it_n_tokens x"
      using x prefill_tail_item [OF wf] by (fastforce simp: plan_items Let_def)
    then show ?thesis using go by (auto simp: fresh_chunk_def all_can_go_def can_go_def working_def prefill_ready_def decode_ready_def)
  qed (auto simp: decode_part_def)
  have "\<exists>x \<in> set (items p). 0 < it_n_tokens x"
  proof (cases "\<exists>x \<in> set (items ?p). it_phase x = Phase_DECODE")
    case True
    then obtain x where x: "x \<in> set (items ?p)" "it_phase x = Phase_DECODE" by blast
    then have "it_n_tokens x = 1" using item [of x] by (auto simp: fresh_chunk_def)
    then show ?thesis using baseline.guarded_decode [OF ok cur tp [unfolded tick_plan_def] x] by force
  next
    case False
    then have fresh: "\<forall>x \<in> set (items ?p). fresh_chunk S x \<and> chunk_ok x" using item baseline.plan_chunks [OF ok cur] by blast
    show ?thesis
    proof (cases "bmt_budget_units (sch_config sch) > 0")
      case True
      then obtain est tr where "bmt_trim S (bmt_budget_units (sch_config sch)) ?p = (p, est, tr)"
        using tp by (auto simp: tick_plan_def bmt_guard_def split: prod.splits)
      from bmt_trim_leaves_one [OF pool_ok_positions [OF ok] _ ne fresh this] True show ?thesis
        by (simp add: word_le_nat_alt word_less_nat_alt)
    next
      case False
      then have "p = ?p" using tp by (simp add: tick_plan_def bmt_guard_def)
      then show ?thesis using ne fresh by (cases "items ?p") (auto simp: fresh_chunk_def)
    qed
  qed
  then show ?thesis using tick_eq(1) [OF sch(1) ok tp] by (fastforce simp: executable_def)
qed

lemma ready_work_go:
  assumes "pool_wf S" and "pool_find S f = Some s" and "working s" and "can_go s"
  shows "has_ready_work S"
proof -
  have "(f, s) \<in> set S" using assms(1,2) pool_find_iff by blast
  then show ?thesis using assms(3,4)
    by (force simp: has_ready_work_def list_ex_iff can_go_def prefill_ready_def decode_ready_def)
qed

text \<open>Every session is left alone or comes closer to its end; if one is at work, one of them does.\<close>

lemma tick_each:
  assumes sch: "sch_ok sch" and ok: "pool_ok cfg S" and E: "env_ok E" "responsive E" and t: "tick E now_ns dur_ns sch c S = Inr r"
    and s: "pool_find S f = Some s" "pool_find (tick_pool r) f = Some s'"
  shows "s' = s \<or> weight (sch_config sch) s' < weight (sch_config sch) s \<and> can_go s'"
proof -
  obtain p m where tp: "tick_plan sch S = (p, m)" by fastforce
  show ?thesis
  proof (cases "\<exists>x \<in> set (items p). it_fd x = f \<and> 0 < it_n_tokens x")
    case True
    then obtain x where x: "x \<in> set (items p)" "0 < it_n_tokens x" "it_fd x = f" by blast
    from tick_progress [OF sch ok E(2) tp t x(1,2)] s x(3) show ?thesis by auto
  next
    case False
    then have "pool_find (tick_pool r) f = Some s" by (intro tick_idle [OF sch ok E(1) tp t s(1)]) (auto simp: not_less)
    then show ?thesis using s by simp
  qed
qed

lemma tick_one:
  assumes sch: "sch_ok sch" "0 < batch_cap sch" and ok: "pool_ok cfg S" and E: "responsive E"
    and t: "tick E now_ns dur_ns sch c S = Inr r" and go: "all_can_go S" and w: "pool_find S f = Some s" "working s"
  shows "\<exists>g t t'. pool_find S g = Some t \<and> pool_find (tick_pool r) g = Some t' \<and> weight (sch_config sch) t' < weight (sch_config sch) t"
proof -
  obtain p m where tp: "tick_plan sch S = (p, m)" by fastforce
  have "pool_wf S" using ok by (simp add: pool_ok_def)
  from ready_work_go [OF this w] have "has_ready_work S" using go w(1) by (auto simp: all_can_go_def)
  from tick_plan_ready [OF sch ok tp go this] obtain x s where
    x: "x \<in> set (items p)" "0 < it_n_tokens x" "pool_find S (it_fd x) = Some s" by blast
  from tick_progress [OF sch(1) ok E tp t x] x(3) show ?thesis by blast
qed

lemma tick_work_left:
  assumes sch: "sch_ok sch" "0 < batch_cap sch" and ok: "pool_ok cfg S" and E: "env_ok E" "responsive E"
    and t: "tick E now_ns dur_ns sch c S = Inr r" and go: "all_can_go S"
  shows "all_can_go (tick_pool r)" and "work_left (sch_config sch) (tick_pool r) \<le> work_left (sch_config sch) S - 1"
proof -
  have dom: "dom (pool_find (tick_pool r)) = dom (pool_find S)" using tick_keys [OF sch(1) ok t] by (simp only: dom_pool)
  note each = tick_each [OF sch(1) ok E t]
  have le: "weight (sch_config sch) s' \<le> weight (sch_config sch) s"
    if "pool_find S f = Some s" "pool_find (tick_pool r) f = Some s'" for f s s' using each [OF that] by auto
  show "all_can_go (tick_pool r)" unfolding all_can_go_def
  proof (intro allI impI)
    fix f s' assume s': "pool_find (tick_pool r) f = Some s'"
    then have "f \<in> dom (pool_find S)" using dom by blast
    then obtain s where "pool_find S f = Some s" by blast
    then show "can_go s'" using each [OF _ s'] go by (auto simp: all_can_go_def)
  qed
  show "work_left (sch_config sch) (tick_pool r) \<le> work_left (sch_config sch) S - 1"
  proof (cases "work_left (sch_config sch) S = 0")
    case True
    moreover have "work_left (sch_config sch) (tick_pool r) \<le> work_left (sch_config sch) S"
      by (rule work_left_le) (use le dom in blast)
    ultimately show ?thesis by simp
  next
    case False
    then obtain f s where "pool_find S f = Some s" "working s"
      using finite_pool [of S] by (auto simp: work_left_def weight_working)
    from tick_one [OF sch ok E(2) t go this] obtain g u u' where
      g: "pool_find S g = Some u" "pool_find (tick_pool r) g = Some u'" "weight (sch_config sch) u' < weight (sch_config sch) u" by blast
    have "work_left (sch_config sch) (tick_pool r) < work_left (sch_config sch) S"
      by (rule work_left_less [OF dom _ g]) (rule le)
    then show ?thesis by simp
  qed
qed

section \<open>Events\<close>

text \<open>The same work, whatever was written meanwhile.\<close>

definition same_job :: "ClientSession \<Rightarrow> ClientSession \<Rightarrow> bool" where
  "same_job s s' \<longleftrightarrow>
     state s' = state s \<and> prefill_idx s' = prefill_idx s \<and> prompt_tokens s' = prompt_tokens s \<and>
     generated_count s' = generated_count s \<and> has_pending_tok s' = has_pending_tok s \<and> n_past s' = n_past s"

lemma same_job_facts:
  assumes "same_job s s'"
  shows "weight cfg s' = weight cfg s" and "can_go s \<Longrightarrow> can_go s'"
  using assms by (auto simp: same_job_def weight_def can_go_def working_def prefill_ready_def decode_ready_def cong: SessionState.case_cong)

text \<open>What an event can leave behind: an idle session, a session with its work as before, or a new request.\<close>

definition follows :: "ClientSession \<Rightarrow> ClientSession \<Rightarrow> bool \<Rightarrow> bool" where
  "follows s s' fresh \<longleftrightarrow> \<not> working s' \<or> same_job s s' \<or> (prefill_ready s' \<and> n_past s' = 0 \<and> fresh)"

lemma follows_same: "follows s s1 b \<Longrightarrow> same_job s1 s' \<Longrightarrow> follows s s' b"
  by (auto simp: follows_def same_job_def working_def prefill_ready_def)

lemma reset_idle: "\<not> working (reset_session s)"
  by (simp add: reset_session_def working_def)

lemma on_session_follows:
  assumes o: "on_session P cfg vocab now_ns chunks fin next_id s = ((s', rr), n)"
  shows "follows s s' (taken fin (rx s @ concat chunks) \<noteq> [])"
proof (cases "taken fin (rx s @ concat chunks) = []")
  case True
  then have "fin = Read_Error \<or> try_read_frame (rx s @ concat chunks) kDefaultMaxFrameBytes = NeedMore"
    by (auto simp: taken_def split: if_splits frame_result.splits)
  from on_session_waits(1) [OF o this] show ?thesis by (simp add: same_work_def same_job_def follows_def)
next
  case False
  then show ?thesis using on_session_outcome [OF o]
    by (auto simp: follows_def same_work_def same_job_def working_def prefill_ready_def elim!: request_outcome.cases)
qed

lemma read_answer_follows:
  assumes a: "read_answer D f io d = (d3, wants)" and s3: "find_session (d_sm d3) f = Some s3" and s: "find_session (d_sm d) f = Some s"
  shows "follows s s3 (taken (snd (io_reads io)) (rx s @ concat (fst (io_reads io))) \<noteq> [])"
proof -
  obtain sm rr where r: "on_readable (env_platform (de_env D)) f (de_cfg D) (Some (env_vocab (de_env D))) (io_now io)
             (fst (io_reads io)) (snd (io_reads io)) (d_sm d) = (sm, rr)" by fastforce
  show ?thesis using r
  proof (cases rule: on_readable_cases)
    case absent
    then show ?thesis using s by simp
  next
    case (present s0 s' n)
    have s0: "s0 = s" using present(1) s by simp
    have "s3 = s' \<or> state s3 = STREAM"
      using a s3 by (auto simp: read_answer_def r Let_def present(4) find_upd answer_admin_def split: if_splits)
    then show ?thesis using on_session_follows [OF present(2)] s0 by (auto simp: follows_def working_def)
  qed
qed

lemma write_now_job: "same_job s (write_now w s)"
  by (simp add: same_job_def write_now_def split: write_result.split)

lemma drain_job: "same_job s (fst (drain_tx now_ns ws s))"
proof (induction now_ns ws s rule: drain_tx.induct)
  case (2 now_ns w ws s)
  then show ?case by (cases w) (auto simp: same_job_def)
qed (simp add: same_job_def)

lemma client_read_follows:
  assumes "find_session (d_sm (on_client_read D f io d)) f = Some s'" and s: "find_session (d_sm d) f = Some s"
  shows "follows s s' (taken (snd (io_reads io)) (rx s @ concat (fst (io_reads io))) \<noteq> [])"
proof -
  obtain d3 wants where a: "read_answer D f io d = (d3, wants)" by fastforce
  note ra = read_answer_follows [OF a _ s]
  show ?thesis
  proof (cases wants)
    case False
    then show ?thesis using assms(1) ra by (simp add: on_client_read_def a)
  next
    case True
    then have "find_session (d_sm (finish_read D f (upd_session f (write_now (io_write io)) d3))) f = Some s'"
      using assms(1) by (simp add: on_client_read_def a)
    then obtain s4 where s4: "find_session (d_sm (upd_session f (write_now (io_write io)) d3)) f = Some s4"
      "s' = s4 \<or> s' = reset_session s4 \<and> state s4 = STREAM" by (rule finish_read_session)
    then obtain s3 where s3: "find_session (d_sm d3) f = Some s3" "s4 = write_now (io_write io) s3" by (auto simp: find_upd)
    then show ?thesis using follows_same [OF ra [OF s3(1)] write_now_job] s4(2) by (auto simp: follows_def reset_idle)
  qed
qed

lemma client_write_follows:
  assumes "find_session (d_sm (on_client_write D f io d)) f = Some s'" and s: "find_session (d_sm d) f = Some s"
  shows "follows s s' False"
proof -
  obtain t broken where dr: "drain_tx (io_now io) (io_writes io) s = (t, broken)" by fastforce
  have "s' = t \<or> s' = reset_session t"
    using assms(1) by (auto simp: on_client_write_def s dr Let_def close_find find_upd split: if_splits)
  then show ?thesis using drain_job [of s "io_now io" "io_writes io"] by (auto simp: dr follows_def reset_idle)
qed

lemma event_follows:
  assumes D: "denv_ok D" and d: "d_ok D d" and f: "find_session (d_sm (handle_event D x d)) f = Some s'"
  shows "\<not> working s' \<or> (\<exists>s. find_session (d_sm d) f = Some s \<and> follows s s' (snd (heard D x d) \<noteq> []))"
proof -
  obtain ev io where x: "x = (ev, io)" by fastforce
  have same: "follows s s b" for s b by (simp add: follows_def same_job_def)
  show ?thesis
  proof (cases "ev_fd ev = de_server D \<and> readable ev")
    case True
    then show ?thesis using f accept_find [OF D d, of ev io f] same
      by (auto simp: handle_event_def x new_session_def working_def split: if_splits)
  next
    case False
    show ?thesis
    proof (cases "f = ev_fd ev")
      case True
      from own_event_history [OF f [unfolded x True] False] obtain s where s: "find_session (d_sm d) f = Some s" unfolding True by blast
      then show ?thesis
        using f False True client_read_follows [of D f io d s' s] client_write_follows [of D f io d s' s] same
        by (auto simp: handle_event_def x heard_def follows_def split: if_splits)
    next
      case ne: False
      then have "find_session (d_sm d) f = Some s'" using f False by (auto simp: handle_event_def x others_kept split: if_splits)
      then show ?thesis using same by blast
    qed
  qed
qed

text \<open>Every event leaves sessions that can go on; one that completes no request adds no work.\<close>

lemma event_can_go:
  assumes "denv_ok D" and "d_ok D d" and "all_can_go (sm_sessions (d_sm d))"
  shows "all_can_go (sm_sessions (d_sm (handle_event D x d)))"
  unfolding all_can_go_def
proof (intro allI impI)
  fix f s' assume f: "pool_find (sm_sessions (d_sm (handle_event D x d))) f = Some s'"
  from event_follows [OF assms(1,2) f [folded find_session_def]] show "can_go s'"
    using assms(3) same_job_facts(2) by (auto simp: all_can_go_def find_session_def follows_def can_go_def)
qed

lemma event_work_left:
  assumes "denv_ok D" and "d_ok D d" and "snd (heard D x d) = []"
  shows "work_left cfg (sm_sessions (d_sm (handle_event D x d))) \<le> work_left cfg (sm_sessions (d_sm d))"
proof (rule work_left_le)
  fix f s' assume f: "pool_find (sm_sessions (d_sm (handle_event D x d))) f = Some s'"
  from event_follows [OF assms(1,2) f [folded find_session_def]] assms(3)
  show "weight cfg s' = 0 \<or> (\<exists>s. pool_find (sm_sessions (d_sm d)) f = Some s \<and> weight cfg s' \<le> weight cfg s)"
    using same_job_facts(1) by (auto simp: find_session_def follows_def weight_working)
qed

section \<open>Quiet turns\<close>

text \<open>Turns that run an iteration and complete no request: connections, incomplete frames, writes and closings are all allowed.\<close>

fun quiet_events :: "('k, 'c, 'r) denv \<Rightarrow> (PollEvent \<times> 'k io) list \<Rightarrow> ('k, 'c, 'r) daemon \<Rightarrow> bool" where
  "quiet_events D [] d = True"
| "quiet_events D (x # evs) d = (snd (heard D x d) = [] \<and> quiet_events D evs (handle_event D x d))"

fun quiet_run :: "('k, 'c, 'r) denv \<Rightarrow> 'k wakeup list \<Rightarrow> ('k, 'c, 'r) daemon \<Rightarrow> bool" where
  "quiet_run D [] d = True"
| "quiet_run D (w # ws) d =
     (\<not> w_shutdown w \<and>
      (case wake d w of
         (nev, evs) \<Rightarrow>
           0 \<le> nev \<and> quiet_events D evs d \<and>
           (case iterate D evs (w_idle w) (w_tick w) (w_dur w) d of Inl _ \<Rightarrow> True | Inr d' \<Rightarrow> quiet_run D ws d')))"

definition lively :: "('k, 'c, 'r) denv \<Rightarrow> ('k, 'c, 'r) daemon \<Rightarrow> bool" where
  "lively D d \<longleftrightarrow>
     responsive (de_env D) \<and> 0 < batch_cap (d_sched d) \<and> all_can_go (sm_sessions (d_sm d))"

lemma handlers_sched:
  "d_sched (upd_session f g d) = d_sched d" "d_sched (d_add D f fl d) = d_sched d" "d_sched (d_remove D f fl d) = d_sched d"
  "d_sched (d_close D f d) = d_sched d"
  by (simp_all add: upd_session_def d_add_def d_remove_def d_close_def split: option.split prod.split)

lemma handle_event_sched: "d_sched (handle_event D x d) = d_sched d"
proof -
  have "d_sched (on_accept D io d) = d_sched d" for io
    by (auto simp: on_accept_def Let_def handlers_sched split: prod.split)
  moreover have "d_sched (finish_read D f e) = d_sched e" for f e
    by (auto simp: finish_read_def handlers_sched split: option.split)
  moreover have "d_sched (fst (read_answer D f io d)) = d_sched d" for f io
    by (auto simp: read_answer_def answer_admin_def Let_def handlers_sched split: prod.split option.split)
  moreover have "d_sched (on_client_write D f io d) = d_sched d" for f io
    by (auto simp: on_client_write_def Let_def handlers_sched split: option.split prod.split)
  ultimately show ?thesis
    by (auto simp: handle_event_def on_client_read_def handlers_sched split: prod.split) (metis fst_conv)+
qed

lemma events_live:
  assumes D: "denv_ok D" and "d_ok D d" and "next_seq_id (d_sm d) + int (length evs) \<le> INT_MAX" and "lively D d"
  shows "lively D (fold (handle_event D) evs d) \<and>
    (quiet_events D evs d \<longrightarrow> work_left cfg (sm_sessions (d_sm (fold (handle_event D) evs d))) \<le> work_left cfg (sm_sessions (d_sm d)))"
  using assms(2-)
proof (induction evs arbitrary: d)
  case (Cons x evs)
  have room: "next_seq_id (d_sm d) < INT_MAX" using Cons.prems(2) by simp
  note ok = d_ok_event [OF D Cons.prems(1) room, of x]
  have l: "lively D (handle_event D x d)"
    using Cons.prems(3) event_can_go [OF D Cons.prems(1)] by (simp add: lively_def handle_event_sched)
  have r: "next_seq_id (d_sm (handle_event D x d)) + int (length evs) \<le> INT_MAX" using ok Cons.prems(2) by simp
  show ?case
    using Cons.IH [OF conjunct1 [OF ok] r l] event_work_left [OF D Cons.prems(1), of x cfg] by (auto intro: le_trans)
qed simp

lemma idle_live:
  assumes "lively D d"
  shows "lively D (close_idle D now d)"
    and "work_left cfg (sm_sessions (d_sm (close_idle D now d))) \<le> work_left cfg (sm_sessions (d_sm d))"
proof -
  have "d_sched (fold (d_close D) fs d) = d_sched d" for fs by (induction fs arbitrary: d) (simp_all add: handlers_sched)
  then have "d_sched (close_idle D now d) = d_sched d" by (simp add: close_idle_def)
  then show "lively D (close_idle D now d)"
    using assms idle_find [of D now d] by (auto simp: lively_def all_can_go_def find_session_def)
  show "work_left cfg (sm_sessions (d_sm (close_idle D now d))) \<le> work_left cfg (sm_sessions (d_sm d))"
    by (rule work_left_le) (use idle_find [of D now d] in \<open>auto simp: find_session_def\<close>)
qed

lemma tick_live:
  assumes D: "denv_ok D" and d: "d_ok D d" and l: "lively D d" and t: "tick_and_arm D now dur d = Inr d'"
  shows "lively D d'" and "work_left (de_cfg D) (sm_sessions (d_sm d')) \<le> work_left (de_cfg D) (sm_sessions (d_sm d)) - 1"
proof -
  let ?S = "sm_sessions (d_sm d)"
  have sch: "sch_ok (d_sched d)" and E: "env_ok (de_env D)" "responsive (de_env D)" and ok: "pool_ok (sch_config (d_sched d)) ?S"
    and cfg: "sch_config (d_sched d) = de_cfg D" and cap: "0 < batch_cap (d_sched d)"
    and go: "all_can_go ?S"
    using d D l by (auto simp: d_ok_def denv_ok_def sm_ok_def lively_def)
  obtain fds sch' c' S' where tk: "tick (de_env D) now dur (d_sched d) (d_ctx d) ?S = Inr (fds, sch', c', S')"
    using tick_Inr [OF sch ok, of "de_env D" now dur "d_ctx d"] by blast
  have arms: "d_sm (fold (arm D) fds e) = d_sm e \<and> d_sched (fold (arm D) fds e) = d_sched e" for e
    by (induction fds arbitrary: e) (simp_all add: arm_sm arm_def handlers_sched split: option.split)
  have S': "sm_sessions (d_sm d') = S'" and sch': "d_sched d' = sch'" using t arms by (auto simp: tick_and_arm_def tk)
  have "batch_cap sch' = batch_cap (d_sched d)" using tick_sound [OF sch E(1) ok tk] by simp
  then show "lively D d'"
    using tick_work_left(1) [OF sch cap ok E tk go] l by (simp add: lively_def S' sch' tick_pool_def)
  show "work_left (de_cfg D) (sm_sessions (d_sm d')) \<le> work_left (de_cfg D) ?S - 1"
    using tick_work_left(2) [OF sch cap ok E tk go] by (simp add: S' cfg tick_pool_def)
qed

lemma iterate_live:
  assumes D: "denv_ok D" and d: "d_ok D d" and room: "next_seq_id (d_sm d) + int (length evs) \<le> INT_MAX" and l: "lively D d"
    and i: "iterate D evs now_idle now_tick dur d = Inr d'"
  shows "lively D d'"
    and "quiet_events D evs d \<Longrightarrow> work_left (de_cfg D) (sm_sessions (d_sm d')) \<le> work_left (de_cfg D) (sm_sessions (d_sm d)) - 1"
proof -
  let ?d1 = "fold (handle_event D) evs d"
  note e = events_live [OF D d room l, of "de_cfg D"]
  note c = idle_live [OF conjunct1 [OF e]]
  note t = tick_live [OF D keeps_idle [OF d_ok_events [OF D d room]] c(1) i [unfolded iterate_def]]
  show "lively D d'" by (rule t(1))
  show "work_left (de_cfg D) (sm_sessions (d_sm d')) \<le> work_left (de_cfg D) (sm_sessions (d_sm d)) - 1" if "quiet_events D evs d"
    using t(2) c(2) [where cfg = "de_cfg D" and now = now_idle] e that by linarith
qed

lemma run_live:
  assumes D: "denv_ok D" and "d_ok D d" and "turns_ok n ws" and "next_seq_id (d_sm d) + int (sum_list (map n ws)) \<le> INT_MAX"
    and "lively D d" and "main_loop D ws d = Inr (r, d')"
  shows "lively D d'"
  using assms(2-)
proof (induction ws arbitrary: d)
  case (Cons w ws)
  obtain nev evs where w: "wake d w = (nev, evs)" by fastforce
  from turn_room [OF D Cons.prems(1-3) w] obtain d1 where
    d1: "iterate D evs (w_idle w) (w_tick w) (w_dur w) d = Inr d1" "d_ok D d1" "turns_ok n ws"
      "next_seq_id (d_sm d) + int (length evs) \<le> INT_MAX" "next_seq_id (d_sm d) + int (sum_list (map n ws)) \<le> INT_MAX"
      "next_seq_id (d_sm d1) + int (sum_list (map n ws)) \<le> INT_MAX"
    by blast
  show ?case
    using Cons.IH [OF d1(2,3,6) iterate_live(1) [OF D Cons.prems(1) d1(4) Cons.prems(4) d1(1)]]
      Cons.IH [OF Cons.prems(1) d1(3,5) Cons.prems(4)] Cons.prems(4,5) by (auto simp: w d1(1) split: if_splits)
qed simp

text \<open>A quiet run ends as it should, with one unit of work less for every turn.\<close>

lemma quiet_run_drains:
  assumes D: "denv_ok D" and "d_ok D d" and "turns_ok n ws" and "next_seq_id (d_sm d) + int (sum_list (map n ws)) \<le> INT_MAX"
    and "lively D d" and "quiet_run D ws d"
  shows "\<exists>d'. main_loop D ws d = Inr (None, d') \<and>
    work_left (de_cfg D) (sm_sessions (d_sm d')) \<le> work_left (de_cfg D) (sm_sessions (d_sm d)) - length ws"
  using assms(2-)
proof (induction ws arbitrary: d)
  case (Cons w ws)
  obtain nev evs where w: "wake d w = (nev, evs)" by fastforce
  from turn_room [OF D Cons.prems(1-3) w] obtain d1 where
    d1: "iterate D evs (w_idle w) (w_tick w) (w_dur w) d = Inr d1" "d_ok D d1" "turns_ok n ws"
      "next_seq_id (d_sm d) + int (length evs) \<le> INT_MAX" "next_seq_id (d_sm d1) + int (sum_list (map n ws)) \<le> INT_MAX"
    by blast
  have q: "\<not> w_shutdown w" "0 \<le> nev" "quiet_events D evs d" "quiet_run D ws d1" using Cons.prems(5) by (simp_all add: w d1(1))
  note l = iterate_live [OF D Cons.prems(1) d1(4) Cons.prems(4) d1(1)]
  from Cons.IH [OF d1(2,3,5) l(1) q(4)] obtain d' where
    "main_loop D ws d1 = Inr (None, d')" "work_left (de_cfg D) (sm_sessions (d_sm d')) \<le> work_left (de_cfg D) (sm_sessions (d_sm d1)) - length ws"
    by blast
  then show ?case using q(1,2) l(2) [OF q(3)] by (auto simp: w d1(1))
qed simp

end
