(* ===== verification/Daemon_Liveness.thy ===== *)
theory Daemon_Liveness
  imports Daemon_Progress
begin

text \<open>
  Requests are answered in the end: once no new request comes in for long enough, nobody is left
  waiting. The command-line client at the other end then prints the answer.
\<close>

section \<open>Everybody is answered\<close>

lemma main_loop_room:
  assumes D: "denv_ok D" and "d_ok D d" and "turns_ok n (ws @ vs)" and "next_seq_id (d_sm d) + int (sum_list (map n (ws @ vs))) \<le> INT_MAX"
    and "main_loop D ws d = Inr (r, d0)"
  shows "next_seq_id (d_sm d0) + int (sum_list (map n vs)) \<le> INT_MAX"
  using assms(2-)
proof (induction ws arbitrary: d)
  case (Cons w ws)
  obtain nev evs where w: "wake d w = (nev, evs)" by fastforce
  from turn_room [OF D Cons.prems(1) Cons.prems(2,3) [unfolded append_Cons] w] obtain d1 where
    d1: "iterate D evs (w_idle w) (w_tick w) (w_dur w) d = Inr d1" "d_ok D d1" "turns_ok n (ws @ vs)"
      "next_seq_id (d_sm d) + int (sum_list (map n (ws @ vs))) \<le> INT_MAX" "next_seq_id (d_sm d1) + int (sum_list (map n (ws @ vs))) \<le> INT_MAX"
    by blast
  show ?case using Cons.IH [OF d1(2,3,5)] Cons.IH [OF Cons.prems(1) d1(3,4)] Cons.prems(3,4) by (auto simp: w d1(1) split: if_splits)
qed simp

lemma polite_append:
  "main_loop D ws d = Inr (None, d0) \<Longrightarrow> polite_run D ws d \<Longrightarrow> polite_run D vs d0 \<Longrightarrow> polite_run D (ws @ vs) d"
proof (induction ws arbitrary: d)
  case (Cons w ws)
  obtain nev evs where w: "wake d w = (nev, evs)" by fastforce
  show ?case
    using Cons by (cases "iterate D evs (w_idle w) (w_tick w) (w_dur w) d") (auto simp: w split: if_splits)
qed simp

lemma quiet_event_polite: "snd (heard D x d) = [] \<Longrightarrow> polite_event D x d"
  by (cases x) (auto simp: heard_def polite_event_def taken_def split: option.splits frame_result.splits if_splits)

lemma quiet_events_polite: "quiet_events D evs d \<Longrightarrow> polite_events D evs d"
  by (induction evs arbitrary: d) (simp_all add: quiet_event_polite)

lemma quiet_polite: "quiet_run D ws d \<Longrightarrow> polite_run D ws d"
proof (induction ws arbitrary: d)
  case (Cons w ws)
  obtain nev evs where w: "wake d w = (nev, evs)" by fastforce
  show ?case
    using Cons by (cases "iterate D evs (w_idle w) (w_tick w) (w_dur w) d") (auto simp: w quiet_events_polite split: if_splits)
qed simp

lemma run_answers_all:
  assumes "host_ok H" and "from_args E argv = Inr cfg" and "\<And>m. limits_ok cfg (h_get_vocab H m)"
    and "start_up H E argv = Inr (D, d)" and "turns_ok n (ws @ vs)" and "1 + int (sum_list (map n (ws @ vs))) \<le> INT_MAX"
    and "responsive (de_env D)" and "0 < batch_cap (d_sched d)"
    and "polite_run D ws d" and "main_loop D ws d = Inr (None, d0)"
    and "quiet_run D vs d0" and "unat (max_sessions cfg) * (unat (max_tokens cfg) + 2) \<le> length vs"
  shows "\<exists>d'. main_loop D (ws @ vs) d = Inr (None, d') \<and>
    (\<forall>f s. find_session (d_sm d') f = Some s \<longrightarrow> state s \<noteq> PREFILL \<and> state s \<noteq> DECODE \<and>
       (\<exists>rs. list_all2 (answers D) (snd (inbox_of D (ws @ vs) (d, \<lambda>_. ([], [])) f)) rs \<and>
             history_of D (ws @ vs) (d, \<lambda>_. []) f @ tx s = frames (concat (map response_payloads rs))))"
proof -
  note ok = start_up_ok [OF assms(1-4)]
  have room: "next_seq_id (d_sm d) + int (sum_list (map n (ws @ vs))) \<le> INT_MAX" using assms(6) ok(3) by simp
  have t: "turns_ok n ws" "turns_ok n vs" using assms(5) by (auto simp: turns_ok_def)
  have empty: "find_session (d_sm d) f = None" for f using ok(4) by (simp add: find_session_def pool_find_def)
  then have l: "lively D d" using assms(7-8) ok(5) by (simp add: lively_def all_can_go_def find_session_def)
  have r0: "next_seq_id (d_sm d) + int (sum_list (map n ws)) \<le> INT_MAX" using room by simp
  from main_loop_ok [OF ok(1,2) t(1) r0] assms(10) have ok0: "d_ok D d0" by auto
  have r1: "next_seq_id (d_sm d0) + int (sum_list (map n vs)) \<le> INT_MAX"
    by (rule main_loop_room [OF ok(1,2) assms(5) room assms(10)])
  from quiet_run_drains [OF ok(1) ok0 t(2) r1 run_live [OF ok(1,2) t(1) r0 l assms(10)] assms(11)] obtain d' where
    d': "main_loop D vs d0 = Inr (None, d')" "work_left cfg (sm_sessions (d_sm d')) \<le> work_left cfg (sm_sessions (d_sm d0)) - length vs"
    using ok(5) by auto
  have "length (sm_sessions (d_sm d0)) \<le> unat (max_sessions cfg)" using ok0 ok(5) by (simp add: d_ok_def sm_ok_def)
  then have "work_left cfg (sm_sessions (d_sm d0)) \<le> length vs"
    using work_left_bound [of cfg "sm_sessions (d_sm d0)"] assms(12) by (meson le_trans mult_le_mono1)
  then have zero: "work_left cfg (sm_sessions (d_sm d')) = 0" using d'(2) by simp
  have all: "main_loop D (ws @ vs) d = Inr (None, d')" using main_loop_append [OF assms(10)] d'(1) by simp
  have "conversations D d (\<lambda>_. []) (\<lambda>_. ([], []))" using empty by (simp add: conversations_def)
  note c = conversations_run [OF ok(1,2) assms(5) room this polite_append [OF assms(10,9) quiet_polite [OF assms(11)]] all]
  have "settled D (snd (inbox_of D (ws @ vs) (d, \<lambda>_. ([], [])) f)) (history_of D (ws @ vs) (d, \<lambda>_. []) f @ tx s) \<and> \<not> working s"
    if f: "find_session (d_sm d') f = Some s" for f s
    using work_left_zero [OF zero f [unfolded find_session_def]] f c by (auto simp: conversations_def dialogue_def case_prod_beta)
  then show ?thesis using all unfolding settled_def working_def by blast
qed

text \<open>
  C4. Every request is answered in the end. After any run from start-up in which no client sends a
  request into the middle of another, let \<open>max_sessions * (max_tokens + 2)\<close> turns of the loop follow in which no
  further request arrives; clients may connect, leave, write parts of requests and read their
  answers as they like. With a model that decodes and returns logits and room for a token in the batch,
  and whatever the budget of the bandwidth guard, no session is then at work: every frame taken from a live session has
  its complete answer, sent or queued.
\<close>

theorem every_request_answered:
  assumes "host_ok H" and "from_args E argv = Inr cfg" and "\<And>m. limits_ok cfg (h_get_vocab H m)"
    and "start_up H E argv = Inr (D, d)" and "turns_ok n (ws @ vs)" and "1 + int (sum_list (map n (ws @ vs))) \<le> INT_MAX"
    and "responsive (de_env D)" and "0 < batch_cap (d_sched d)"
    and "polite_run D ws d" and "main_loop D ws d = Inr (None, d0)"
    and "quiet_run D vs d0" and "unat (max_sessions cfg) * (unat (max_tokens cfg) + 2) \<le> length vs"
  shows "\<exists>d'. main_loop D (ws @ vs) d = Inr (None, d') \<and>
    (\<forall>f s. find_session (d_sm d') f = Some s \<longrightarrow> state s \<noteq> PREFILL \<and> state s \<noteq> DECODE \<and>
       (\<exists>rs. list_all2 (answers D) (snd (inbox_of D (ws @ vs) (d, \<lambda>_. ([], [])) f)) rs \<and>
             history_of D (ws @ vs) (d, \<lambda>_. []) f @ tx s = frames (concat (map response_payloads rs))))"
  by (rule run_answers_all [OF assms])

section \<open>A concrete request\<close>

text \<open>A client connects and sends a request; then nothing happens any more.\<close>

definition ask_io :: "set_queue io" where
  "ask_io = demo_io\<lparr>io_reads := ([write_frame [] (request_payload demo_options)], Read_Again)\<rparr>"

definition request_turns :: "set_queue wakeup list" where
  "request_turns = [hd demo_turns, client_turn ask_io]"

definition idle_turn :: "set_queue wakeup" where
  "idle_turn =
     \<lparr>w_shutdown = False, w_wait = (\<lambda>_. (0, [])), w_errno = EAGAIN, w_order = (\<lambda>xs. xs), w_io = (\<lambda>_. demo_io),
      w_idle = 30, w_tick = 31, w_dur = 1000\<rparr>"

lemma idle_turn_facts:
  "wake d idle_turn = (0, [])" "w_shutdown idle_turn = False" "w_idle idle_turn = 30" "w_tick idle_turn = 31" "w_dur idle_turn = 1000"
  by (simp_all add: wake_def idle_turn_def poller_wait_def)

lemma idle_turns_quiet: "quiet_run D (replicate k idle_turn) d"
  by (induction k arbitrary: d) (simp_all add: idle_turn_facts split: sum.split)

lemma idle_turns_inbox: "inbox_of D (replicate k idle_turn) (d, g) = g"
  by (induction k arbitrary: d) (simp_all add: idle_turn_facts split: sum.split)

lemma inbox_append:
  "main_loop D ws d = Inr (None, d0) \<Longrightarrow> inbox_of D (ws @ vs) (d, g) = inbox_of D vs (d0, inbox_of D ws (d, g))"
proof (induction ws arbitrary: d g)
  case (Cons w ws)
  obtain nev evs where w: "wake d w = (nev, evs)" by fastforce
  show ?case
    using Cons by (cases "iterate D evs (w_idle w) (w_tick w) (w_dur w) d") (auto simp: w split: if_splits)
qed simp

text \<open>Nothing closes the session: it has been active recently.\<close>

lemma tick_trans_activity: "tick_trans v cfg now_ns s s' \<Longrightarrow> last_activity_ns s' = last_activity_ns s"
  by (cases rule: tick_trans.cases) (auto simp: session_outcomes stamp_emit_def emit_piece_def Let_def)

lemma idle_keeps_active:
  assumes "d_ok D d" and "find_session (d_sm d) 7 = Some s" and "last_activity_ns s = 10" and "idle_timeout_sec (de_cfg D) = 300"
  shows "find_session (d_sm (close_idle D 30 d)) 7 = Some s"
proof -
  have wf: "pool_wf (sm_sessions (d_sm d))" using assms(1) by (simp add: d_ok_def sm_ok_def pool_ok_def)
  have "t = s" if "(k, t) \<in> set (sm_sessions (d_sm d))" "fd t = 7" for k t
    using that assms(2) pool_find_iff [OF wf] pool_wf_find [OF wf] by (metis find_session_def option.inject)
  then have "7 \<notin> set (idle_fds (de_cfg D) 30 (sm_sessions (d_sm d)))"
    using assms(3,4) by (auto simp: idle_fds_def Let_def)
  then show ?thesis using assms(2) by (simp add: close_idle_def close_idle_find)
qed

lemma iterate_keeps_active:
  assumes D: "denv_ok D" and d: "d_ok D d" and s: "find_session (d_sm (fold (handle_event D) evs d)) 7 = Some s" "last_activity_ns s = 10"
    and room: "next_seq_id (d_sm d) + int (length evs) \<le> INT_MAX"
    and cfg: "idle_timeout_sec (de_cfg D) = 300" and i: "iterate D evs 30 now dur d = Inr d'"
  shows "\<exists>s'. find_session (d_sm d') 7 = Some s' \<and> last_activity_ns s' = 10"
proof -
  note ok = d_ok_events [OF D d room]
  from tick_sessions(2) [OF D keeps_idle [OF ok] i [unfolded iterate_def] idle_keeps_active [OF ok s cfg]]
  show ?thesis using tick_trans_activity s(2) by metis
qed

lemma idle_turns_active:
  assumes D: "denv_ok D" and cfg: "idle_timeout_sec (de_cfg D) = 300"
  shows "d_ok D d \<Longrightarrow> next_seq_id (d_sm d) \<le> INT_MAX \<Longrightarrow> find_session (d_sm d) 7 = Some s \<Longrightarrow> last_activity_ns s = 10 \<Longrightarrow>
    \<exists>d' s'. main_loop D (replicate k idle_turn) d = Inr (None, d') \<and> find_session (d_sm d') 7 = Some s'"
proof (induction k arbitrary: d s)
  case (Suc k)
  from iterate_room [OF D Suc.prems(1), of "[]" 30 31 1000] Suc.prems(2) obtain d1 where
    d1: "iterate D [] 30 31 1000 d = Inr d1" "d_ok D d1" "next_seq_id (d_sm d1) \<le> INT_MAX" by auto
  from iterate_keeps_active [OF D Suc.prems(1) _ Suc.prems(4) _ cfg d1(1)] Suc.prems(2,3) obtain s1 where
    s1: "find_session (d_sm d1) 7 = Some s1" "last_activity_ns s1 = 10" by auto
  from Suc.IH [OF d1(2,3) s1] show ?case by (simp add: idle_turn_facts d1(1))
qed simp

lemma demo_request_frame:
  "try_read_frame (write_frame [] (request_payload demo_options)) kDefaultMaxFrameBytes = Frame (request_payload demo_options) []"
proof -
  have "length (request_payload demo_options) \<le> 100" "request_payload demo_options \<noteq> []" by code_simp+
  then have "frame_ok kDefaultMaxFrameBytes (request_payload demo_options)" by (simp add: frame_ok_def kDefaultMaxFrameBytes_def)
  from try_read_frame_write_frame [OF this, of "[]"] show ?thesis by simp
qed

lemma demo_request_verdict: "verdict (default_config\<lparr>model_path := p\<rparr>) (Some byte_vocab) (request_payload demo_options) = Run"
proof (rule request_verdict)
  show "\<not> ends_as ''type'' (opt_id demo_options)" "\<not> ends_as ''event'' (opt_id demo_options)" "opt_prompt demo_options \<noteq> []" by code_simp+
  have p: "map server_view (opt_prompt demo_options) = ''Hi''" by code_simp
  show "tokenize (Some byte_vocab) (map server_view (opt_prompt demo_options)) True True \<noteq> []"
    unfolding p using byte_tokenize [of "''Hi''"] by (simp add: INT_MAX_def byte_toks_def)
qed (simp add: demo_options_def default_config_def)

lemma client_asks:
  assumes D: "de_server D = 3" and S: "sm_sessions (d_sm d) = [(7, fresh_client)]"
    and v: "verdict (de_cfg D) (Some (env_vocab (de_env D))) (request_payload demo_options) = Run"
  shows "\<exists>s. find_session (d_sm (handle_event D (\<lparr>ev_fd = 7, ev_f = PollFlags_Read\<rparr>, ask_io) d)) 7 = Some s \<and> last_activity_ns s = 10"
    and "heard D (\<lparr>ev_fd = 7, ev_f = PollFlags_Read\<rparr>, ask_io) d =
      (write_frame [] (request_payload demo_options), [Some (request_payload demo_options)])"
proof -
  let ?js = "request_payload demo_options" and ?s2 = "drain_reads [write_frame [] (request_payload demo_options)] 10 fresh_client"
  have s: "find_session (d_sm d) 7 = Some fresh_client" "rx fresh_client = []"
    using S by (simp_all add: find_session_def pool_find_def fresh_client_def new_session_def)
  show "heard D (\<lparr>ev_fd = 7, ev_f = PollFlags_Read\<rparr>, ask_io) d = (write_frame [] ?js, [Some ?js])"
    using D s by (simp add: heard_def read_ready ask_io_def taken_def demo_request_frame)
  obtain s' rr n where h: "handle_request (env_platform (de_env D)) (de_cfg D) (Some (env_vocab (de_env D))) 10 ?js (next_seq_id (d_sm d))
      (?s2\<lparr>rx := []\<rparr>, no_result) = ((s', rr), n)" by (metis surj_pair)
  have s': "last_activity_ns s' = 10 \<and> rr = no_result"
    using h v by (cases rule: handle_request_cases)
      (auto simp: start_request_def set_sampling_def Let_def drain_reads_def split: option.split)
  have "rx ?s2 = write_frame [] ?js" using s(2) by (simp add: drain_reads_keeps)
  then have "on_session (env_platform (de_env D)) (de_cfg D) (Some (env_vocab (de_env D))) 10 [write_frame [] ?js] Read_Again
      (next_seq_id (d_sm d)) fresh_client = ((s', rr), n)"
    using h by (simp add: on_session_frame [OF _ refl refl] demo_request_frame)
  then have "on_client_read D 7 ask_io d = d\<lparr>d_sm := \<lparr>sm_sessions = pool_set (sm_sessions (d_sm d)) 7 s', next_seq_id = n\<rparr>\<rparr>"
    using s(1) s' by (simp add: on_client_read_def read_answer_def on_readable_def ask_io_def demo_io_def find_session_def no_result_def pool_simps)
  then show "\<exists>s. find_session (d_sm (handle_event D (\<lparr>ev_fd = 7, ev_f = PollFlags_Read\<rparr>, ask_io) d)) 7 = Some s \<and> last_activity_ns s = 10"
    using D s' by (simp add: handle_event_def read_ready find_session_def pool_simps)
qed

lemma request_sent:
  assumes j: "just_started D d" and v: "env_vocab (de_env D) = byte_vocab"
  shows "\<exists>d0 s. main_loop D request_turns d = Inr (None, d0) \<and> polite_run D request_turns d \<and> d_ok D d0 \<and> next_seq_id (d_sm d0) \<le> INT_MAX \<and>
    find_session (d_sm d0) 7 = Some s \<and> last_activity_ns s = 10 \<and>
    inbox_of D request_turns (d, g) 7 = (write_frame [] (request_payload demo_options), [Some (request_payload demo_options)])"
proof -
  have D: "denv_ok D" "de_server D = 3" "de_cfg D = default_config\<lparr>model_path := ''m.gguf''\<rparr>" "sm_sessions (d_sm d) = []"
    using j by (simp_all add: just_started_def)
  from client_arrives [OF j] obtain d1 where d1: "iterate D [(\<lparr>ev_fd = 3, ev_f = PollFlags_Read\<rparr>, demo_io)] 20 21 1000 d = Inr d1" "d_ok D d1"
    "sm_sessions (d_sm d1) = [(7, fresh_client)]" "next_seq_id (d_sm d1) \<le> 2" by blast
  let ?evs = "[(\<lparr>ev_fd = 7, ev_f = PollFlags_Read\<rparr> :: PollEvent, ask_io)]"
  have room: "next_seq_id (d_sm d1) + int (length ?evs) \<le> INT_MAX" using d1(4) by (simp add: INT_MAX_def)
  from iterate_room [OF D(1) d1(2) room] obtain d0 where
    d0: "iterate D ?evs 30 31 1000 d1 = Inr d0" "d_ok D d0" "next_seq_id (d_sm d0) \<le> INT_MAX" using room by force
  have "verdict (de_cfg D) (Some (env_vocab (de_env D))) (request_payload demo_options) = Run"
    by (simp only: D(3) v demo_request_verdict)
  note c = client_asks [OF D(2) d1(3) this]
  from c(1) iterate_keeps_active [OF D(1) d1(2) _ _ room _ d0(1)] D(3) obtain s where
    s: "find_session (d_sm d0) 7 = Some s" "last_activity_ns s = 10" by (auto simp: default_config_def)
  have turn: "\<not> w_shutdown (hd demo_turns)" "w_idle (hd demo_turns) = 20" "w_tick (hd demo_turns) = 21" "w_dur (hd demo_turns) = 1000"
    "\<not> w_shutdown (client_turn ask_io)" "w_idle (client_turn ask_io) = 30" "w_tick (client_turn ask_io) = 31" "w_dur (client_turn ask_io) = 1000"
    by (simp_all add: demo_turns_def client_turn_def)
  have "main_loop D request_turns d = Inr (None, d0)" by (simp add: request_turns_def client_wakes turn d1(1) d0(1))
  moreover have "\<not> busy fresh_client" by (simp add: busy_def fresh_client_def new_session_def)
  then have "polite_event D (\<lparr>ev_fd = 7, ev_f = PollFlags_Read\<rparr>, ask_io) d1"
    by (simp add: polite_event_def find_session_def pool_find_def d1(3))
  then have "polite_run D request_turns d" using D(2) by (simp add: request_turns_def client_wakes turn d1(1) d0(1) polite_event_def)
  moreover have "accepts D (\<lparr>ev_fd = 3, ev_f = PollFlags_Read\<rparr>, demo_io) d 7"
    using D by (simp add: accepts_def read_ready demo_io_def default_config_def)
  then have "inbox_of D request_turns (d, g) 7 = (write_frame [] (request_payload demo_options), [Some (request_payload demo_options)])"
    using D(2) c(2) by (simp add: request_turns_def client_wakes turn d1(1) d0(1) hear_event_def accepts_def)
  ultimately show ?thesis using d0 s by blast
qed

lemma demo_boot:
  assumes "start_up demo_host (\<lambda>_. None) demo_argv = Inr (D, d)"
  shows "just_started D d" and "env_vocab (de_env D) = byte_vocab" and "responsive (de_env D)" and "0 < batch_cap (d_sched d)"
proof -
  show "just_started D d"
    by (rule boot_just_started [OF demo_host_ok demo_host_limits _ _ assms]) (simp_all add: demo_host_def)
  obtain cfg m gctx where "(D, d) = boot demo_host (\<lambda>_. None) cfg (h_get_vocab demo_host m) gctx (r_socket (h_open demo_host))"
    using start_up_boot [OF assms] by blast
  then show "env_vocab (de_env D) = byte_vocab" "responsive (de_env D)" "0 < batch_cap (d_sched d)"
    by (simp_all add: boot_def Let_def demo_host_def responsive_def demo_llama_def new_scheduler_def)
qed

definition waiting_turns :: "set_queue wakeup list" where
  "waiting_turns = replicate 1056 idle_turn"

lemma demo_turns_fine:
  "turns_ok (\<lambda>_. 1) (request_turns @ waiting_turns)" "1 + int (sum_list (map (\<lambda>_. 1) (request_turns @ waiting_turns))) \<le> INT_MAX"
  by (simp_all add: turns_ok_def request_turns_def waiting_turns_def demo_turns_def client_turn_def idle_turn_def INT_MAX_def sum_list_replicate)

lemma demo_conversation:
  assumes "start_up demo_host (\<lambda>_. None) demo_argv = Inr (D, d)"
  shows "\<exists>d0 d' s. main_loop D request_turns d = Inr (None, d0) \<and> polite_run D request_turns d \<and> quiet_run D waiting_turns d0 \<and>
    main_loop D (request_turns @ waiting_turns) d = Inr (None, d') \<and> find_session (d_sm d') 7 = Some s \<and>
    snd (inbox_of D (request_turns @ waiting_turns) (d, \<lambda>_. ([], [])) 7) = [Some (request_payload demo_options)]"
proof -
  note b = demo_boot [OF assms]
  have D: "denv_ok D" "idle_timeout_sec (de_cfg D) = 300" using b(1) by (simp_all add: just_started_def default_config_def)
  from request_sent [OF b(1,2)] obtain d0 s where
    d0: "main_loop D request_turns d = Inr (None, d0)" "polite_run D request_turns d" "d_ok D d0" "next_seq_id (d_sm d0) \<le> INT_MAX"
      "find_session (d_sm d0) 7 = Some s" "last_activity_ns s = 10"
      "inbox_of D request_turns (d, \<lambda>_. ([], [])) 7 = (write_frame [] (request_payload demo_options), [Some (request_payload demo_options)])"
    by blast
  from idle_turns_active [OF D d0(3-6)] obtain d' s' where
    "main_loop D waiting_turns d0 = Inr (None, d')" "find_session (d_sm d') 7 = Some s'" unfolding waiting_turns_def by blast
  then show ?thesis
    using d0(1,2,7) main_loop_append [OF d0(1)] idle_turns_quiet [of D 1056 d0] inbox_append [OF d0(1)]
    by (auto simp: waiting_turns_def idle_turns_inbox)
qed

theorem every_request_answered_witness:
  "\<exists>D d d' s rs. start_up demo_host (\<lambda>_. None) demo_argv = Inr (D, d) \<and>
     main_loop D (request_turns @ waiting_turns) d = Inr (None, d') \<and> find_session (d_sm d') 7 = Some s \<and>
     state s \<noteq> PREFILL \<and> state s \<noteq> DECODE \<and> list_all2 (answers D) [Some (request_payload demo_options)] rs \<and>
     history_of D (request_turns @ waiting_turns) (d, \<lambda>_. []) 7 @ tx s = frames (concat (map response_payloads rs))"
proof -
  obtain D d where st: "start_up demo_host (\<lambda>_. None) demo_argv = Inr (D, d)" using demo_start by blast
  note b = demo_boot [OF st]
  from demo_conversation [OF st] obtain d0 d' s where
    r: "main_loop D request_turns d = Inr (None, d0)" "polite_run D request_turns d" "quiet_run D waiting_turns d0"
      "main_loop D (request_turns @ waiting_turns) d = Inr (None, d')" "find_session (d_sm d') 7 = Some s"
      "snd (inbox_of D (request_turns @ waiting_turns) (d, \<lambda>_. ([], [])) 7) = [Some (request_payload demo_options)]" by blast
  have "unat (max_sessions (default_config\<lparr>model_path := ''m.gguf''\<rparr>)) * (unat (max_tokens (default_config\<lparr>model_path := ''m.gguf''\<rparr>)) + 2)
       \<le> length waiting_turns" by (simp add: default_config_def waiting_turns_def)
  from every_request_answered [OF demo_host_ok demo_args demo_host_limits st demo_turns_fine b(3,4) r(2,1,3) this]
  obtain d2 where d2: "main_loop D (request_turns @ waiting_turns) d = Inr (None, d2)"
    "\<And>f s. find_session (d_sm d2) f = Some s \<Longrightarrow> state s \<noteq> PREFILL \<and> state s \<noteq> DECODE \<and>
       (\<exists>rs. list_all2 (answers D) (snd (inbox_of D (request_turns @ waiting_turns) (d, \<lambda>_. ([], [])) f)) rs \<and>
             history_of D (request_turns @ waiting_turns) (d, \<lambda>_. []) f @ tx s = frames (concat (map response_payloads rs)))" by blast
  then have "d2 = d'" using r(4) by simp
  from d2(2) [unfolded this, OF r(5)] show ?thesis using st r(4,5) by (auto simp: r(6))
qed

end
