(* ===== verification/Daemon_Client.thy ===== *)
theory Daemon_Client
  imports Daemon_Liveness
begin

text \<open>
  The daemon and the command-line client together: what the user of the client sees of a request,
  from the frame the client sends to the text it prints.
\<close>

section \<open>The answer on the client's side\<close>

lemma only_request_answered:
  assumes "host_ok H" and "from_args E argv = Inr cfg" and "\<And>m. limits_ok cfg (h_get_vocab H m)"
    and "start_up H E argv = Inr (D, d)" and "turns_ok n (ws @ vs)" and "1 + int (sum_list (map n (ws @ vs))) \<le> INT_MAX"
    and "responsive (de_env D)" and "0 < batch_cap (d_sched d)"
    and "polite_run D ws d" and "main_loop D ws d = Inr (None, d0)"
    and "quiet_run D vs d0" and "unat (max_sessions cfg) * (unat (max_tokens cfg) + 2) \<le> length vs"
    and m: "main_loop D (ws @ vs) d = Inr (r, d')" and f: "find_session (d_sm d') f = Some s"
    and i: "snd (inbox_of D (ws @ vs) (d, \<lambda>_. ([], [])) f) = [Some js]"
  shows "\<exists>a. answers D (Some js) a \<and> history_of D (ws @ vs) (d, \<lambda>_. []) f @ tx s = frames (response_payloads a)"
proof -
  from run_answers_all [OF assms(1-12)] obtain d2 where d2: "main_loop D (ws @ vs) d = Inr (None, d2)"
    "\<forall>f s. find_session (d_sm d2) f = Some s \<longrightarrow> state s \<noteq> PREFILL \<and> state s \<noteq> DECODE \<and>
       (\<exists>rs. list_all2 (answers D) (snd (inbox_of D (ws @ vs) (d, \<lambda>_. ([], [])) f)) rs \<and>
             history_of D (ws @ vs) (d, \<lambda>_. []) f @ tx s = frames (concat (map response_payloads rs)))" by blast
  have "find_session (d_sm d2) f = Some s" using d2(1) m f by simp
  with d2(2) i obtain rs where "list_all2 (answers D) [Some js] rs" "history_of D (ws @ vs) (d, \<lambda>_. []) f @ tx s = frames (concat (map response_payloads rs))"
    by metis
  then show ?thesis by (auto simp: list_all2_Cons1)
qed

text \<open>
  C5. From end to end: a client sends its request and no other. After enough turns without new requests, with
  a model that decodes and returns logits and room for a token in the batch, the
  bytes sent and queued for the client make its loop print the texts of the generated tokens in order,
  at most one more than \<open>max_tokens\<close>, each the text of a token of the vocabulary, then a newline, and exit
  with code 0, however the stream is cut into reads that do not split a header. The request id
  must not be one of the keys the two sides search for, nor end in a quote followed by one.
\<close>

theorem client_prints_answer:
  assumes "host_ok H" and "from_args E argv = Inr cfg" and "\<And>m. limits_ok cfg (h_get_vocab H m)"
    and "start_up H E argv = Inr (D, d)" and "turns_ok n (ws @ vs)" and "1 + int (sum_list (map n (ws @ vs))) \<le> INT_MAX"
    and "responsive (de_env D)" and "0 < batch_cap (d_sched d)"
    and "polite_run D ws d" and "main_loop D ws d = Inr (None, d0)"
    and "quiet_run D vs d0" and "unat (max_sessions cfg) * (unat (max_tokens cfg) + 2) \<le> length vs"
    and "main_loop D (ws @ vs) d = Inr (r, d')" and "find_session (d_sm d') f = Some s"
    and "snd (inbox_of D (ws @ vs) (d, \<lambda>_. ([], [])) f) = [Some (request_payload opt)]"
    and "\<not> ends_as ''type'' (opt_id opt)" and "\<not> ends_as ''event'' (opt_id opt)" and "opt_prompt opt \<noteq> []"
    and "length (opt_prompt opt) \<le> unat (max_prompt_bytes cfg)"
    and "tokenize (Some (env_vocab (de_env D))) (map server_view (opt_prompt opt)) True True \<noteq> []"
    and "stream = history_of D (ws @ vs) (d, \<lambda>_. []) f @ tx s" and "\<not> ends_as ''text'' (map server_view (opt_id opt))"
    and "steady steps" and "length stream \<le> length steps" and "length stream < 2 ^ 32"
  shows "\<exists>toks. stream_ok D toks \<and>
    client_loop False e stream steps = Some (map (\<lambda>(t, i). Stdout (client_text t)) toks @ [Stdout newline], 0)"
proof -
  have cfg: "de_cfg D = cfg" using start_up_ok(5) [OF assms(1-4)] .
  from only_request_answered [OF assms(1-15)] obtain a where
    a: "answers D (Some (request_payload opt)) a" "stream = frames (response_payloads a)" unfolding assms(21) by blast
  have "verdict_of D (request_payload opt) = Run" using request_verdict [OF assms(16-19)] assms(20) by (simp add: verdict_of_def cfg)
  with a(1) assms(7) obtain toks reason where
    t: "a = Streamed (asked_id (request_payload opt)) toks reason" "stream_ok D toks" by (cases a) auto
  let ?rid = "map server_view (opt_id opt)"
  have id: "asked_id (request_payload opt) = ?rid" by (simp add: asked_id_def request_id_prompt)
  have "stream = fold (\<lambda>(t, i) b. append_token_event b ?rid t i) toks [] @ write_frame [] (eos_json ?rid reason)"
    by (simp add: a(2) t(1) id fold_token_events token_payloads_def frames_def)
  from client_loop_stream [OF assms(22,23) this assms(24,25) on_event_eos, of e "[]"]
  have "client_loop False e stream steps =
      Some (concat (map (\<lambda>(t, i). if t = [] then [] else [Stdout (client_text t)]) toks) @ [Stdout newline], 0)" by simp
  moreover have "concat (map (\<lambda>(t, i). if t = [] then [] else [Stdout (client_text t)]) toks) = map (\<lambda>(t, i). Stdout (client_text t)) toks"
    using t(2) by (induction toks) (auto simp: stream_ok_def pieces_def)
  ultimately show ?thesis using t(2) by auto
qed

section \<open>A concrete client\<close>

lemma length_json_escape: "length (json_escape t) \<le> 6 * length t"
  by (induction t) (auto simp: json_escape_def escape_char_def)

lemma length_string_of_nat: "length (string_of_nat n) \<le> Suc n"
proof (induction n rule: string_of_nat.induct)
  case (1 n)
  then show ?case by (cases "n < 10") (auto simp: string_of_nat.simps [of n])
qed

lemma length_token_json:
  assumes "0 \<le> i" and "i < 258" and "length t \<le> 3"
  shows "length (token_json ''r1'' t i) \<le> 500"
proof -
  have "length (string_of_int i) \<le> 259" using assms(1,2) length_string_of_nat [of "nat i"] by (simp add: string_of_int_def)
  moreover have "length (json_escape t) \<le> 18" "length (json_escape ''r1'') \<le> 12"
    using length_json_escape [of t] length_json_escape [of "''r1''"] assms(3) by simp_all
  ultimately show ?thesis by (simp add: token_json_def id_open_def dquote_def)
qed

lemma length_frames: "\<forall>p \<in> set ps. length p \<le> k \<Longrightarrow> length (frames ps) \<le> length ps * (k + 4)"
  by (induction ps) (auto simp: frames_def length_write_frame)

lemma byte_piece_short: "length (token_to_piece_str (Some byte_vocab) t True) \<le> 3"
  by (simp add: bytes.token_to_piece_str_eq byte_piece_def)

lemma demo_stream_short:
  assumes "answers D (Some (request_payload demo_options)) a" and "env_vocab (de_env D) = byte_vocab"
    and "de_cfg D = default_config\<lparr>model_path := ''m.gguf''\<rparr>" and "responsive (de_env D)"
  shows "length (frames (response_payloads a)) < 2 ^ 32"
proof -
  have "verdict_of D (request_payload demo_options) = Run" by (simp only: verdict_of_def assms(2,3) demo_request_verdict)
  with assms(1,4) obtain toks reason where
    a: "a = Streamed (asked_id (request_payload demo_options)) toks reason" "stream_ok D toks" "reason \<in> {''stop'', ''length''}" by (cases a) auto
  have id: "asked_id (request_payload demo_options) = ''r1''"
    unfolding asked_id_def request_id_prompt fst_conv by code_simp
  have toks: "length toks \<le> 65" "\<forall>(t, i) \<in> set toks. 0 \<le> i \<and> i < 258 \<and> length t \<le> 3"
    using a(2) byte_piece_short
    by (auto simp: stream_ok_def pieces_def list_all_iff assms(2,3) in_vocab_def byte_vocab_def [THEN arg_cong [where f = vocab_n_tokens]]
        default_config_def)
  have "length (eos_json ''r1'' reason) \<le> 500"
    using a(3) length_json_escape [of reason] length_json_escape [of "''r1''"] by (auto simp: eos_json_def id_open_def dquote_def)
  then have "\<forall>p \<in> set (response_payloads a). length p \<le> 500"
    using toks(2) length_token_json by (fastforce simp: a(1) id token_payloads_def)
  from length_frames [OF this] toks(1) show ?thesis by (simp add: a(1) token_payloads_def)
qed

theorem client_prints_answer_witness:
  "\<exists>D d d' s toks. start_up demo_host (\<lambda>_. None) demo_argv = Inr (D, d) \<and>
     main_loop D (request_turns @ waiting_turns) d = Inr (None, d') \<and> find_session (d_sm d') 7 = Some s \<and> stream_ok D toks \<and>
     (let stream = history_of D (request_turns @ waiting_turns) (d, \<lambda>_. []) 7 @ tx s
      in client_loop False False stream (replicate (length stream) (Give 4)) =
           Some (map (\<lambda>(t, i). Stdout (client_text t)) toks @ [Stdout newline], 0))"
proof -
  obtain D d where st: "start_up demo_host (\<lambda>_. None) demo_argv = Inr (D, d)" using demo_start by blast
  note b = demo_boot [OF st]
  let ?cfg = "default_config\<lparr>model_path := ''m.gguf''\<rparr>"
  have cfg: "de_cfg D = ?cfg" using b(1) by (simp add: just_started_def)
  from demo_conversation [OF st] obtain d0 d' s where
    r: "main_loop D request_turns d = Inr (None, d0)" "polite_run D request_turns d" "quiet_run D waiting_turns d0"
      "main_loop D (request_turns @ waiting_turns) d = Inr (None, d')" "find_session (d_sm d') 7 = Some s"
      "snd (inbox_of D (request_turns @ waiting_turns) (d, \<lambda>_. ([], [])) 7) = [Some (request_payload demo_options)]" by blast
  define stream where "stream = history_of D (request_turns @ waiting_turns) (d, \<lambda>_. []) 7 @ tx s"
  have c: "unat (max_sessions ?cfg) * (unat (max_tokens ?cfg) + 2) \<le> length waiting_turns"
    by (simp_all add: default_config_def waiting_turns_def)
  note pre = demo_host_ok demo_args demo_host_limits st demo_turns_fine b(3,4) r(2,1,3) c
  from only_request_answered [OF pre r(4-6)] obtain a where
    "answers D (Some (request_payload demo_options)) a" "stream = frames (response_payloads a)" unfolding stream_def by blast
  then have short: "length stream < 2 ^ 32" using demo_stream_short [OF _ b(2) cfg b(3)] by simp
  have opt: "\<not> ends_as ''type'' (opt_id demo_options)" "\<not> ends_as ''event'' (opt_id demo_options)" "opt_prompt demo_options \<noteq> []"
    "\<not> ends_as ''text'' (map server_view (opt_id demo_options))" "map server_view (opt_prompt demo_options) = ''Hi''" by code_simp+
  have len: "length (opt_prompt demo_options) \<le> unat (max_prompt_bytes ?cfg)" by (simp add: demo_options_def default_config_def)
  have tok: "tokenize (Some (env_vocab (de_env D))) (map server_view (opt_prompt demo_options)) True True \<noteq> []"
    using byte_tokenize [of "''Hi''"] by (simp add: b(2) opt(5) INT_MAX_def byte_toks_def)
  have st4: "steady (replicate (length stream) (Give 4))" "length stream \<le> length (replicate (length stream) (Give 4))"
    by (simp_all add: steady_def list_all_iff)
  from client_prints_answer [OF pre r(4-6) opt(1-3) len tok stream_def opt(4) st4 short, of False]
  show ?thesis using st r(4,5) unfolding stream_def Let_def by blast
qed

end
