(* ===== verification/Daemon_Run.thy ===== *)
theory Daemon_Run
  imports Daemon_Stream
begin

text \<open>
  Output is not forgotten over a whole run of the daemon: at the end of every turn of the main loop,
  from start-up on, each live session's descriptor is open and, when bytes are queued for it,
  registered for write readiness.
\<close>

section \<open>The invariant along a run\<close>

text \<open>Every \<open>accept\<close> of the run behaves as documented, in the state it is called in.\<close>

fun accepts_ok :: "('k, 'c, 'r) denv \<Rightarrow> ('k \<Rightarrow> (int \<times> kfilter) set) \<Rightarrow> ('k \<Rightarrow> int \<Rightarrow> bool) \<Rightarrow>
    'k wakeup list \<Rightarrow> ('k, 'c, 'r) daemon \<Rightarrow> bool" where
  "accepts_ok D reg is_open [] d = True"
| "accepts_ok D reg is_open (w # ws) d =
     (w_shutdown w \<or>
      (case wake d w of
         (nev, evs) \<Rightarrow>
           if nev < 0 then w_errno w = EINTR \<longrightarrow> accepts_ok D reg is_open ws d
           else
             events_ok D reg is_open evs d \<and>
             (case iterate D evs (w_idle w) (w_tick w) (w_dur w) d of
                Inl _ \<Rightarrow> True
              | Inr d' \<Rightarrow> accepts_ok D reg is_open ws d')))"

lemma flush_run:
  assumes K: "kqueue (de_kernel D) reg is_open" and D: "denv_ok D" and "d_ok D d" and "turns_ok n ws"
    and "next_seq_id (d_sm d) + int (sum_list (map n ws)) \<le> INT_MAX" and "flush_ok reg is_open d"
    and "accepts_ok D reg is_open ws d" and "main_loop D ws d = Inr (r, d')"
  shows "flush_ok reg is_open d'"
  using assms(3-)
proof (induction ws arbitrary: d)
  case (Cons w ws)
  obtain nev evs where w: "wake d w = (nev, evs)" by fastforce
  from turn_room [OF D Cons.prems(1-3) w] obtain d1 where
    d1: "iterate D evs (w_idle w) (w_tick w) (w_dur w) d = Inr d1" "d_ok D d1" "turns_ok n ws"
      "next_seq_id (d_sm d) + int (length evs) \<le> INT_MAX" "next_seq_id (d_sm d) + int (sum_list (map n ws)) \<le> INT_MAX"
      "next_seq_id (d_sm d1) + int (sum_list (map n ws)) \<le> INT_MAX"
    by blast
  note IH = Cons.IH [OF d1(2,3,6)] Cons.IH [OF Cons.prems(1) d1(3,5) Cons.prems(4)]
  have "flush_ok reg is_open d1" if "events_ok D reg is_open evs d"
    by (rule flush_iterate [OF K D Cons.prems(1,4) that d1(4,1)])
  then show ?case using IH Cons.prems(4-6) by (auto simp: w d1(1) split: if_splits)
qed simp

lemma boot_flushed:
  assumes "(D, d) = boot H E cfg v gctx srv"
  shows "flush_ok reg is_open d" "de_kernel D = h_kernel H"
  using assms by (simp_all add: boot_def Let_def flush_ok_def find_session_def new_manager_def pool_find_def)

text \<open>
  C15. Output is not forgotten: for every kernel queue that behaves as documented and every run of
  the main loop after start-up, each live session's descriptor is open and, if bytes are queued for
  it, registered for write readiness, so that the next writable event drains them; the exception
  is a session marked by a decode failure.
\<close>

theorem run_flushes:
  assumes "kqueue (h_kernel H) reg is_open" and "host_ok H" and "from_args E argv = Inr cfg"
    and "\<And>m. limits_ok cfg (h_get_vocab H m)" and "start_up H E argv = Inr (D, d)" and "turns_ok n ws"
    and "1 + int (sum_list (map n ws)) \<le> INT_MAX" and "accepts_ok D reg is_open ws d"
    and "main_loop D ws d = Inr (r, d')" and "find_session (d_sm d') f = Some s"
  shows "is_open (d_kq d') f \<and> (tx s \<noteq> [] \<longrightarrow> (f, EVFILT_WRITE) \<in> reg (d_kq d') \<or> last_error s \<noteq> [])"
proof -
  obtain m gctx srv where b: "(D, d) = boot H E cfg (h_get_vocab H m) gctx srv"
    using start_up_boot [OF assms(5)] assms(3) by auto
  note ok = boot_ok [OF assms(2,4) b]
  have "next_seq_id (d_sm d) + int (sum_list (map n ws)) \<le> INT_MAX" using assms(7) ok(3) by simp
  from flush_run [OF _ ok(1,2) assms(6) this boot_flushed(1) [OF b] assms(8,9)] have "flush_ok reg is_open d'"
    using assms(1) boot_flushed(2) [OF b] by simp
  then show ?thesis using assms(10) by (simp add: flush_ok_def flushed_def)
qed

section \<open>A concrete run\<close>

lemma client_accepts_ok:
  assumes "start_up demo_host (\<lambda>_. None) demo_argv = Inr (D, d)"
  shows "accepts_ok D q_reg (\<lambda>q f. f \<in> q_open q) client_turns d"
proof -
  obtain cfg m gctx where "(D, d) = boot demo_host (\<lambda>_. None) cfg (h_get_vocab demo_host m) gctx (r_socket (h_open demo_host))"
    using start_up_boot [OF assms] by auto
  then have "de_server D = 3" "d_kq d = snd (poller_add set_kernel \<lparr>q_reg = {}, q_open = {3, 4}\<rparr> 3 PollFlags_Read)"
    by (simp_all add: boot_def Let_def demo_host_def)
  moreover from this(2) have "q_reg (d_kq d) = {(3, EVFILT_READ)}" "q_open (d_kq d) = {3, 4}"
    using sets.add_one [where k = "\<lparr>q_reg = {}, q_open = {3, 4}\<rparr>" and f = 3 and interest = PollFlags_Read and flt = EVFILT_READ] by (auto simp: fun_eq_iff)
  ultimately show ?thesis
    by (auto simp: client_turns_def client_wakes accept_ok_def demo_io_def split: sum.split)
qed

theorem run_flushes_witness:
  "\<exists>D d r d' s. start_up demo_host (\<lambda>_. None) demo_argv = Inr (D, d) \<and> main_loop D client_turns d = Inr (r, d') \<and>
     find_session (d_sm d') 7 = Some s \<and> 7 \<in> q_open (d_kq d') \<and>
     (tx s \<noteq> [] \<longrightarrow> (7, EVFILT_WRITE) \<in> q_reg (d_kq d') \<or> last_error s \<noteq> [])"
proof -
  obtain D d where st: "start_up demo_host (\<lambda>_. None) demo_argv = Inr (D, d)" using demo_start by blast
  from client_served [OF st] obtain r d' s where
    m: "main_loop D client_turns d = Inr (r, d')" "find_session (d_sm d') 7 = Some s" by blast
  have K: "kqueue (h_kernel demo_host) q_reg (\<lambda>q f. f \<in> q_open q)"
    using sets.kqueue_axioms by (simp add: demo_host_def)
  from run_flushes [OF K demo_host_ok demo_args demo_host_limits st client_turns_ok client_accepts_ok [OF st] m] st m
  show ?thesis by blast
qed

end
