(* ===== verification/Daemon_Descriptors.thy ===== *)
theory Daemon_Descriptors
  imports Daemon_Run
begin

text \<open>
  The descriptors the daemon keeps open, over a whole run of the main loop of \<open>src/src/umad/main.cpp\<close>:
  those that were open before, and one for each session in the table. No handler leaks the socket of a
  client or closes a descriptor that is not a client's. The proofs are on the client side of the
  interface \<open>kqueue\<close>.
\<close>

section \<open>The invariant\<close>

definition opens :: "('k \<Rightarrow> int \<Rightarrow> bool) \<Rightarrow> int set \<Rightarrow> ('k, 'c, 'r) daemon \<Rightarrow> bool" where
  "opens is_open B d \<longleftrightarrow>
     (\<forall>f. is_open (d_kq d) f \<longleftrightarrow> f \<in> B \<or> find_session (d_sm d) f \<noteq> None) \<and> (\<forall>f \<in> B. find_session (d_sm d) f = None)"

lemma opens_client: "opens is_open B d \<Longrightarrow> find_session (d_sm d) f \<noteq> None \<Longrightarrow> f \<notin> B \<and> is_open (d_kq d) f"
  by (auto simp: opens_def)

lemma opens_like:
  assumes "opens is_open B d" and "is_open (d_kq d') = is_open (d_kq d)"
    and "\<And>f. find_session (d_sm d') f = None \<longleftrightarrow> find_session (d_sm d) f = None"
  shows "opens is_open B d'"
  using assms by (simp add: opens_def)

lemma opens_upd: "opens is_open B d \<Longrightarrow> opens is_open B (upd_session f g d)"
  by (erule opens_like) (simp_all add: find_upd)

lemma find_keys: "map fst S = map fst T \<Longrightarrow> pool_find S f = None \<longleftrightarrow> pool_find T f = None"
  unfolding pool_find_def by (metis map_of_eq_None_iff set_map)

section \<open>Every step keeps it\<close>

context kqueue
begin

lemma opens_add:
  assumes "de_kernel D = K" and "opens is_open B d" and "find_session (d_sm d) f \<noteq> None"
  shows "opens is_open B (d_add D f PollFlags_Write d)" "opens is_open B (d_add D f PollFlags_Read d)"
  using assms(2) opens_client [OF assms(2,3)] add_kq(3,4) [OF _ assms(1)] by (auto intro!: opens_like [OF assms(2)])

lemma opens_remove:
  assumes "de_kernel D = K" and "opens is_open B d"
  shows "opens is_open B (d_remove D f PollFlags_Write d)" "opens is_open B (d_remove D f PollFlags_Read d)"
  using remove_kq(3,4) [OF assms(1)] by (auto intro!: opens_like [OF assms(2)])

lemma opens_close:
  assumes "de_kernel D = K" and "opens is_open B d" and "f \<notin> B"
  shows "opens is_open B (d_close D f d)"
  using assms(2,3) by (auto simp: opens_def close_kq [OF assms(1)])

lemma opens_finish_read:
  assumes K: "de_kernel D = K" and ok: "opens is_open B d"
  shows "opens is_open B (finish_read D f d)"
proof (cases "find_session (d_sm d) f")
  case None
  then show ?thesis using ok by (simp add: finish_read_def)
next
  case (Some s)
  then have f: "f \<notin> B" "find_session (d_sm d) f \<noteq> None" using opens_client [OF ok] by simp_all
  have u: "opens is_open B (upd_session f reset_session d)" "find_session (d_sm (upd_session f reset_session d)) f \<noteq> None"
    using opens_upd [OF ok] f(2) by (simp_all add: find_upd)
  show ?thesis using ok opens_add(1) [OF K ok f(2)] opens_add(2) [OF K u] opens_close [OF K ok f(1)]
    by (auto simp: finish_read_def Some)
qed

lemma opens_client_write:
  assumes K: "de_kernel D = K" and ok: "opens is_open B d"
  shows "opens is_open B (on_client_write D f io d)"
proof (cases "find_session (d_sm d) f")
  case None
  then show ?thesis using ok by (simp add: on_client_write_def)
next
  case (Some s)
  then have f: "f \<notin> B" using opens_client [OF ok] by simp
  obtain s' broken where dr: "drain_tx (io_now io) (io_writes io) s = (s', broken)" by fastforce
  let ?d1 = "upd_session f (\<lambda>_. s') d"
  note u = opens_upd [OF ok, of f "\<lambda>_. s'"]
  note r = opens_remove(1) [OF K u, of f]
  show ?thesis using u r opens_upd [OF r] opens_close [OF K u f] opens_close [OF K r f]
    by (simp add: on_client_write_def Some dr Let_def)
qed

lemma opens_client_read:
  assumes K: "de_kernel D = K" and ok: "opens is_open B d"
  shows "opens is_open B (on_client_read D f io d)"
proof -
  obtain sm rr where r: "on_readable (env_platform (de_env D)) f (de_cfg D) (Some (env_vocab (de_env D))) (io_now io)
             (fst (io_reads io)) (snd (io_reads io)) (d_sm d) = (sm, rr)" by fastforce
  then have find: "find_session sm g = None \<longleftrightarrow> find_session (d_sm d) g = None" for g
    by (cases rule: on_readable_cases) auto
  have d1: "opens is_open B (d\<lparr>d_sm := sm\<rparr>)" by (rule opens_like [OF ok]) (simp_all add: find)
  have "opens is_open B (answer_admin D f (d\<lparr>d_sm := sm\<rparr>))"
    unfolding answer_admin_def Let_def by (intro opens_remove(2) [OF K] opens_upd d1)
  then have "opens is_open B (fst (read_answer D f io d))"
    using d1 opens_remove(2) [OF K] by (auto simp: read_answer_def r Let_def split: option.split)
  then show ?thesis using opens_finish_read [OF K opens_upd]
    by (simp add: on_client_read_def case_prod_beta)
qed

lemma opens_accept:
  assumes K: "de_kernel D = K" and D: "denv_ok D" and d: "d_ok D d" and ok: "opens is_open B d"
    and acc: "accept_ok reg is_open (d_kq d) io"
  shows "opens is_open B (on_accept D io d)"
proof -
  obtain cfd k where a: "io_accept io = (cfd, k)" by fastforce
  have k: "\<And>g. is_open k g \<longleftrightarrow> is_open (d_kq d) g \<or> g = cfd \<and> 0 \<le> cfd" "\<not> is_open (d_kq d) cfd"
    using acc by (auto simp: accept_ok_def a)
  then have new: "cfd \<notin> B" "find_session (d_sm d) cfd = None" using ok by (auto simp: opens_def)
  let ?d2 = "d\<lparr>d_kq := k, d_sm := add_client (de_rehash D) (d_sm d) cfd (io_now io)\<rparr>"
  have wf: "pool_wf (sm_sessions (d_sm d))" using d by (simp add: d_ok_def sm_ok_def pool_ok_def)
  have perm: "mset (de_rehash D p) = mset p" for p using D by (simp add: denv_ok_def)
  have find: "find_session (add_client (de_rehash D) (d_sm d) cfd (io_now io)) g = None \<longleftrightarrow> g \<noteq> cfd \<and> find_session (d_sm d) g = None" for g
    using pool_find_insert [OF wf _ perm, of "new_session\<lparr>fd := cfd, ctx := None, last_activity_ns := io_now io\<rparr>" cfd g]
    by (simp add: find_session_def add_client_def)
  have "opens is_open B ?d2" if "0 \<le> cfd" using ok k new that by (auto simp: opens_def find)
  from opens_add(2) [OF K this, of cfd] have "opens is_open B (d_add D cfd PollFlags_Read ?d2)" if "0 \<le> cfd"
    using that by (simp add: find)
  moreover have "opens is_open B (d\<lparr>d_kq := sys_close K k cfd\<rparr>)" using ok k new by (auto simp: opens_def close_open)
  moreover have "opens is_open B (d\<lparr>d_kq := k\<rparr>)" if "cfd < 0" using ok k that by (auto simp: opens_def)
  ultimately show ?thesis by (simp add: on_accept_def a Let_def K)
qed

lemma opens_events:
  assumes K: "de_kernel D = K" and D: "denv_ok D" and "d_ok D d" and "opens is_open B d"
    and "events_ok D reg is_open evs d" and "next_seq_id (d_sm d) + int (length evs) \<le> INT_MAX"
  shows "opens is_open B (fold (handle_event D) evs d)"
  using assms(3-)
proof (induction evs arbitrary: d)
  case (Cons x evs)
  obtain ev io where x: "x = (ev, io)" by fastforce
  have "opens is_open B (handle_event D x d)"
    using Cons.prems opens_accept [OF K D] opens_client_read [OF K] opens_client_write [OF K]
    by (auto simp: x handle_event_def)
  moreover have "d_ok D (handle_event D x d) \<and> next_seq_id (d_sm (handle_event D x d)) \<le> next_seq_id (d_sm d) + 1"
    using Cons.prems by (intro d_ok_event [OF D]) simp_all
  ultimately show ?case using Cons.IH [of "handle_event D x d"] Cons.prems by (simp add: x)
qed simp

lemma opens_idle:
  assumes K: "de_kernel D = K" and wf: "pool_wf (sm_sessions (d_sm d))" and ok: "opens is_open B d"
  shows "opens is_open B (close_idle D now d)"
proof -
  have "opens is_open B (fold (d_close D) fs d)" if "\<forall>f \<in> set fs. f \<notin> B" for fs
    using that ok by (induction fs arbitrary: d) (simp_all add: opens_close [OF K])
  moreover have "f \<notin> B" if idle: "f \<in> set (idle_fds (de_cfg D) now (sm_sessions (d_sm d)))" for f
  proof -
    obtain k s where "(k, s) \<in> set (sm_sessions (d_sm d))" "fd s = f" using idle by (auto simp: idle_fds_def Let_def)
    then have "find_session (d_sm d) f = Some s" using wf pool_find_iff [OF wf] by (auto simp: find_session_def pool_wf_def)
    then show ?thesis using opens_client [OF ok] by simp
  qed
  ultimately show ?thesis by (simp add: close_idle_def)
qed

lemma opens_tick:
  assumes K: "de_kernel D = K" and d: "d_ok D d" and ok: "opens is_open B d" and t: "tick_and_arm D now dur d = Inr d'"
  shows "opens is_open B d'"
proof -
  obtain fds sch' c' S' where tk: "tick (de_env D) now dur (d_sched d) (d_ctx d) (sm_sessions (d_sm d)) = Inr (fds, sch', c', S')"
    and d': "d' = fold (arm D) fds (d\<lparr>d_sm := (d_sm d)\<lparr>sm_sessions := S'\<rparr>, d_sched := sch', d_ctx := c'\<rparr>)"
    using t by (auto simp: tick_and_arm_def bindE_Inr_iff)
  define d1 where "d1 = d\<lparr>d_sm := (d_sm d)\<lparr>sm_sessions := S'\<rparr>, d_sched := sch', d_ctx := c'\<rparr>"
  have "sch_ok (d_sched d)" "pool_ok (de_cfg D) (sm_sessions (d_sm d))" using d by (simp_all add: d_ok_def sm_ok_def)
  from tick_keys [OF this tk] have "map fst S' = map fst (sm_sessions (d_sm d))" by (simp add: tick_pool_def)
  from find_keys [OF this] have ok1: "opens is_open B d1" by (intro opens_like [OF ok]) (simp_all add: d1_def find_session_def)
  have "d_sm d' = d_sm d1 \<and> is_open (d_kq d') = is_open (d_kq d1)"
    using flush_arms [OF K, of d1 fds] opens_client [OF ok1] by (simp add: d' d1_def [symmetric])
  then show ?thesis by (intro opens_like [OF ok1]) simp_all
qed

lemma opens_iterate:
  assumes K: "de_kernel D = K" and D: "denv_ok D" and d: "d_ok D d" and ok: "opens is_open B d"
    and ev: "events_ok D reg is_open evs d" and room: "next_seq_id (d_sm d) + int (length evs) \<le> INT_MAX"
    and "iterate D evs now_idle now_tick dur d = Inr d'"
  shows "opens is_open B d'"
proof -
  let ?d1 = "fold (handle_event D) evs d"
  have d1: "d_ok D ?d1" by (rule d_ok_events [OF D d room])
  then have "pool_wf (sm_sessions (d_sm ?d1))" by (simp add: d_ok_def sm_ok_def pool_ok_def)
  from opens_idle [OF K this opens_events [OF K D d ok ev room]] show ?thesis
    using opens_tick [OF K keeps_idle [OF d1]] assms(7) by (simp add: iterate_def)
qed

end

section \<open>Over a run\<close>

lemma opens_run:
  assumes K: "kqueue (de_kernel D) reg is_open" and D: "denv_ok D" and "d_ok D d" and "turns_ok n ws"
    and "next_seq_id (d_sm d) + int (sum_list (map n ws)) \<le> INT_MAX" and "opens is_open B d"
    and "accepts_ok D reg is_open ws d" and "main_loop D ws d = Inr (r, d')"
  shows "opens is_open B d'"
  using assms(3-)
proof (induction ws arbitrary: d)
  case (Cons w ws)
  obtain nev evs where w: "wake d w = (nev, evs)" by fastforce
  from turn_room [OF D Cons.prems(1-3) w] obtain d1 where
    d1: "iterate D evs (w_idle w) (w_tick w) (w_dur w) d = Inr d1" "d_ok D d1" "turns_ok n ws"
      "next_seq_id (d_sm d) + int (length evs) \<le> INT_MAX" "next_seq_id (d_sm d) + int (sum_list (map n ws)) \<le> INT_MAX"
      "next_seq_id (d_sm d1) + int (sum_list (map n ws)) \<le> INT_MAX"
    by blast
  note IH = Cons.IH [OF d1(2,3,6)] Cons.IH [OF Cons.prems(1) d1(3,5) Cons.prems(4)]
  have "opens is_open B d1" if "events_ok D reg is_open evs d"
    by (rule kqueue.opens_iterate [OF K refl D Cons.prems(1,4) that d1(4,1)])
  then show ?case using IH Cons.prems(4-6) by (auto simp: w d1(1) split: if_splits)
qed simp

lemma boot_opens:
  assumes "kqueue (h_kernel H) reg is_open" and "is_open (h_k0 H) srv" and "(D, d) = boot H E cfg v gctx srv"
  shows "opens is_open {f. is_open (h_k0 H) f} d" and "de_kernel D = h_kernel H"
  using kqueue.add_one [OF assms(1,2), of PollFlags_Read EVFILT_READ] assms(3)
  by (simp_all add: boot_def Let_def opens_def find_session_def new_manager_def pool_find_def)

text \<open>
  From start-up on, the descriptors open are those that were open when the loop began and exactly
  one for each session in the table.
\<close>

lemma run_opens:
  assumes K: "kqueue (h_kernel H) reg is_open" and "host_ok H" and "from_args E argv = Inr cfg"
    and "\<And>m. limits_ok cfg (h_get_vocab H m)" and "start_up H E argv = Inr (D, d)"
    and "is_open (h_k0 H) (r_socket (h_open H))" and "turns_ok n ws" and "1 + int (sum_list (map n ws)) \<le> INT_MAX"
    and "accepts_ok D reg is_open ws d" and "main_loop D ws d = Inr (r, d')"
  shows "opens is_open {f. is_open (h_k0 H) f} d'"
proof -
  obtain m gctx where b: "(D, d) = boot H E cfg (h_get_vocab H m) gctx (r_socket (h_open H))"
    using start_up_boot [OF assms(5)] assms(3) by auto
  note ok = boot_ok [OF assms(2,4) b] and op = boot_opens [OF K assms(6) b]
  have "next_seq_id (d_sm d) + int (sum_list (map n ws)) \<le> INT_MAX" using assms(8) ok(3) by simp
  from opens_run [OF _ ok(1,2) assms(7) this op(1) assms(9,10)] show ?thesis using K op(2) by simp
qed

end
