(* ===== verification/Daemon_Exit.thy ===== *)
theory Daemon_Exit
  imports Daemon_Descriptors
begin

text \<open>
  The lifetime of what \<open>main\<close> acquires, \<open>src/src/umad/main.cpp\<close>: the signal handlers, and the
  constructors and destructors of the backend guard, the model, the context, the listening socket and the
  poller, as the trace of their calls. C++ destroys locals in the reverse order of their construction on every way
  out of \<open>main\<close>, a return or an exception. The theory proves that what these constructors acquire is
  released, that the sockets of clients connected at the end are not, and that a signal ends the
  daemon.
\<close>

section \<open>Signals\<close>

datatype signal = SIGINT | SIGTERM

definition signal_handler :: "signal \<Rightarrow> bool \<Rightarrow> bool" where
  "signal_handler sig g_shutdown = True"

datatype ('m, 'c) call =
    Sigaction signal
  | Llama "('m, 'c) llama_call"
  | Sys syscall
  | Kqueue int
  | Clients "int list"
  | Close_Kqueue int

definition install_signal_handlers :: "('m, 'c) call list" where
  "install_signal_handlers = [Sigaction SIGINT, Sigaction SIGTERM]"

text \<open>
  The shutdown flag as the loop reads it, when the signals paired with a turn arrive before its
  test of the flag.
\<close>

fun signalled :: "bool \<Rightarrow> (signal list \<times> 'k wakeup) list \<Rightarrow> 'k wakeup list" where
  "signalled g_shutdown [] = []"
| "signalled g_shutdown ((sigs, w) # ws) =
     (let g = fold signal_handler sigs g_shutdown in w\<lparr>w_shutdown := g\<rparr> # signalled g ws)"

section \<open>The whole program\<close>

text \<open>
  The exit code and the calls of a run; \<open>None\<close> while the loop is still running. The calls made for clients
  are in the daemon's own state, of which the trace records the result: \<open>Clients\<close> holds the sockets
  of the sessions in the table when the loop ends. Neither \<open>SessionManager\<close> nor \<open>ClientSession\<close> has a
  destructor that would close them.
\<close>

definition with_poller :: "('p, 'q, 'm, 'k, 'c, 'r) host \<Rightarrow> (tick_error + (int \<times> int list) option) \<Rightarrow>
    tick_error + (int \<times> ('m, 'c) call list) option" where
  "with_poller H loop =
     (case new_poller (h_kqueue H) of
        Inl _ \<Rightarrow> Inr (Some (1, []))
      | Inr kq \<Rightarrow>
          bindE loop (\<lambda>r. Inr (map_option (\<lambda>(code, fds). (code, [Kqueue kq, Clients fds] @ map Close_Kqueue (destroy_poller kq))) r)))"

text \<open>The loop's exit code with the sockets of the sessions it leaves in the table.\<close>

definition loop_result :: "('k, 'c, 'r) denv \<Rightarrow> 'k wakeup list \<Rightarrow> ('k, 'c, 'r) daemon \<Rightarrow> tick_error + (int \<times> int list) option" where
  "loop_result D ws d =
     bindE (main_loop D ws d) (\<lambda>(r, d'). Inr (map_option (\<lambda>code. (code, map fst (sm_sessions (d_sm d')))) r))"

definition scoped :: "('m, 'c) call list \<Rightarrow> ('m, 'c) call list \<Rightarrow> tick_error + (int \<times> ('m, 'c) call list) option \<Rightarrow>
    tick_error + (int \<times> ('m, 'c) call list) option" where
  "scoped ctor dtor body = bindE body (\<lambda>r. Inr (map_option (\<lambda>(code, t). (code, ctor @ t @ dtor)) r))"

definition with_server :: "('p, 'q, 'm, 'k, 'c, 'r) host \<Rightarrow> environ \<Rightarrow> 'k wakeup list \<Rightarrow> RuntimeConfig \<Rightarrow> 'm \<Rightarrow> 'c \<Rightarrow>
    tick_error + (int \<times> ('m, 'c) call list) option" where
  "with_server H E ws cfg m gctx =
     (case open_listen (h_uds H) (h_open H) (new_server (socket_path cfg) (ucast (socket_mode cfg))) of
        ((ok, server), t) \<Rightarrow>
          scoped (map Sys t) (map Sys (snd (destroy_server server)))
            (if \<not> ok then Inr (Some (2, []))
             else
               case boot H E cfg (h_get_vocab H m) gctx (listen_fd server) of
                 (D, d) \<Rightarrow> with_poller H (loop_result D ws d)))"

definition with_model :: "('p, 'q, 'm, 'k, 'c, 'r) host \<Rightarrow> environ \<Rightarrow> 'k wakeup list \<Rightarrow> RuntimeConfig \<Rightarrow>
    tick_error + (int \<times> ('m, 'c) call list) option" where
  "with_model H E ws cfg =
     (case new_model (h_loader H) cfg of
        Inl _ \<Rightarrow> Inr (Some (1, []))
      | Inr model \<Rightarrow>
          scoped [Llama (Llama_Model_Load (mh_model model))] (map Llama (destroy_model (Some (mh_model model))))
            (case new_context (h_loader H) model of
               Inl _ \<Rightarrow> Inr (Some (1, []))
             | Inr gctx \<Rightarrow>
                 scoped [Llama (Llama_Init gctx)] (map Llama (destroy_context (Some gctx)))
                   (with_server H E ws cfg (mh_model model) gctx)))"

definition run_main :: "('p, 'q, 'm, 'k, 'c, 'r) host \<Rightarrow> environ \<Rightarrow> string list \<Rightarrow> 'k wakeup list \<Rightarrow>
    tick_error + (int \<times> ('m, 'c) call list) option" where
  "run_main H E argv ws =
     (case check_args H E argv of
        Inl (Exit code _ _) \<Rightarrow> Inr (Some (code, []))
      | Inr cfg \<Rightarrow>
          scoped install_signal_handlers []
            (scoped (map Llama new_backend_guard) (map Llama destroy_backend_guard) (with_model H E ws cfg)))"

section \<open>What is held\<close>

datatype ('m, 'c) resource = Backend | Loaded 'm | Context 'c | Listener int | Queue int

text \<open>
  The resources held after a trace, the most recent first; \<open>None\<close> when something is released that is not
  the most recently acquired resource still held.
\<close>

definition release :: "('m, 'c) resource \<Rightarrow> ('m, 'c) resource list \<Rightarrow> ('m, 'c) resource list option" where
  "release x held = (case held of [] \<Rightarrow> None | y # ys \<Rightarrow> if x = y then Some ys else None)"

fun acquire :: "('m, 'c) call \<Rightarrow> ('m, 'c) resource list \<Rightarrow> ('m, 'c) resource list option" where
  "acquire (Llama Llama_Backend_Init) held = Some (Backend # held)"
| "acquire (Llama Llama_Backend_Free) held = release Backend held"
| "acquire (Llama (Llama_Model_Load m)) held = Some (Loaded m # held)"
| "acquire (Llama (Llama_Model_Free m)) held = release (Loaded m) held"
| "acquire (Llama (Llama_Init c)) held = Some (Context c # held)"
| "acquire (Llama (Llama_Free c)) held = release (Context c) held"
| "acquire (Sys (Socket f)) held = Some (if 0 \<le> f then Listener f # held else held)"
| "acquire (Sys (Close f)) held = release (Listener f) held"
| "acquire (Kqueue f) held = Some (Queue f # held)"
| "acquire (Close_Kqueue f) held = release (Queue f) held"
| "acquire _ held = Some held"

fun holds :: "('m, 'c) call list \<Rightarrow> ('m, 'c) resource list \<Rightarrow> ('m, 'c) resource list option" where
  "holds [] held = Some held"
| "holds (c # t) held = Option.bind (acquire c held) (holds t)"

lemma holds_append: "holds (t1 @ t2) held = Option.bind (holds t1 held) (holds t2)"
  by (induction t1 arbitrary: held) (simp_all split: bind_splits)

text \<open>A trace that, started anywhere, leaves the resources as it found them.\<close>

definition neutral :: "('m, 'c) call list \<Rightarrow> bool" where
  "neutral t \<longleftrightarrow> (\<forall>held. holds t held = Some held)"

definition all_neutral :: "tick_error + (int \<times> ('m, 'c) call list) option \<Rightarrow> bool" where
  "all_neutral r \<longleftrightarrow> (\<forall>code t. r = Inr (Some (code, t)) \<longrightarrow> neutral t)"

lemma scoped_neutral:
  assumes "all_neutral body" and "\<And>held. \<exists>x. holds ctor held = Some x \<and> holds dtor x = Some held"
  shows "all_neutral (scoped ctor dtor body)"
proof -
  have "neutral (ctor @ t @ dtor)" if "neutral t" for t
    unfolding neutral_def
  proof
    fix held show "holds (ctor @ t @ dtor) held = Some held"
      using assms(2) [of held] that by (auto simp: neutral_def holds_append)
  qed
  then show ?thesis using assms(1) by (auto simp: all_neutral_def scoped_def bindE_Inr_iff)
qed

lemma poller_neutral: "h_kqueue H \<noteq> 0 \<Longrightarrow> all_neutral (with_poller H loop)"
  by (auto simp: all_neutral_def with_poller_def new_poller_def destroy_poller_def neutral_def release_def bindE_Inr_iff)

lemma server_scope:
  assumes "open_listen P io (new_server path mode) = ((ok, server), t)"
  shows "\<exists>x. holds (map Sys t) held = Some x \<and> holds (map Sys (snd (destroy_server server))) x = Some held"
  using assms
  by (auto simp: open_listen_def open_socket_def Let_def destroy_server_def close_socket_def new_server_def holds_append release_def
      split: if_splits)

lemma server_neutral:
  assumes "h_kqueue H \<noteq> 0"
  shows "all_neutral (with_server H E ws cfg m gctx)"
proof -
  have exit2: "all_neutral (Inr (Some (2, [])))" by (simp add: all_neutral_def neutral_def)
  obtain ok server t where o: "open_listen (h_uds H) (h_open H) (new_server (socket_path cfg) (ucast (socket_mode cfg))) = ((ok, server), t)"
    by (metis surj_pair)
  show ?thesis unfolding with_server_def o prod.case
    by (rule scoped_neutral [OF _ server_scope [OF o]]) (simp add: exit2 poller_neutral [OF assms] split: prod.split)
qed

lemma model_neutral:
  assumes "h_kqueue H \<noteq> 0"
  shows "all_neutral (with_model H E ws cfg)"
proof -
  have exit1: "all_neutral (Inr (Some (1, [])))" by (simp add: all_neutral_def neutral_def)
  show ?thesis
    unfolding with_model_def
    by (auto simp: exit1 destroy_model_def destroy_context_def release_def server_neutral [OF assms] split: sum.split
        intro!: scoped_neutral)
qed

lemma main_neutral:
  assumes "h_kqueue H \<noteq> 0"
  shows "all_neutral (run_main H E argv ws)"
proof -
  have "all_neutral (Inr (Some (code, [])))" for code by (simp add: all_neutral_def neutral_def)
  then show ?thesis
    unfolding run_main_def
    by (auto simp: install_signal_handlers_def new_backend_guard_def destroy_backend_guard_def release_def
        model_neutral [OF assms] split: sum.split exit.split intro!: scoped_neutral)
qed

section \<open>The exit code and the clients left\<close>

definition clients_left :: "('m, 'c) call list \<Rightarrow> int list" where
  "clients_left t = concat (map (\<lambda>c. case c of Clients fds \<Rightarrow> fds | _ \<Rightarrow> []) t)"

lemma clients_left_simps [simp]:
  "clients_left [] = []" "clients_left (c # t) = (case c of Clients fds \<Rightarrow> fds | _ \<Rightarrow> []) @ clients_left t"
  "clients_left (t1 @ t2) = clients_left t1 @ clients_left t2" "clients_left (map Sys ss) = []" "clients_left (map Llama ls) = []"
  "clients_left (map Close_Kqueue qs) = []"
  by (simp_all add: clients_left_def comp_def)

text \<open>With the other calls left out, the program is start-up followed by the main loop.\<close>

definition outcome :: "tick_error + (int \<times> ('m, 'c) call list) option \<Rightarrow> tick_error + (int \<times> int list) option" where
  "outcome r = bindE r (\<lambda>x. Inr (map_option (\<lambda>(code, t). (code, clients_left t)) x))"

lemma outcome_scoped [simp]:
  "clients_left ctor = [] \<Longrightarrow> clients_left dtor = [] \<Longrightarrow> outcome (scoped ctor dtor body) = outcome body"
  by (cases body) (auto simp: outcome_def scoped_def option.map_comp comp_def case_prod_beta intro!: option.map_cong)

lemma outcome_exit [simp]: "outcome (Inr (Some (code, t))) = Inr (Some (code, clients_left t))"
  by (simp add: outcome_def)

lemma outcome_poller:
  "outcome (with_poller H loop) = (case new_poller (h_kqueue H) of Inl _ \<Rightarrow> Inr (Some (1, [])) | Inr _ \<Rightarrow> loop)"
  by (cases loop) (auto simp: with_poller_def outcome_def option.map_comp comp_def case_prod_beta option.map_ident split: sum.split)

lemma outcome_main:
  "outcome (run_main H E argv ws) =
     (case start_up H E argv of Inl (Exit code _ _) \<Rightarrow> Inr (Some (code, [])) | Inr (D, d) \<Rightarrow> loop_result D ws d)"
  by (auto simp: run_main_def start_up_def with_model_def with_server_def outcome_poller boot_def Let_def install_signal_handlers_def
      split: sum.split exit.split prod.split)

section \<open>The socket file\<close>











section \<open>What is closed\<close>

definition closes_own :: "('p, 'q, 'm, 'k, 'c, 'r) host \<Rightarrow> ('m, 'c) call list \<Rightarrow> bool" where
  "closes_own H t \<longleftrightarrow>
     (\<forall>f. Sys (Close f) \<in> set t \<longrightarrow> f = r_socket (h_open H)) \<and> (\<forall>f. Close_Kqueue f \<in> set t \<longrightarrow> f = h_kqueue H)"

definition all_close_own :: "('p, 'q, 'm, 'k, 'c, 'r) host \<Rightarrow> tick_error + (int \<times> ('m, 'c) call list) option \<Rightarrow> bool" where
  "all_close_own H r \<longleftrightarrow> (\<forall>code t. r = Inr (Some (code, t)) \<longrightarrow> closes_own H t)"

lemma scoped_close_own:
  "closes_own H ctor \<Longrightarrow> closes_own H dtor \<Longrightarrow> all_close_own H body \<Longrightarrow> all_close_own H (scoped ctor dtor body)"
  by (auto simp: all_close_own_def closes_own_def scoped_def bindE_Inr_iff)

lemma exits_close_own: "all_close_own H (Inr (Some (code, [])))"
  by (simp add: all_close_own_def closes_own_def)

lemma main_closes_own: "all_close_own H (run_main H E argv ws)"
proof -
  have "closes_own H (map Sys t)" "closes_own H (map Sys (snd (destroy_server server)))"
    if "open_listen (h_uds H) (h_open H) (new_server path mode) = ((ok, server), t)" for path mode ok server t
    using that by (auto simp: closes_own_def open_listen_def open_socket_def Let_def new_server_def destroy_server_def close_socket_def split: if_splits)
  moreover have "all_close_own H (with_poller H loop)" for loop
    by (auto simp: all_close_own_def closes_own_def with_poller_def new_poller_def destroy_poller_def bindE_Inr_iff)
  ultimately have "all_close_own H (with_server H E ws cfg m gctx)" for cfg m gctx
    unfolding with_server_def by (auto split: prod.split intro!: scoped_close_own exits_close_own)
  then have "all_close_own H (with_model H E ws cfg)" for cfg
    unfolding with_model_def
    by (auto simp: closes_own_def destroy_model_def destroy_context_def split: sum.split intro!: scoped_close_own exits_close_own)
  then show ?thesis
    unfolding run_main_def
    by (auto simp: closes_own_def install_signal_handlers_def new_backend_guard_def destroy_backend_guard_def
        split: sum.split exit.split intro!: scoped_close_own exits_close_own)
qed

section \<open>Leaving\<close>


text \<open>The destructor of the poller spares a queue whose descriptor is 0, which then stays open.\<close>

lemma queue_zero_leaks:
  assumes "h_kqueue H = 0"
  shows "with_poller H (Inr (Some (code, fds))) = Inr (Some (code, [Kqueue 0, Clients fds]))"
    and "holds [Kqueue 0, Clients fds] held = Some (Queue 0 # held)"
  using assms by (simp_all add: with_poller_def new_poller_def destroy_poller_def)

section \<open>Stopping\<close>

lemma handlers_keep: "g \<Longrightarrow> fold signal_handler sigs g"
  by (induction sigs arbitrary: g) (simp_all add: signal_handler_def)

lemma handlers_set: "sigs \<noteq> [] \<Longrightarrow> fold signal_handler sigs g"
  by (cases sigs) (simp_all add: signal_handler_def handlers_keep)

lemma signalled_first:
  assumes "\<forall>x \<in> set pre. fst x = []" and "sigs \<noteq> []"
  shows "\<exists>vs. signalled False (pre @ (sigs, w) # post) = signalled False pre @ w\<lparr>w_shutdown := True\<rparr> # vs"
  using assms(1)
proof (induction pre)
  case Nil
  then show ?case using handlers_set [OF assms(2), of False] by (simp add: Let_def)
next
  case (Cons x pre)
  then show ?case by (cases x) (simp add: Let_def)
qed

text \<open>
  What the loop relies on of the descriptors of start-up: the listening socket and the queue are open
  when it begins, and the queue's is not 0.
\<close>

definition descriptors_ok :: "('p, 'q, 'm, 'k, 'c, 'r) host \<Rightarrow> ('k \<Rightarrow> int \<Rightarrow> bool) \<Rightarrow> bool" where
  "descriptors_ok H is_open \<longleftrightarrow>
     is_open (h_k0 H) (r_socket (h_open H)) \<and> is_open (h_k0 H) (h_kqueue H) \<and> h_kqueue H \<noteq> 0"

text \<open>
  C18. A signal stops the daemon: when the first \<open>SIGINT\<close> or \<open>SIGTERM\<close> is delivered before a turn of the
  main loop, that turn and all later ones are not carried out, whatever they would have brought; the
  program returns 0 from the state the earlier turns left, and everything start-up acquired is
  released (the queue's descriptor not being 0). Clients connected then are neither answered
  further nor disconnected by the program: at the end of the loop the descriptors open are those
  open at its beginning and the socket of every session in the table, and no call of the
  program closes such a socket.
\<close>

theorem signal_stops:
  assumes K: "kqueue (h_kernel H) reg is_open" and "host_ok H" and "from_args E argv = Inr cfg"
    and "\<And>m. limits_ok cfg (h_get_vocab H m)" and "start_up H E argv = Inr (D, d)" and "descriptors_ok H is_open"
    and "\<forall>x \<in> set pre. fst x = []" and "sigs \<noteq> []"
    and "turns_ok n (signalled False pre)" and "1 + int (sum_list (map n (signalled False pre))) \<le> INT_MAX"
    and "accepts_ok D reg is_open (signalled False pre) d"
  shows "\<exists>r d' t. main_loop D (signalled False pre) d = Inr (r, d') \<and>
    run_main H E argv (signalled False (pre @ (sigs, w) # post)) = Inr (Some (0, t)) \<and> holds t [] = Some [] \<and>
    clients_left t = map fst (sm_sessions (d_sm d')) \<and>
    (\<forall>f. is_open (d_kq d') f \<longleftrightarrow> is_open (h_k0 H) f \<or> f \<in> set (clients_left t)) \<and>
    (\<forall>f \<in> set (clients_left t). Sys (Close f) \<notin> set t \<and> Close_Kqueue f \<notin> set t)"
proof -
  let ?ws = "signalled False (pre @ (sigs, w) # post)"
  note ok = start_up_ok [OF assms(2-5)]
  have "next_seq_id (d_sm d) + int (sum_list (map n (signalled False pre))) \<le> INT_MAX" using assms(10) ok(3) by simp
  from main_loop_ok [OF ok(1,2) assms(9) this] obtain r d' where
    r: "main_loop D (signalled False pre) d = Inr (r, d')" "r = None \<or> r = Some 0" by blast
  obtain vs where "?ws = signalled False pre @ w\<lparr>w_shutdown := True\<rparr> # vs" using signalled_first [OF assms(7,8)] by blast
  then have "main_loop D ?ws d = Inr (Some 0, d')" using r main_loop_append [of D "signalled False pre"] main_loop_ended [of D "signalled False pre"] by auto
  then have o: "outcome (run_main H E argv ?ws) = Inr (Some (0, map fst (sm_sessions (d_sm d'))))"
    by (simp add: outcome_main assms(5) loop_result_def)
  then obtain t where t: "run_main H E argv ?ws = Inr (Some (0, t))" "clients_left t = map fst (sm_sessions (d_sm d'))"
    by (auto simp: outcome_def bindE_Inr_iff)
  have "is_open (h_k0 H) (r_socket (h_open H))" "h_kqueue H \<noteq> 0" and q: "is_open (h_k0 H) (h_kqueue H)"
    using assms(6) by (simp_all add: descriptors_ok_def)
  from run_opens [OF K assms(2-5) this(1) assms(9-11) r(1)] have op: "opens is_open {f. is_open (h_k0 H) f} d'" .
  have keys: "f \<in> set (clients_left t) \<longleftrightarrow> find_session (d_sm d') f \<noteq> None" for f
    unfolding t(2) find_session_def pool_find_def by (simp add: map_of_eq_None_iff)
  have "holds t [] = Some []" using main_neutral [OF \<open>h_kqueue H \<noteq> 0\<close>, of E argv ?ws] t(1) by (auto simp: all_neutral_def neutral_def)
  moreover have "closes_own H t" using main_closes_own [of H E argv ?ws] t(1) by (auto simp: all_close_own_def)
  then have "\<forall>f \<in> set (clients_left t). Sys (Close f) \<notin> set t \<and> Close_Kqueue f \<notin> set t"
    using op q assms(6) keys by (fastforce simp: opens_def closes_own_def descriptors_ok_def)
  moreover have "\<forall>f. is_open (d_kq d') f \<longleftrightarrow> is_open (h_k0 H) f \<or> f \<in> set (clients_left t)"
    using op unfolding keys by (simp add: opens_def)
  ultimately show ?thesis using r(1) t by blast
qed

section \<open>A concrete run\<close>

text \<open>A client connects and is sent part of an error event; a signal arrives while it is connected.\<close>

definition quiet_turns :: "(signal list \<times> set_queue wakeup) list" where
  "quiet_turns = map (Pair []) client_turns"

lemma quiet_turns_facts: "signalled False quiet_turns = client_turns" "\<forall>x \<in> set quiet_turns. fst x = []"
  by (simp_all add: quiet_turns_def client_turns_def demo_turns_def bad_frame_turn_def client_turn_def)

theorem signal_stops_witness:
  "\<exists>d' t. run_main demo_host (\<lambda>_. None) demo_argv (signalled False (quiet_turns @ [([SIGTERM], hd demo_turns)])) = Inr (Some (0, t)) \<and>
     holds t [] = Some [] \<and> 7 \<in> set (clients_left t) \<and> q_open (d_kq (d' :: (set_queue, unit, nat) daemon)) = {3, 4} \<union> set (clients_left t) \<and>
     Sys (Close 7) \<notin> set t"
proof -
  obtain D d where st: "start_up demo_host (\<lambda>_. None) demo_argv = Inr (D, d)" using demo_start by blast
  have K: "kqueue (h_kernel demo_host) q_reg (\<lambda>q f. f \<in> q_open q)" using sets.kqueue_axioms by (simp add: demo_host_def)
  have "descriptors_ok demo_host (\<lambda>q f. f \<in> q_open q)" by (simp add: descriptors_ok_def demo_host_def)
  from signal_stops [OF K demo_host_ok demo_args demo_host_limits st this quiet_turns_facts(2), of "[SIGTERM]" "\<lambda>_. 1" "hd demo_turns" "[]"]
    client_turns_ok client_accepts_ok [OF st] obtain r d' t where
    t: "main_loop D client_turns d = Inr (r, d')" "holds t [] = Some []" "clients_left t = map fst (sm_sessions (d_sm d'))"
      "run_main demo_host (\<lambda>_. None) demo_argv (signalled False (quiet_turns @ [([SIGTERM], hd demo_turns)])) = Inr (Some (0, t))"
      "\<forall>f. f \<in> q_open (d_kq d') \<longleftrightarrow> f \<in> q_open (h_k0 demo_host) \<or> f \<in> set (clients_left t)"
      "\<forall>f \<in> set (clients_left t). Sys (Close f) \<notin> set t \<and> Close_Kqueue f \<notin> set t"
    unfolding quiet_turns_facts(1) by blast
  from client_served [OF st] t(1) obtain s where "find_session (d_sm d') 7 = Some s" by auto
  then have "7 \<in> set (clients_left t)" using pool_find_key by (force simp: t(3) find_session_def)
  then show ?thesis using t(2,4-6) by (intro exI [of _ d'] exI [of _ t]) (auto simp: demo_host_def)
qed



end
