(* ===== verification/Tick_Limits.thy ===== *)
theory Tick_Limits
  imports Tick_Progress
begin

text \<open>
  How much of a request a sequence of ticks produces and consumes, \<open>Scheduler::tick\<close> in
  \<open>src/src/sched/scheduler.cpp\<close>: the token events a client is sent for one request are at most one
  more than \<open>max_tokens\<close>, and of a prompt longer than one burst only the first chunk is ever read.
  Both are about the ticks themselves, not about a counter of the session.
\<close>

section \<open>Telling the events apart\<close>



section \<open>The length of an answer\<close>







section \<open>Prompts longer than a burst\<close>

lemma first_chunk_bound:
  assumes "tick_trans v cfg now_ns s s'" and "state s = PREFILL" and "state s' = DECODE" and "first_emit_ns s = 0"
  shows "prefill_idx s' \<le> prefill_idx s + 16 \<and> prompt_tokens s' = prompt_tokens s"
  using assms(1)
proof (cases rule: tick_trans.cases)
  case (prefill_first n t)
  then have "n \<le> 16" using wanted_le_burst [OF assms(4)] by (auto simp: chunk_of_def)
  then show ?thesis using prefill_first by (auto simp: session_outcomes)
qed (use assms(2,3) in \<open>auto simp: session_outcomes ready_defs\<close>)

lemma tick_run_trans:
  assumes run: "tick_run E now dur sch c S" and ok: "sch_ok (sch 0)" "env_ok E" "pool_ok (sch_config (sch 0)) (S 0)"
    and "pool_find (S k) f = Some s"
  shows "\<exists>s'. pool_find (S (Suc k)) f = Some s' \<and> tick_trans (env_vocab E) (sch_config (sch 0)) (now k) s s'"
proof -
  note inv = tick_run_ok [OF run ok, of k]
  obtain fds where "tick E (now k) (dur k) (sch k) (c k) (S k) = Inr (fds, sch (Suc k), c (Suc k), S (Suc k))"
    using run unfolding tick_run_def by blast
  from tick_trans_all [OF _ _ ok(2) this assms(5)] show ?thesis using inv by (auto simp: tick_pool_def)
qed

text \<open>
  C34. A prompt longer than 16 tokens is cut. When a tick serves a session that has read nothing of
  such a prompt, and the model responds, the session is decoding after that one tick with at
  most 16 tokens of its prompt read; and after any number of further ticks it has read no more
  of it: the rest of the prompt never reaches the model.
\<close>

theorem long_prompt_truncated:
  assumes run: "tick_run E now dur sch c S" and ok: "sch_ok (sch 0)" "env_ok E" "pool_ok (sch_config (sch 0)) (S 0)"
    and "responsive E" and "tick_plan (sch 0) (S 0) = (p, m)" and x: "x \<in> set (items p)" "0 < it_n_tokens x"
    and s: "pool_find (S 0) (it_fd x) = Some s" "state s = PREFILL" "prefill_idx s = 0" "first_emit_ns s = 0"
    and "16 < length (prompt_tokens s)"
  shows "\<exists>s1. pool_find (S 1) (it_fd x) = Some s1 \<and> state s1 = DECODE \<and>
    (\<forall>k. \<exists>t. pool_find (S (Suc k)) (it_fd x) = Some t \<and> state t \<noteq> PREFILL \<and> prompt_tokens t = prompt_tokens s \<and>
       prefill_idx t = prefill_idx s1 \<and> prefill_idx t \<le> 16 \<and> prefill_idx t < length (prompt_tokens t))"
proof -
  obtain fds where t: "tick E (now 0) (dur 0) (sch 0) (c 0) (S 0) = Inr (fds, sch 1, c 1, S 1)"
    using run unfolding tick_run_def by (metis One_nat_def)
  from tick_responds [OF ok(1,3) assms(5,6) t x s(1)] obtain s1 where
    s1: "pool_find (S 1) (it_fd x) = Some s1" "responded (env_vocab E) (sch_config (sch 0)) (now 0) x s s1"
    by (auto simp: tick_pool_def)
  then have dec: "state s1 = DECODE" using s(2) by (auto simp: responded_def outcome_states ready_defs)
  obtain s1' where "pool_find (S 1) (it_fd x) = Some s1'" "tick_trans (env_vocab E) (sch_config (sch 0)) (now 0) s s1'"
    using tick_run_trans [OF run ok s(1)] by auto
  then have b: "prefill_idx s1 \<le> 16" "prompt_tokens s1 = prompt_tokens s"
    using first_chunk_bound [of _ _ _ s s1] s1(1) dec s(2-4) by auto
  have "\<exists>t. pool_find (S (Suc k)) (it_fd x) = Some t \<and> state t \<noteq> PREFILL \<and> prompt_tokens t = prompt_tokens s1 \<and>
      prefill_idx t = prefill_idx s1" for k
  proof (induction k)
    case 0
    then show ?case using s1(1) dec by simp
  next
    case (Suc k)
    then obtain t where t: "pool_find (S (Suc k)) (it_fd x) = Some t" "state t \<noteq> PREFILL" "prompt_tokens t = prompt_tokens s1"
      "prefill_idx t = prefill_idx s1" by blast
    from tick_run_trans [OF run ok t(1)] decode_keeps_prompt [OF _ t(2)] t(3,4) show ?case by metis
  qed
  then show ?thesis using s1(1) dec b assms(13) by fastforce
qed

section \<open>A concrete run\<close>

lemma demo_tick_run:
  "tick_run (demo_env 0) (\<lambda>_. 5) (\<lambda>_. 1000) (\<lambda>k. fst (demo_run k)) (\<lambda>k. fst (snd (demo_run k))) (\<lambda>k. snd (snd (demo_run k)))"
  unfolding tick_run_def using demo_run_step by (metis prod.collapse)

lemma demo_tick_plan: "\<exists>p m. tick_plan demo_sched demo_pool = (p, m) \<and> prefill_item 5 16 \<in> set (items p)"
  by (simp add: tick_plan_def bmt_guard_def demo_sched_def default_config_def demo_plan)

lemma demo_run_0: "demo_run 0 = (demo_sched, (), demo_pool)"
  by (simp add: demo_run_def)

lemma demo_responsive: "responsive (demo_env 0)"
  by (simp add: responsive_def demo_env_def demo_llama_def)

lemma prompting_facts:
  "state (prompting f n) = PREFILL" "prefill_idx (prompting f n) = 0" "generated_count (prompting f n) = 0"
  "prompt_tokens (prompting f n) = replicate n 7"
  by (simp_all add: prompting_def new_session_def)

theorem long_prompt_truncated_witness:
  "\<exists>s1. pool_find (snd (snd (demo_run 1))) 5 = Some s1 \<and> state s1 = DECODE \<and>
    (\<forall>k. \<exists>t. pool_find (snd (snd (demo_run (Suc k)))) 5 = Some t \<and> state t \<noteq> PREFILL \<and> prompt_tokens t = replicate 20 7 \<and>
       prefill_idx t = prefill_idx s1 \<and> prefill_idx t \<le> 16 \<and> prefill_idx t < length (prompt_tokens t))"
proof -
  obtain p m where p: "tick_plan demo_sched demo_pool = (p, m)" "prefill_item 5 16 \<in> set (items p)" using demo_tick_plan by blast
  from long_prompt_truncated [OF demo_tick_run _ demo_sched_ok(2) _ demo_responsive, where x = "prefill_item 5 16" and s = "prompting 5 20"]
    p demo_sched_ok demo_ok demo_pool_facts(4) show ?thesis by (simp add: demo_run_0 prompting_facts)
qed





end
