(* ===== verification/Config_Properties.thy ===== *)
theory Config_Properties
  imports Config
begin

text \<open>
  The command line, \<open>src/src/runtime/config.cpp\<close>: the C parsers invert decimal printing, later options
  override earlier ones and the environment, and every value of every option can be given.
\<close>

section \<open>Numbers\<close>

lemma digits_of_nat: "list_all is_digit (string_of_nat n)"
  using string_of_nat_digits [of n] by (auto simp: list_all_iff is_digit_def)

lemma string_of_nat_Cons: "\<exists>c r. string_of_nat n = c # r \<and> is_digit c"
  using digits_of_nat [of n] by (cases "string_of_nat n") (auto simp: string_of_nat.simps [of n] split: if_splits)

lemma dec_val_string_of_nat: "dec_val (string_of_nat n) = n"
proof (induction n rule: string_of_nat.induct)
  case (1 n)
  have "list_all (\<lambda>k. digit_val (digit_char k) = k) [0..<10]" by code_simp
  then have d: "digit_val (digit_char k) = k" if "k < 10" for k using that by (simp add: list_all_iff)
  show ?case
  proof (cases "n < 10")
    case True
    then show ?thesis by (simp add: string_of_nat.simps [of n] dec_val_def d)
  next
    case False
    then show ?thesis using 1 by (simp add: string_of_nat.simps [of n] dec_val_def d)
  qed
qed

lemma scan_nat:
  "split_sign (dropWhile is_space (string_of_nat n)) = (False, string_of_nat n)" "takeWhile is_digit (string_of_nat n) = string_of_nat n"
proof -
  obtain c r where c: "string_of_nat n = c # r" "is_digit c" using string_of_nat_Cons by blast
  then have "\<not> is_space c" "c \<noteq> CHR ''-''" "c \<noteq> CHR ''+''" by (auto simp: is_digit_def is_space_def)
  then show "split_sign (dropWhile is_space (string_of_nat n)) = (False, string_of_nat n)" by (simp add: c(1) split_sign_def)
  show "takeWhile is_digit (string_of_nat n) = string_of_nat n"
    using digits_of_nat [of n] by (simp add: takeWhile_eq_all_conv list_all_iff)
qed

lemma strtoul_of_nat: "n < 2 ^ 64 \<Longrightarrow> strtoul (string_of_nat n) = n"
  by (simp add: strtoul_def scan_nat dec_val_string_of_nat)

lemma strtol_of_int:
  assumes "- (2 ^ 63) \<le> x" and "x < 2 ^ 63"
  shows "strtol (string_of_int x) = x"
proof (cases "x < 0")
  case True
  have "dropWhile is_space (CHR ''-'' # s) = CHR ''-'' # s" for s by (simp add: is_space_def)
  then show ?thesis using True assms
    by (simp add: string_of_int_def strtol_def split_sign_def scan_nat dec_val_string_of_nat)
next
  case False
  then show ?thesis using assms by (simp add: string_of_int_def strtol_def scan_nat dec_val_string_of_nat)
qed

lemma number_options:
  "to_u32 (strtoul (string_of_nat (unat (x :: u32)))) = x" "word_of_nat (strtoul (string_of_nat (unat (y :: u64)))) = y"
  "- (2 ^ 31) \<le> z \<Longrightarrow> z < 2 ^ 31 \<Longrightarrow> i32 (strtol (string_of_int z)) = z"
proof -
  have "unat x < 2 ^ 64" using unsigned_less [of x, where ?'a = nat] by simp
  then show "to_u32 (strtoul (string_of_nat (unat x))) = x" by (simp add: strtoul_of_nat to_u32_def)
  have "unat y < 2 ^ 64" using unsigned_less [of y, where ?'a = nat] by simp
  then show "word_of_nat (strtoul (string_of_nat (unat y))) = y" by (simp add: strtoul_of_nat)
  show "i32 (strtol (string_of_int z)) = z" if "- (2 ^ 31) \<le> z" "z < 2 ^ 31"
    using that by (simp add: strtol_of_int i32_def)
qed

section \<open>Options\<close>

text \<open>
  A command line that gives every option, with the values of \<open>c\<close>; and \<open>cfg\<close> with those values.
\<close>

definition spell :: "RuntimeConfig \<Rightarrow> string list" where
  "spell c =
     [''--model'', model_path c, ''--n-ctx'', string_of_nat (unat (n_ctx c)), ''--threads'', string_of_int (n_threads c),
      if use_mlock c then ''--mlock'' else ''--no-mlock'', if use_mmap c then ''--mmap'' else ''--no-mmap'',
      ''--socket'', socket_path c, ''--max-sessions'', string_of_nat (unat (max_sessions c)),
      ''--parallel'', string_of_nat (unat (n_seq_max c)), ''--max-tokens'', string_of_nat (unat (max_tokens c)),
      ''--bmt-budget'', string_of_nat (unat (bmt_budget_units c))]"

definition override :: "RuntimeConfig \<Rightarrow> RuntimeConfig \<Rightarrow> RuntimeConfig" where
  "override c cfg =
     cfg\<lparr>model_path := model_path c, n_ctx := n_ctx c, n_threads := n_threads c, use_mlock := use_mlock c, use_mmap := use_mmap c,
         socket_path := socket_path c, max_sessions := max_sessions c, n_seq_max := n_seq_max c, max_tokens := max_tokens c,
         bmt_budget_units := bmt_budget_units c\<rparr>"

text \<open>The options as a table: a flag, or an option that needs a value, under the name it is reported with.\<close>

datatype setter =
    Flag "RuntimeConfig \<Rightarrow> RuntimeConfig"
  | Valued string "string \<Rightarrow> RuntimeConfig \<Rightarrow> RuntimeConfig"

definition options :: "(string \<times> setter) list" where
  "options =
     [(''--model'', Valued ''--model'' (\<lambda>v c. c\<lparr>model_path := v\<rparr>)),
      (''--n-ctx'', Valued ''--n-ctx'' (\<lambda>v c. c\<lparr>n_ctx := to_u32 (strtoul v)\<rparr>)),
      (''--threads'', Valued ''--threads'' (\<lambda>v c. c\<lparr>n_threads := i32 (strtol v)\<rparr>)),
      (''--mlock'', Flag (\<lambda>c. c\<lparr>use_mlock := True\<rparr>)), (''--no-mlock'', Flag (\<lambda>c. c\<lparr>use_mlock := False\<rparr>)),
      (''--no-mmap'', Flag (\<lambda>c. c\<lparr>use_mmap := False\<rparr>)), (''--mmap'', Flag (\<lambda>c. c\<lparr>use_mmap := True\<rparr>)),
      (''--sock'', Valued ''--socket'' (\<lambda>v c. c\<lparr>socket_path := v\<rparr>)),
      (''--socket'', Valued ''--socket'' (\<lambda>v c. c\<lparr>socket_path := v\<rparr>)),
      (''--max-sessions'', Valued ''--max-sessions'' (\<lambda>v c. c\<lparr>max_sessions := to_u32 (strtoul v)\<rparr>)),
      (''--parallel'', Valued ''--parallel'' (\<lambda>v c. c\<lparr>n_seq_max := to_u32 (strtoul v)\<rparr>)),
      (''--n-seq-max'', Valued ''--parallel'' (\<lambda>v c. c\<lparr>n_seq_max := to_u32 (strtoul v)\<rparr>)),
      (''--max-tokens'', Valued ''--max-tokens'' (\<lambda>v c. c\<lparr>max_tokens := to_u32 (strtoul v)\<rparr>)),
      (''--bmt-budget'', Valued ''--bmt-budget'' (\<lambda>v c. c\<lparr>bmt_budget_units := word_of_nat (strtoul v)\<rparr>))]"

lemma parse_args_table:
  "parse_args cfg (arg # rest) =
     (case map_of options arg of
        Some (Flag f) \<Rightarrow> parse_args (f cfg) rest
      | Some (Valued name f) \<Rightarrow>
          (case rest of [] \<Rightarrow> Inl (''missing value for '' @ name) | v # rest' \<Rightarrow> parse_args (f v cfg) rest')
      | None \<Rightarrow> if arg = ''--help'' \<or> arg = ''-h'' then Inl ''help'' else Inl (''unknown flag: '' @ arg))"
proof (cases "arg \<in> fst ` set options")
  case True
  then have "arg \<in> set [''--model'', ''--n-ctx'', ''--threads'', ''--mlock'', ''--no-mlock'', ''--no-mmap'', ''--mmap'', ''--sock'', ''--socket'',
      ''--max-sessions'', ''--parallel'', ''--n-seq-max'', ''--max-tokens'', ''--bmt-budget'']" by (simp add: options_def)
  then show ?thesis unfolding list.set by (elim insertE emptyE) (simp_all add: options_def)
qed (simp add: options_def)

text \<open>Options reach only the fields that \<open>override\<close> replaces.\<close>

lemma options_fields:
  assumes "map_of options arg = Some s"
  shows "case s of Flag f \<Rightarrow> override c (f cfg) = override c cfg | Valued _ f \<Rightarrow> \<forall>v. override c (f v cfg) = override c cfg"
proof -
  have "list_all (\<lambda>(_, s). case s of Flag f \<Rightarrow> override c (f cfg) = override c cfg
      | Valued _ f \<Rightarrow> \<forall>v. override c (f v cfg) = override c cfg) options"
    by (simp add: options_def override_def)
  then show ?thesis using map_of_SomeD [OF assms] by (auto simp: list_all_iff)
qed

text \<open>A command line that parses may be continued: what follows is parsed from where it ended.\<close>

lemma parse_args_prefix:
  "parse_args cfg xs = Inr c' \<Longrightarrow> override c c' = override c cfg \<and> parse_args cfg (xs @ ys) = parse_args c' ys"
proof (induction xs arbitrary: cfg rule: length_induct)
  case (1 xs)
  show ?case
  proof (cases xs)
    case (Cons arg rest)
    note p = 1(2) [unfolded Cons parse_args_table]
    obtain s where s: "map_of options arg = Some s" using p by (auto split: option.splits if_splits)
    note f = options_fields [OF s, of c cfg]
    show ?thesis
    proof (cases s)
      case (Flag g)
      then have "parse_args (g cfg) rest = Inr c'" "length rest < length xs" using p s Cons by simp_all
      then have "override c c' = override c (g cfg) \<and> parse_args (g cfg) (rest @ ys) = parse_args c' ys" using 1(1) by blast
      then show ?thesis using f s Flag Cons by (simp add: parse_args_table del: parse_args.simps(2))
    next
      case (Valued name g)
      then obtain v rest' where r: "rest = v # rest'" "parse_args (g v cfg) rest' = Inr c'"
        using p s by (auto split: list.splits)
      then have "length rest' < length xs" using Cons by simp
      then have "override c c' = override c (g v cfg) \<and> parse_args (g v cfg) (rest' @ ys) = parse_args c' ys" using 1(1) r(2) by blast
      then show ?thesis using f s Valued Cons r(1) by (simp add: parse_args_table del: parse_args.simps(2))
    qed
  qed (use 1(2) in simp)
qed

lemma parse_spell:
  assumes "- (2 ^ 31) \<le> n_threads c" and "n_threads c < 2 ^ 31"
  shows "parse_args cfg (spell c) = Inr (override c cfg)"
  using number_options(3) [OF assms] by (simp add: spell_def override_def number_options)

text \<open>
  C30. Options are the last word: a command line that ends with every option spelt out yields exactly
  the values spelt, whatever the environment holds and whatever valid options come before; every 32-bit
  count, every \<open>int\<close> number of threads and every 64-bit budget survives printing and parsing, and
  the fields without an option are those of the environment.
\<close>

theorem command_line_round_trip:
  assumes "parse_args (env_config E) xs = Inr c0" and "- (2 ^ 31) \<le> n_threads c" and "n_threads c < 2 ^ 31"
  shows "from_args E (prog # xs @ spell c) = Inr (override c (env_config E))"
  using parse_args_prefix [OF assms(1), of c "spell c"] by (simp add: from_args_def parse_spell [OF assms(2,3)])

theorem command_line_round_trip_witness:
  "\<exists>cfg. from_args (\<lambda>_. Some ''7'') ([''umad'', ''--n-ctx'', ''-1''] @ spell (default_config\<lparr>n_threads := - 3\<rparr>)) = Inr cfg \<and>
     n_threads cfg = - 3 \<and> n_ctx cfg = 4096"
proof -
  have p: "parse_args (env_config (\<lambda>_. Some ''7'')) [''--n-ctx'', ''-1''] =
      Inr ((env_config (\<lambda>_. Some ''7''))\<lparr>n_ctx := to_u32 (strtoul ''-1'')\<rparr>)" by simp
  show ?thesis
    using command_line_round_trip [OF p, of "default_config\<lparr>n_threads := - 3\<rparr>" "''umad''"]
    by (simp add: override_def default_config_def)
qed

end
