(* ===== verification/Session_Requests.thy ===== *)
theory Session_Requests
  imports Session_Manager Sampling
begin

text \<open>
  What a readable event leads to, \<open>SessionManager::on_readable\<close> in
  \<open>src/src/ipc/session_manager.cpp\<close>: a read error, nothing complete to act on, a malformed header, or
  exactly one answer to the first frame, the one its text calls for: an admin request handed to
  the daemon, an error or end event queued for the client, or a request handed to the scheduler.
\<close>

section \<open>The answers\<close>

text \<open>An error event for the client, after which the connection is only written to.\<close>

definition refusal :: "string \<Rightarrow> string \<Rightarrow> string \<Rightarrow> ClientSession \<Rightarrow> ClientSession \<Rightarrow> ReadResult \<Rightarrow> bool" where
  "refusal rid code msg s s' rr \<longleftrightarrow>
     tx s' = append_error_event (tx s) rid code msg \<and> state s' = STREAM \<and> read_closed s' \<and>
     \<not> admin_request rr \<and> wants_write rr \<and> removed_read rr"

text \<open>The sampling parameters of a request: those it names, the session's for the others.\<close>

definition asked_sampling :: "platform \<Rightarrow> string \<Rightarrow> ClientSession \<Rightarrow> ClientSession \<Rightarrow> bool" where
  "asked_sampling P js s s' \<longleftrightarrow>
     temperature s' = (case extract_json_number js ''temperature'' of Some v \<Rightarrow> v | None \<Rightarrow> temperature s) \<and>
     top_p s' = (case extract_json_number js ''top_p'' of Some v \<Rightarrow> v | None \<Rightarrow> top_p s) \<and>
     top_k s' = (case extract_json_number js ''top_k'' of Some v \<Rightarrow> cast_i32 P v | None \<Rightarrow> top_k s)"

text \<open>
  The answer to the text \<open>js\<close>: the session before and after, what the daemon is told, the sequence
  counter before and after.
\<close>

definition answer :: "platform \<Rightarrow> RuntimeConfig \<Rightarrow> llama_vocab option \<Rightarrow> string \<Rightarrow>
    ClientSession \<Rightarrow> ClientSession \<Rightarrow> ReadResult \<Rightarrow> int \<Rightarrow> int \<Rightarrow> bool" where
  "answer P cfg vocab js s s' rr next_id n \<longleftrightarrow>
     (case verdict cfg vocab js of
        Admin \<Rightarrow>
          state s' = STREAM \<and> read_closed s' \<and> tx s' = tx s \<and> admin_request rr \<and> wants_write rr \<and> removed_read rr \<and> n = next_id
      | Refuse code msg \<Rightarrow> refusal (asked_id js) code msg s s' rr \<and> n = next_id
      | Nothing_To_Do \<Rightarrow>
          tx s' = append_eos_event (tx s) (asked_id js) ''stop'' \<and> state s' = STREAM \<and> \<not> admin_request rr \<and> wants_write rr \<and>
          n = next_id
      | Run \<Rightarrow>
          state s' = PREFILL \<and> prompt_tokens s' = tokenize vocab (asked_prompt js) True True \<and> prompt_tokens s' \<noteq> [] \<and>
          prefill_idx s' = 0 \<and> n_past s' = 0 \<and> generated_count s' = 0 \<and> \<not> has_pending_tok s' \<and>
          request_id s' = asked_id js \<and> asked_sampling P js s s' \<and> tx s' = tx s \<and> \<not> admin_request rr \<and> \<not> wants_write rr \<and>
          (if seq s < 0 then seq s' = next_id \<and> n = i32 (next_id + 1) else seq s' = seq s \<and> n = next_id))"

text \<open>Only the queue, the sequence and the sampling parameters of the session before matter.\<close>

lemma answer_before:
  assumes "answer P cfg vocab js t s' rr next_id n" and "tx t = tx s" and "seq t = seq s"
    and "temperature t = temperature s" and "top_p t = top_p s" and "top_k t = top_k s"
  shows "answer P cfg vocab js s s' rr next_id n"
  using assms(1) unfolding answer_def refusal_def asked_sampling_def assms(2-6) .

lemma set_sampling_asked: "asked_sampling P js s (set_sampling P js (s\<lparr>request_id := rid\<rparr>))"
  by (auto simp: asked_sampling_def set_sampling_def Let_def split: option.split)

lemma reject_refusal:
  "reject rid code msg (s1, rr) = (s', rr') \<Longrightarrow> tx s1 = tx s \<Longrightarrow> \<not> admin_request rr \<Longrightarrow>
   refusal rid code msg s s' rr' \<and> rx s' = rx s1"
  by (auto simp: reject_def refusal_def)

lemma handle_request_answer:
  assumes "handle_request P cfg vocab now_ns js next_id (s, rr) = ((s', rr'), n)"
    and "\<not> admin_request rr" and "\<not> wants_write rr"
  shows "answer P cfg vocab js s s' rr' next_id n \<and> rx s' = rx s"
  using assms(1)
proof (cases rule: handle_request_cases)
  case admin
  then show ?thesis by (simp add: answer_def)
next
  case (refused rid code msg s1)
  have "tx s1 = tx s" "rx s1 = rx s" using refused(4) by (auto simp: set_sampling_keeps)
  then show ?thesis using reject_refusal [OF refused(3)] refused(5-7) assms(2) by (simp add: answer_def)
next
  case (nothing_to_do rid)
  then show ?thesis using assms(2) by (simp add: answer_def set_sampling_keeps)
next
  case (started rid prompt)
  have "asked_sampling P js s s'" using started(5) set_sampling_asked [of P js s rid]
    by (simp add: start_request_def asked_sampling_def)
  then show ?thesis using started assms(2,3) by (simp add: start_request_def answer_def set_sampling_keeps)
qed

section \<open>Every readable event\<close>

text \<open>
  C14. One readable event, whatever bytes arrive and however they were cut. On a read error the
  session is as it was but for the bytes read, and the daemon is told to stop reading. Otherwise,
  if no frame is complete and its header is in order, nothing is queued and nothing is asked of
  the daemon but to stop reading at the end of the input. If the header announces length 0 or
  more than the cap, the buffer is left alone and the error event for that defect is queued. If a
  frame is complete, exactly that frame is taken off the buffer and its text decides the
  answer: admin, invalid escape, missing prompt, prompt over the limit, nothing to
  do, or a session in PREFILL with the tokens, the id and the sampling parameters of the request
  and a sequence of its own.
\<close>

theorem on_session_answers:
  assumes "on_session P cfg vocab now_ns chunks fin next_id s = ((s', rr), n)"
  shows "if fin = Read_Error then
      rx s' = rx s @ concat chunks \<and> tx s' = tx s \<and> state s' = state s \<and> n = next_id \<and>
      \<not> wants_write rr \<and> \<not> admin_request rr \<and> removed_read rr
    else
      case try_read_frame (rx s @ concat chunks) kDefaultMaxFrameBytes of
        NeedMore \<Rightarrow>
          rx s' = rx s @ concat chunks \<and> tx s' = tx s \<and> state s' = state s \<and> n = next_id \<and>
          \<not> wants_write rr \<and> \<not> admin_request rr \<and> (removed_read rr \<longleftrightarrow> fin = Read_Eof)
      | FrameErr e \<Rightarrow>
          rx s' = rx s @ concat chunks \<and> n = next_id \<and>
          (if read_u32_le (rx s @ concat chunks) = 0
           then refusal (request_id s) ''E_PROTO_INVALID_LEN'' ''invalid frame length 0'' s s' rr
           else refusal (request_id s) ''E_PROTO_FRAME_TOO_LARGE'' ''frame too large'' s s' rr)
      | Frame js rest \<Rightarrow> rx s' = rest \<and> answer P cfg vocab js s s' rr next_id n"
proof (cases "fin = Read_Error")
  case True
  then show ?thesis using assms by (auto simp: on_session_def Let_def drain_reads_keeps no_result_def)
next
  case ok: False
  define s2 where "s2 = (if fin = Read_Eof then (drain_reads chunks now_ns s)\<lparr>read_closed := True, last_activity_ns := now_ns\<rparr>
               else drain_reads chunks now_ns s)"
  define rr2 where "rr2 = (if fin = Read_Eof then no_result\<lparr>removed_read := True\<rparr> else no_result)"
  have s2: "rx s2 = rx s @ concat chunks" "tx s2 = tx s" "state s2 = state s" "request_id s2 = request_id s" "seq s2 = seq s"
    and params: "temperature s2 = temperature s" "top_p s2 = top_p s" "top_k s2 = top_k s"
    and rr2: "\<not> admin_request rr2" "\<not> wants_write rr2" "removed_read rr2 \<longleftrightarrow> fin = Read_Eof"
    by (simp_all add: s2_def rr2_def drain_reads_keeps drain_reads_params no_result_def)
  note eq = assms [unfolded on_session_frame [OF ok s2_def rr2_def], unfolded s2(1)]
  show ?thesis
  proof (cases "try_read_frame (rx s @ concat chunks) kDefaultMaxFrameBytes")
    case NeedMore
    then show ?thesis using eq s2 rr2 ok by auto
  next
    case (FrameErr e)
    then have e: "e = (if read_u32_le (rx s @ concat chunks) = 0 then ''invalid frame length 0'' else ''frame too large'')"
      by (auto simp: try_read_frame_def Let_def split: if_splits)
    define code where "code = (if str_find e ''invalid frame length 0'' 0 \<noteq> None then ''E_PROTO_INVALID_LEN'' else ''E_PROTO_FRAME_TOO_LARGE'')"
    have code: "code = (if read_u32_le (rx s @ concat chunks) = 0 then ''E_PROTO_INVALID_LEN'' else ''E_PROTO_FRAME_TOO_LARGE'')"
      by (simp add: code_def e error_texts)
    have r: "reject (request_id s) code e (s2, rr2) = (s', rr)" "n = next_id" using eq s2(4) FrameErr by (simp_all add: code_def)
    from reject_refusal [OF r(1) s2(2) rr2(1)] show ?thesis
      using FrameErr ok r(2) s2(1) unfolding e code by (simp split: if_splits)
  next
    case (Frame js rest)
    then have h: "handle_request P cfg vocab now_ns js next_id (s2\<lparr>rx := rest\<rparr>, rr2) = ((s', rr), n)" using eq by simp
    note a = handle_request_answer [OF this rr2(1,2)]
    have "answer P cfg vocab js s s' rr next_id n" by (rule answer_before [OF conjunct1 [OF a]]) (simp_all add: s2 params)
    then show ?thesis using Frame ok a by simp
  qed
qed

text \<open>A request whose prompt is longer than the configured limit.\<close>

definition long_request :: string where
  "long_request = ''{'' @ dquote @ ''id'' @ dquote @ '':'' @ dquote @ ''q'' @ dquote @ '','' @
     dquote @ ''prompt'' @ dquote @ '':'' @ dquote @ ''hi'' @ dquote @ ''}''"

lemma long_request_facts:
  "verdict (default_config\<lparr>max_prompt_bytes := 1\<rparr>) None long_request = Refuse ''E_LIMIT_001'' ''prompt too large''"
  "asked_id long_request = ''q''"
  by code_simp+

theorem on_session_answers_witness:
  "\<exists>s' rr n. on_session demo_platform (default_config\<lparr>max_prompt_bytes := 1\<rparr>) None 7
      [write_frame [] long_request, [1, 2]] Read_Again 1 new_session = ((s', rr), n) \<and>
    rx s' = [1, 2] \<and> refusal ''q'' ''E_LIMIT_001'' ''prompt too large'' new_session s' rr \<and> n = 1"
proof -
  let ?cfg = "default_config\<lparr>max_prompt_bytes := 1\<rparr>"
  obtain s' rr n where r: "on_session demo_platform ?cfg None 7 [write_frame [] long_request, [1, 2]] Read_Again 1 new_session = ((s', rr), n)"
    by (metis surj_pair)
  have "frame_ok kDefaultMaxFrameBytes long_request" by (simp add: frame_ok_def long_request_def kDefaultMaxFrameBytes_def dquote_def)
  then have f: "try_read_frame (write_frame [] long_request @ [1, 2]) kDefaultMaxFrameBytes = Frame long_request [1, 2]"
    by (rule try_read_frame_write_frame)
  have "rx new_session = []" by (simp add: new_session_def)
  then show ?thesis using on_session_answers [OF r] r f by (simp add: answer_def long_request_facts)
qed

end
