(* ===== verification/Utf8.thy ===== *)
theory Utf8
  imports Prelude
begin

text \<open>
  UTF-8 validation, \<open>src/src/util/utf8.h\<close>: a state machine over bytes with the number of
  continuation bytes still expected, the lead byte and the position in the sequence. It is shown
  to accept exactly the encodings of sequences of Unicode scalar values.
\<close>

section \<open>The validator\<close>

fun utf8_loop :: "nat \<Rightarrow> byte \<Rightarrow> nat \<Rightarrow> byte list \<Rightarrow> bool" where
  "utf8_loop remaining lead pos [] \<longleftrightarrow> remaining = 0"
| "utf8_loop remaining lead pos (c # cs) \<longleftrightarrow>
     (if remaining = 0 then
        (if c \<le> 0x7F then utf8_loop remaining lead pos cs
         else if c \<ge> 0xC2 \<and> c \<le> 0xDF then utf8_loop 1 c 0 cs
         else if c \<ge> 0xE0 \<and> c \<le> 0xEF then utf8_loop 2 c 0 cs
         else if c \<ge> 0xF0 \<and> c \<le> 0xF4 then utf8_loop 3 c 0 cs
         else False)
      else if c AND 0xC0 \<noteq> 0x80 then False
      else
        let pos' = pos + 1 in
          if pos' = 1 \<and> (lead = 0xE0 \<and> c < 0xA0 \<or> lead = 0xED \<and> c > 0x9F \<or>
                         lead = 0xF0 \<and> c < 0x90 \<or> lead = 0xF4 \<and> c > 0x8F) then False
          else if remaining - 1 = 0 then utf8_loop 0 0 0 cs
          else utf8_loop (remaining - 1) lead pos' cs)"

definition is_valid_utf8 :: "byte list \<Rightarrow> bool" where
  "is_valid_utf8 s \<longleftrightarrow> utf8_loop 0 0 0 s"

section \<open>The encoding\<close>

definition scalar_value :: "nat \<Rightarrow> bool" where
  "scalar_value n \<longleftrightarrow> n < 0x110000 \<and> \<not> (0xD800 \<le> n \<and> n \<le> 0xDFFF)"

definition utf8_nats :: "nat \<Rightarrow> nat list" where
  "utf8_nats n =
     (if n < 0x80 then [n]
      else if n < 0x800 then [0xC0 + n div 64, 0x80 + n mod 64]
      else if n < 0x10000 then [0xE0 + n div 4096, 0x80 + n div 64 mod 64, 0x80 + n mod 64]
      else [0xF0 + n div 262144, 0x80 + n div 4096 mod 64, 0x80 + n div 64 mod 64, 0x80 + n mod 64])"

definition utf8_encode :: "nat \<Rightarrow> byte list" where
  "utf8_encode n = map word_of_nat (utf8_nats n)"

section \<open>Bytes as numbers\<close>

definition cont :: "nat \<Rightarrow> bool" where
  "cont n \<longleftrightarrow> 0x80 \<le> n \<and> n < 0xC0"

lemma byte_bound: "unat (c :: byte) < 256"
  using unsigned_less [of c] by simp

lemma cont_byte: "c AND 0xC0 = 0x80 \<longleftrightarrow> cont (unat c)" for c :: byte
proof -
  have "\<forall>n < 256. (word_of_nat n AND 0xC0 = (0x80 :: byte)) = cont n" by code_simp
  then have "(word_of_nat (unat c) AND 0xC0 = (0x80 :: byte)) = cont (unat c)" using byte_bound by blast
  then show ?thesis by simp
qed

lemma byte_le_iff: "c \<le> numeral k \<longleftrightarrow> unat c \<le> unat (numeral k :: byte)"
  "numeral k \<le> c \<longleftrightarrow> unat (numeral k :: byte) \<le> unat c" for c :: byte
  by (simp_all add: word_le_nat_alt)

lemma byte_less_iff: "c < numeral k \<longleftrightarrow> unat c < unat (numeral k :: byte)"
  "numeral k < c \<longleftrightarrow> unat (numeral k :: byte) < unat c" for c :: byte
  by (simp_all add: word_less_nat_alt)

lemma byte_eq_iff: "c = numeral k \<longleftrightarrow> unat c = unat (numeral k :: byte)" for c :: byte
  by (simp add: word_unat_eq_iff)

lemma cont_byte_nat: "unat (c AND 0xC0) = 0x80 \<longleftrightarrow> cont (unat c)" for c :: byte
  using cont_byte [of c] byte_eq_iff [of "c AND 0xC0" "num.Bit0 (num.Bit0 (num.Bit0 (num.Bit0 (num.Bit0 (num.Bit0 (num.Bit0 num.One))))))"]
  by simp

lemmas byte_nat = byte_le_iff byte_less_iff byte_eq_iff cont_byte cont_byte_nat

text \<open>The extra constraint on the first continuation byte of some leads.\<close>

definition second_ok :: "nat \<Rightarrow> nat \<Rightarrow> bool" where
  "second_ok b0 b1 \<longleftrightarrow>
     \<not> (b0 = 0xE0 \<and> b1 < 0xA0 \<or> b0 = 0xED \<and> b1 > 0x9F \<or> b0 = 0xF0 \<and> b1 < 0x90 \<or> b0 = 0xF4 \<and> b1 > 0x8F)"

text \<open>One sequence: what the loop does from a lead byte to the last continuation byte.\<close>

fun sequence :: "nat list \<Rightarrow> bool" where
  "sequence [a] \<longleftrightarrow> a < 0x80"
| "sequence [a, b] \<longleftrightarrow> 0xC2 \<le> a \<and> a \<le> 0xDF \<and> cont b"
| "sequence [a, b, c] \<longleftrightarrow> 0xE0 \<le> a \<and> a \<le> 0xEF \<and> cont b \<and> cont c \<and> second_ok a b"
| "sequence [a, b, c, d] \<longleftrightarrow> 0xF0 \<le> a \<and> a \<le> 0xF4 \<and> cont b \<and> cont c \<and> cont d \<and> second_ok a b"
| "sequence _ \<longleftrightarrow> False"

lemma utf8_loop_start: "utf8_loop 0 l p s = utf8_loop 0 0 0 s"
  by (induction s) auto

lemma utf8_loop_sequence:
  assumes "sequence (map unat w)"
  shows "utf8_loop 0 l p (w @ rest) = utf8_loop 0 0 0 rest"
proof -
  consider a where "w = [a]" | a b where "w = [a, b]" | a b c where "w = [a, b, c]" | a b c d where "w = [a, b, c, d]"
    using assms by (cases "map unat w" rule: sequence.cases) auto
  then show ?thesis
  proof cases
    case (1 a)
    then show ?thesis using assms utf8_loop_start [of l p rest] by (simp add: byte_nat)
  next
    case (2 a b)
    then show ?thesis using assms by (auto simp: byte_nat)
  next
    case (3 a b c)
    then show ?thesis using assms by (auto simp: byte_nat second_ok_def)
  next
    case (4 a b c d)
    then show ?thesis using assms by (auto simp: byte_nat second_ok_def)
  qed
qed

lemma utf8_loop_cont:
  "utf8_loop (Suc n) lead pos s \<longleftrightarrow>
     (\<exists>b r. s = b # r \<and> cont (unat b) \<and> (pos = 0 \<longrightarrow> second_ok (unat lead) (unat b)) \<and>
        (if n = 0 then utf8_loop 0 0 0 r else utf8_loop n lead (Suc pos) r))"
proof (cases s)
  case (Cons b r)
  have "second_ok (unat lead) (unat b) \<longleftrightarrow>
      \<not> (lead = 0xE0 \<and> b < 0xA0 \<or> lead = 0xED \<and> b > 0x9F \<or> lead = 0xF0 \<and> b < 0x90 \<or> lead = 0xF4 \<and> b > 0x8F)"
    by (simp add: second_ok_def byte_le_iff byte_less_iff byte_eq_iff)
  then have sec: "(lead = 0xE0 \<and> b < 0xA0 \<or> lead = 0xED \<and> b > 0x9F \<or> lead = 0xF0 \<and> b < 0x90 \<or> lead = 0xF4 \<and> b > 0x8F)
      \<longleftrightarrow> \<not> second_ok (unat lead) (unat b)" by blast
  show ?thesis unfolding Cons utf8_loop.simps Let_def sec cont_byte by auto
qed simp

lemma utf8_loop_last:
  assumes "utf8_loop (Suc 0) lead pos s"
  obtains b r where "s = b # r" "cont (unat b)" "pos = 0 \<longrightarrow> second_ok (unat lead) (unat b)" "utf8_loop 0 0 0 r"
  using assms [unfolded utf8_loop_cont] by (metis (full_types))

lemma utf8_loop_more:
  assumes "utf8_loop (Suc (Suc n)) lead pos s"
  obtains b r where "s = b # r" "cont (unat b)" "pos = 0 \<longrightarrow> second_ok (unat lead) (unat b)"
    "utf8_loop (Suc n) lead (Suc pos) r"
  using assms [unfolded utf8_loop_cont [of "Suc n"]] by (metis (full_types) nat.distinct(1))

lemma splitI:
  "s = w @ rest \<Longrightarrow> sequence (map unat w) \<Longrightarrow> utf8_loop 0 0 0 rest \<Longrightarrow>
   \<exists>w rest. s = w @ rest \<and> sequence (map unat w) \<and> utf8_loop 0 0 0 rest"
  by blast

lemma utf8_loop_splits:
  assumes "utf8_loop 0 l p s" and "s \<noteq> []"
  shows "\<exists>w rest. s = w @ rest \<and> sequence (map unat w) \<and> utf8_loop 0 0 0 rest"
proof -
  obtain a s1 where s: "s = a # s1" using assms(2) by (cases s) auto
  consider "unat a \<le> 0x7F" | "0xC2 \<le> unat a" "unat a \<le> 0xDF" "utf8_loop (Suc 0) a 0 s1"
    | "0xE0 \<le> unat a" "unat a \<le> 0xEF" "utf8_loop (Suc (Suc 0)) a 0 s1"
    | "0xF0 \<le> unat a" "unat a \<le> 0xF4" "utf8_loop (Suc (Suc (Suc 0))) a 0 s1"
  proof -
    have n: "utf8_loop (Suc 0) = utf8_loop 1" "utf8_loop (Suc (Suc 0)) = utf8_loop 2"
      "utf8_loop (Suc (Suc (Suc 0))) = utf8_loop 3" by (simp_all add: numeral_2_eq_2 numeral_3_eq_3)
    show ?thesis using that [unfolded n] assms(1) unfolding s utf8_loop.simps byte_le_iff by (simp split: if_splits)
  qed
  then show ?thesis
  proof cases
    case 1
    then have "utf8_loop 0 0 0 s1" using assms(1) utf8_loop_start [of l p s1] by (simp add: s byte_nat)
    then show ?thesis using 1 by (intro exI [of _ "[a]"] exI [of _ s1]) (simp add: s)
  next
    case 2
    obtain b r where "s1 = b # r" "cont (unat b)" "utf8_loop 0 0 0 r" by (rule utf8_loop_last [OF 2(3)]) simp
    with 2(1,2) show ?thesis by (intro splitI [of s "[a, b]" r]) (simp_all only: s append.simps list.map sequence.simps simp_thms)
  next
    case 3
    obtain b r1 where b: "s1 = b # r1" "cont (unat b)" "second_ok (unat a) (unat b)" "utf8_loop (Suc 0) a (Suc 0) r1"
      by (rule utf8_loop_more [OF 3(3)]) simp
    obtain c r where "r1 = c # r" "cont (unat c)" "utf8_loop 0 0 0 r" by (rule utf8_loop_last [OF b(4)]) simp
    with 3(1,2) b(1-3) show ?thesis by (intro splitI [of s "[a, b, c]" r]) (simp_all only: s append.simps list.map sequence.simps simp_thms)
  next
    case 4
    obtain b r2 where b: "s1 = b # r2" "cont (unat b)" "second_ok (unat a) (unat b)" "utf8_loop (Suc (Suc 0)) a (Suc 0) r2"
      by (rule utf8_loop_more [OF 4(3)]) simp
    obtain c r1 where c: "r2 = c # r1" "cont (unat c)" "utf8_loop (Suc 0) a (Suc (Suc 0)) r1"
      by (rule utf8_loop_more [OF b(4)]) simp
    obtain d r where "r1 = d # r" "cont (unat d)" "utf8_loop 0 0 0 r" by (rule utf8_loop_last [OF c(3)]) simp
    with 4(1,2) b(1-3) c(1,2) show ?thesis by (intro splitI [of s "[a, b, c, d]" r]) (simp_all only: s append.simps list.map sequence.simps simp_thms)
  qed
qed

section \<open>Sequences are encodings\<close>

lemma digits3: "n = n div 4096 * 4096 + n div 64 mod 64 * 64 + n mod (64 :: nat)"
proof -
  have "n div 64 = n div 4096 * 64 + n div 64 mod 64" using div_mult_mod_eq [of "n div 64" 64] by (simp add: div_mult2_eq [symmetric])
  then show ?thesis using div_mult_mod_eq [of n 64] by linarith
qed

lemma digits4: "n = n div 262144 * 262144 + n div 4096 mod 64 * 4096 + n mod (4096 :: nat)"
proof -
  have "n div 4096 = n div 262144 * 64 + n div 4096 mod 64"
    using div_mult_mod_eq [of "n div 4096" 64] by (simp add: div_mult2_eq [symmetric])
  then show ?thesis using div_mult_mod_eq [of n 4096] by linarith
qed

lemma sequence_utf8: "scalar_value n \<Longrightarrow> sequence (utf8_nats n)"
proof -
  assume n: "scalar_value n"
  have c: "cont (0x80 + k mod 64)" for k by (simp add: cont_def)
  consider "n < 0x80" | "0x80 \<le> n" "n < 0x800" | "0x800 \<le> n" "n < 0x10000" | "0x10000 \<le> n" "n < 0x110000"
    using n unfolding scalar_value_def by linarith
  then show ?thesis
  proof cases
    case 3
    define x y z where "x = n div 4096" and "y = n div 64 mod 64" and "z = n mod 64"
    have v: "n = x * 4096 + y * 64 + z" "y < 64" "z < 64" using digits3 [of n] by (simp_all add: x_def y_def z_def)
    then have "x \<le> 15" "x = 0 \<longrightarrow> 32 \<le> y" "x = 13 \<longrightarrow> y < 32" using n 3 unfolding scalar_value_def by linarith+
    then show ?thesis using 3 c by (auto simp: utf8_nats_def second_ok_def x_def y_def)
  next
    case 4
    define x y z where "x = n div 262144" and "y = n div 4096 mod 64" and "z = n mod 4096"
    have v: "n = x * 262144 + y * 4096 + z" "y < 64" "z < 4096" using digits4 [of n] by (simp_all add: x_def y_def z_def)
    then have "x \<le> 4" "x = 0 \<longrightarrow> 16 \<le> y" "x = 4 \<longrightarrow> y < 16" using 4 by linarith+
    then show ?thesis using 4 c by (auto simp: utf8_nats_def second_ok_def x_def y_def)
  next
    case 2
    then have "2 \<le> n div 64" "n div 64 \<le> 31" by linarith+
    then show ?thesis using 2 c by (simp add: utf8_nats_def)
  qed (simp add: utf8_nats_def)
qed

text \<open>The value a sequence stands for.\<close>

fun utf8_value :: "nat list \<Rightarrow> nat" where
  "utf8_value [a] = a"
| "utf8_value [a, b] = (a - 0xC0) * 64 + (b - 0x80)"
| "utf8_value [a, b, c] = (a - 0xE0) * 4096 + (b - 0x80) * 64 + (c - 0x80)"
| "utf8_value [a, b, c, d] = (a - 0xF0) * 262144 + (b - 0x80) * 4096 + (c - 0x80) * 64 + (d - 0x80)"
| "utf8_value _ = 0"

lemma div_mod_digits:
  "x < 64 \<Longrightarrow> (y * 64 + x) div 64 = (y :: nat)" "x < 64 \<Longrightarrow> (y * 64 + x) mod 64 = (x :: nat)"
  by simp_all

lemma utf8_value_three:
  assumes "sequence [a, b, c]"
  shows "scalar_value (utf8_value [a, b, c]) \<and> utf8_nats (utf8_value [a, b, c]) = [a, b, c]"
proof -
  define x y z where "x = a - 0xE0" and "y = b - 0x80" and "z = c - 0x80"
  have v: "a = 0xE0 + x" "b = 0x80 + y" "c = 0x80 + z" "x < 16" "y < 64" "z < 64" "x = 0 \<longrightarrow> 32 \<le> y" "x = 13 \<longrightarrow> y < 32"
    using assms by (auto simp: x_def y_def z_def cont_def second_ok_def)
  have n: "x * 4096 + y * 64 + z = (x * 64 + y) * 64 + z" by simp
  have "0x800 \<le> x * 4096 + y * 64 + z" using v(4-7) by (cases "x = 0") auto
  moreover have "x * 4096 + y * 64 + z < 0x10000" using v(4-6) by linarith
  moreover have "\<not> (0xD800 \<le> x * 4096 + y * 64 + z \<and> x * 4096 + y * 64 + z \<le> 0xDFFF)"
  proof -
    consider "x \<le> 12" | "x = 13" "y < 32" | "14 \<le> x" using v(8) by linarith
    then show ?thesis
    proof cases
      case 1
      then show ?thesis using v(5,6) by linarith
    next
      case 2
      then show ?thesis using v(6) by linarith
    next
      case 3
      then show ?thesis by linarith
    qed
  qed
  moreover have "((x * 64 + y) * 64 + z) div 4096 = x"
    using v(5,6) div_mod_digits(1) [of z "x * 64 + y"] div_mod_digits(1) [of y x] by (simp add: div_mult2_eq [of _ 64 64, simplified])
  ultimately show ?thesis using v(1-6) div_mod_digits [of z "x * 64 + y"] div_mod_digits [of y x]
    unfolding utf8_value.simps v(1-3) by (simp add: n scalar_value_def utf8_nats_def)
qed

lemma utf8_value_four:
  assumes "sequence [a, b, c, d]"
  shows "scalar_value (utf8_value [a, b, c, d]) \<and> utf8_nats (utf8_value [a, b, c, d]) = [a, b, c, d]"
proof -
  define x y z u where "x = a - 0xF0" and "y = b - 0x80" and "z = c - 0x80" and "u = d - 0x80"
  have v: "a = 0xF0 + x" "b = 0x80 + y" "c = 0x80 + z" "d = 0x80 + u" "x \<le> 4" "y < 64" "z < 64" "u < 64"
    "x = 0 \<longrightarrow> 16 \<le> y" "x = 4 \<longrightarrow> y < 16"
    using assms by (auto simp: x_def y_def z_def u_def cont_def second_ok_def)
  let ?n = "((x * 64 + y) * 64 + z) * 64 + u"
  have n: "x * 262144 + y * 4096 + z * 64 + u = ?n" by simp
  have "0x10000 \<le> x * 262144 + y * 4096 + z * 64 + u" using v(9) by (cases "x = 0") auto
  moreover have "x * 262144 + y * 4096 + z * 64 + u < 0x110000"
  proof (cases "x = 4")
    case True
    then show ?thesis using v(7,8,10) by linarith
  next
    case False
    then show ?thesis using v(5-8) by linarith
  qed
  moreover have "?n div 64 = (x * 64 + y) * 64 + z" "?n mod 64 = u" "((x * 64 + y) * 64 + z) div 64 = x * 64 + y"
    "((x * 64 + y) * 64 + z) mod 64 = z" "(x * 64 + y) div 64 = x" "(x * 64 + y) mod 64 = y"
    using v(6-8) by (simp_all only: div_mod_digits)
  moreover have "?n div 4096 = ?n div 64 div 64" "?n div 262144 = ?n div 64 div 64 div 64"
    by (simp_all only: div_mult2_eq [symmetric]) simp_all
  ultimately show ?thesis unfolding utf8_value.simps v(1-4) by (simp add: n scalar_value_def utf8_nats_def)
qed

lemma utf8_value_sequence:
  assumes "sequence w"
  shows "scalar_value (utf8_value w) \<and> utf8_nats (utf8_value w) = w"
proof -
  consider a where "w = [a]" | a b where "w = [a, b]" | a b c where "w = [a, b, c]" | a b c d where "w = [a, b, c, d]"
    using assms by (cases w rule: sequence.cases) auto
  then show ?thesis
  proof cases
    case (1 a)
    then show ?thesis using assms by (simp add: scalar_value_def utf8_nats_def)
  next
    case (2 a b)
    define x y where "x = a - 0xC0" and "y = b - 0x80"
    have xy: "a = 0xC0 + x" "b = 0x80 + y" "2 \<le> x" "x < 32" "y < 64"
      using assms 2 by (auto simp: x_def y_def cont_def)
    then show ?thesis by (simp add: 2 scalar_value_def utf8_nats_def)
  next
    case (3 a b c)
    then show ?thesis using assms utf8_value_three by blast
  next
    case (4 a b c d)
    then show ?thesis using assms utf8_value_four by blast
  qed
qed

lemma sequence_nonempty: "\<not> sequence []"
  by simp

lemma unat_word_of_nat_bytes: "list_all (\<lambda>n. n < 256) ns \<Longrightarrow> map unat (map word_of_nat ns :: byte list) = ns"
  by (induction ns) (auto simp: unat_of_nat)

lemma sequence_bytes: "sequence w \<Longrightarrow> list_all (\<lambda>n. n < 256) w"
  by (cases w rule: sequence.cases) (auto simp: cont_def)

lemma encode_sequence: "scalar_value n \<Longrightarrow> sequence (map unat (utf8_encode n))"
  unfolding utf8_encode_def using sequence_utf8 sequence_bytes unat_word_of_nat_bytes by metis

lemma sequence_encode:
  assumes "sequence (map unat w)"
  shows "scalar_value (utf8_value (map unat w)) \<and> utf8_encode (utf8_value (map unat w)) = w"
  using utf8_value_sequence [OF assms] by (simp add: utf8_encode_def comp_def)

lemma encodings_accepted: "list_all scalar_value cs \<Longrightarrow> utf8_loop 0 0 0 (concat (map utf8_encode cs))"
  by (induction cs) (auto simp: utf8_loop_sequence encode_sequence)

lemma accepted_encodings:
  assumes "utf8_loop 0 0 0 s"
  shows "\<exists>cs. list_all scalar_value cs \<and> s = concat (map utf8_encode cs)"
  using assms
proof (induction s rule: length_induct)
  case (1 s)
  show ?case
  proof (cases "s = []")
    case True
    then show ?thesis by (intro exI [of _ "[]"]) simp
  next
    case False
    obtain w rest where w: "s = w @ rest" "sequence (map unat w)" "utf8_loop 0 0 0 rest"
      using utf8_loop_splits [OF 1(2) False] by blast
    have "w \<noteq> []" using w(2) sequence_nonempty by (cases w) auto
    then obtain cs where "list_all scalar_value cs" "rest = concat (map utf8_encode cs)"
      using 1(1) w by (metis append_self_conv2 length_append less_add_same_cancel2 length_greater_0_conv)
    then show ?thesis using w(1) sequence_encode [OF w(2)]
      by (intro exI [of _ "utf8_value (map unat w) # cs"]) simp
  qed
qed

text \<open>
  C29. The validator accepts a byte string exactly when it is the UTF-8 encoding of some sequence of
  Unicode scalar values (code points below U+110000 outside the surrogate range): overlong forms,
  surrogates, stray or missing continuation bytes and values past U+10FFFF are all rejected, and
  every well-formed text is accepted.
\<close>

theorem is_valid_utf8_exact:
  "is_valid_utf8 s \<longleftrightarrow> (\<exists>cs. list_all scalar_value cs \<and> s = concat (map utf8_encode cs))"
  unfolding is_valid_utf8_def using encodings_accepted accepted_encodings by blast

end
